(* ===== verification/Redis_Prelude.thy ===== *)
theory Redis_Prelude
  imports Main "HOL-Library.Word" "HOL-Library.Monad_Syntax"
begin

unbundle bit_operations_syntax

text \<open>
  Prelude of the development: the machine types of the C sources, checked memory
  accesses on byte buffers, little-endian encodings and the list lemmas the
  components share.

  \<^item> \<open>byte\<close>, \<open>u16\<close>, \<open>u32\<close>, \<open>u64\<close> are the C types \<open>unsigned char\<close>, \<open>uint16_t\<close>,
    \<open>uint32_t\<close>, \<open>uint64_t\<close>; a signed C integer is the same word read through \<open>sint\<close>.
  \<^item> A buffer is a list. \<open>rd\<close>, \<open>wr\<close>, \<open>rdn\<close>, \<open>wrn\<close> access it with a bounds check and
    give \<open>None\<close> where the C access would be out of bounds, so that a theorem which
    says a function returns \<open>Some\<close> is a memory safety theorem too.
  \<^item> \<open>le_enc\<close> and \<open>le_dec\<close> are the byte images of words on a little-endian host.
\<close>

named_theorems mem_simps \<open>bounds-checked buffer accesses\<close>
named_theorems dec_simps \<open>decimal representations\<close>

type_synonym byte = "8 word"
type_synonym u16 = "16 word"
type_synonym u32 = "32 word"
type_synonym u64 = "64 word"
type_synonym buffer = "byte list"

abbreviation ch :: "char \<Rightarrow> byte" where
  "ch c \<equiv> of_char c"

abbreviation str :: "string \<Rightarrow> buffer" where
  "str s \<equiv> map of_char s"

section \<open>Checked buffer accesses\<close>

definition rd :: "'a list \<Rightarrow> nat \<Rightarrow> 'a option" where
  "rd m i = (if i < length m then Some (m ! i) else None)"

definition wr :: "'a list \<Rightarrow> nat \<Rightarrow> 'a \<Rightarrow> 'a list option" where
  "wr m i x = (if i < length m then Some (m[i := x]) else None)"

definition rdn :: "'a list \<Rightarrow> nat \<Rightarrow> nat \<Rightarrow> 'a list option" where
  "rdn m off n = (if off + n \<le> length m then Some (take n (drop off m)) else None)"

definition wrn :: "'a list \<Rightarrow> nat \<Rightarrow> 'a list \<Rightarrow> 'a list option" where
  "wrn m off xs =
     (if off + length xs \<le> length m then Some (take off m @ xs @ drop (off + length xs) m) else None)"

lemma rd_Some [mem_simps]: "i < length m \<Longrightarrow> rd m i = Some (m ! i)"
  by (simp add: rd_def)

lemma wr_Some [mem_simps]: "i < length m \<Longrightarrow> wr m i x = Some (m[i := x])"
  by (simp add: wr_def)

lemma rdn_Some [mem_simps]: "off + n \<le> length m \<Longrightarrow> rdn m off n = Some (take n (drop off m))"
  by (simp add: rdn_def)

lemma wrn_Some [mem_simps]:
  "off + length xs \<le> length m \<Longrightarrow> wrn m off xs = Some (take off m @ xs @ drop (off + length xs) m)"
  by (simp add: wrn_def)

lemma rd_eq_SomeD: "rd m i = Some x \<Longrightarrow> i < length m \<and> x = m ! i"
  by (simp add: rd_def split: if_splits)

lemma wr_eq_SomeD: "wr m i x = Some m' \<Longrightarrow> i < length m \<and> m' = m[i := x]"
  by (simp add: wr_def split: if_splits)

lemma wrn_length: "wrn m off xs = Some m' \<Longrightarrow> length m' = length m"
  by (auto simp: wrn_def split: if_splits)

lemma rdn_length: "rdn m off n = Some xs \<Longrightarrow> length xs = n"
  by (auto simp: rdn_def split: if_splits)

text \<open>What is read back after a write: the same range, and a range that does not overlap.\<close>

lemma rdn_wrn_same: "wrn m off xs = Some m' \<Longrightarrow> rdn m' off (length xs) = Some xs"
  by (auto simp: wrn_def rdn_def split: if_splits)

lemma rdn_wrn_below:
  assumes "wrn m off xs = Some m'" and "i + n \<le> off"
  shows "rdn m' i n = rdn m i n"
  using assms by (auto simp: wrn_def rdn_def drop_take split: if_splits)

lemma rdn_wrn_above:
  assumes "wrn m off xs = Some m'" and "off + length xs \<le> i"
  shows "rdn m' i n = rdn m i n"
proof -
  from assms(1) have len: "off + length xs \<le> length m"
    and m': "m' = take off m @ xs @ drop (off + length xs) m"
    by (auto simp: wrn_def split: if_splits)
  have "drop i m' = drop i m"
    using assms(2) len by (simp add: m' drop_append)
  then show ?thesis
    using len by (simp add: rdn_def m')
qed

lemma nth_concat_pairs:
  assumes "n < length ts"
  shows "concat (map (\<lambda>t. [f t, g t]) ts) ! (2 * n) = f (ts ! n)"
    and "concat (map (\<lambda>t. [f t, g t]) ts) ! Suc (2 * n) = g (ts ! n)"
    and "Suc (2 * n) < length (concat (map (\<lambda>t. [f t, g t]) ts))"
  using assms
proof (induction ts arbitrary: n)
  case (Cons t ts)
  {
    case 1
    with Cons.IH(1) show ?case by (cases n) auto
  next
    case 2
    with Cons.IH(2) show ?case by (cases n) auto
  next
    case 3
    with Cons.IH(3) show ?case by (cases n) auto
  }
qed simp_all

section \<open>Little-endian images of words\<close>

definition le_enc :: "nat \<Rightarrow> 'a::len word \<Rightarrow> buffer" where
  "le_enc n w = map (\<lambda>i. ucast (drop_bit (8 * i) w)) [0..<n]"

fun le_dec :: "buffer \<Rightarrow> 'a::len word" where
  "le_dec [] = 0"
| "le_dec (b # bs) = ucast b OR push_bit 8 (le_dec bs)"

lemma length_le_enc [simp]: "length (le_enc n w) = n"
  by (simp add: le_enc_def)

lemma bit_le_dec:
  "bit (le_dec bs :: 'a::len word) i \<longleftrightarrow>
     i < LENGTH('a) \<and> i div 8 < length bs \<and> bit (bs ! (i div 8)) (i mod 8)"
proof (induction bs arbitrary: i)
  case Nil
  then show ?case by simp
next
  case (Cons b bs)
  show ?case
  proof (cases "i < 8")
    case True
    then show ?thesis
      by (auto simp: bit_or_iff bit_ucast_iff bit_push_bit_iff)
  next
    case False
    then obtain j where i: "i = j + 8"
      by (metis add.commute le_add_diff_inverse not_less)
    have "\<not> bit b i"
      using False bit_imp_le_length by fastforce
    then show ?thesis
      using Cons.IH [of j] by (auto simp: i bit_or_iff bit_ucast_iff bit_push_bit_iff div_add_self2)
  qed
qed

lemma le_dec_enc:
  assumes "LENGTH('a::len) \<le> 8 * n"
  shows "le_dec (le_enc n w) = (w :: 'a word)"
proof (rule bit_word_eqI)
  fix i assume i: "i < LENGTH('a)"
  then have "i div 8 < n"
    using assms by simp
  moreover have "8 * (i div 8) + i mod 8 = i"
    by simp
  ultimately show "bit (le_dec (le_enc n w) :: 'a word) i = bit w i"
    using i by (simp add: bit_le_dec le_enc_def bit_ucast_iff bit_drop_bit_eq)
qed

lemma le_enc_dec:
  assumes "length bs = n" and "8 * n \<le> LENGTH('a::len)"
  shows "le_enc n (le_dec bs :: 'a word) = bs"
proof (rule nth_equalityI)
  show "length (le_enc n (le_dec bs :: 'a word)) = length bs"
    using assms by simp
next
  fix i assume "i < length (le_enc n (le_dec bs :: 'a word))"
  then have i: "i < n" by simp
  show "le_enc n (le_dec bs :: 'a word) ! i = bs ! i"
  proof (rule bit_word_eqI)
    fix k :: nat assume k: "k < LENGTH(8)"
    have "8 * i + k < LENGTH('a)"
      using i k assms by simp
    then show "bit (le_enc n (le_dec bs :: 'a word) ! i) k = bit (bs ! i) k"
      using i k assms by (simp add: le_enc_def bit_ucast_iff bit_drop_bit_eq bit_le_dec)
  qed
qed

section \<open>Words read as integers\<close>

lemma sint_uint_cases:
  "sint (w :: 'a::len word) = (if uint w < 2 ^ (LENGTH('a) - 1) then uint w else uint w - 2 ^ LENGTH('a))"
proof -
  let ?n = "LENGTH('a) - 1"
  have S: "Suc ?n = LENGTH('a)" by simp
  have top: "bit (uint w) ?n \<longleftrightarrow> \<not> uint w < 2 ^ ?n"
  proof -
    have "unat w < 2 * 2 ^ ?n"
      using unsigned_less [of w] by (metis S power_Suc)
    then have "unat w div 2 ^ ?n < 2"
      by (simp add: div_less_iff_less_mult)
    moreover have "uint w div 2 ^ ?n = int (unat w div 2 ^ ?n)"
      by (simp only: uint_nat zdiv_int of_nat_power of_nat_numeral)
    ultimately have "uint w div 2 ^ ?n < 2"
      by linarith
    moreover have "0 \<le> uint w div 2 ^ ?n"
      by (simp add: pos_imp_zdiv_nonneg_iff)
    ultimately have "uint w div 2 ^ ?n = 0 \<or> uint w div 2 ^ ?n = 1"
      by linarith
    moreover have "uint w div 2 ^ ?n = 0 \<longleftrightarrow> uint w < 2 ^ ?n"
      by (auto simp: zdiv_eq_0_iff)
    ultimately show ?thesis
      by (auto simp: bit_iff_odd)
  qed
  have "sint w = take_bit (Suc ?n) (uint w) - 2 ^ Suc ?n * of_bool (bit (uint w) ?n)"
    by (simp only: sint_uint signed_take_bit_eq_take_bit_minus One_nat_def)
  also have "take_bit (Suc ?n) (uint w) = uint w"
    by (simp only: S) (simp add: take_bit_int_eq_self_iff)
  finally show ?thesis
    using top by (simp only: S) auto
qed

lemma uint_uminus: "w \<noteq> 0 \<Longrightarrow> uint (- w :: 'a::len word) = 2 ^ LENGTH('a) - uint w"
proof -
  assume w: "w \<noteq> 0"
  have "uint (- w) = (- uint w) mod 2 ^ LENGTH('a)"
    by (simp add: uint_word_ariths)
  also have "\<dots> = (2 ^ LENGTH('a) - uint w) mod 2 ^ LENGTH('a)"
    by (metis mod_diff_left_eq mod_self diff_0 )
  also have "\<dots> = 2 ^ LENGTH('a) - uint w"
    using w uint_lt2p [of w] by (intro mod_pos_pos_trivial) (auto simp: uint_0_iff less_le)
  finally show ?thesis .
qed
lemma unat_pred: "0 < unat (w :: 'a::len word) \<Longrightarrow> unat (w - 1) = unat w - 1"
  by (metis unat_minus_one unat_0 less_numeral_extra(3))

lemma unat_pred2: "2 \<le> unat (w :: u32) \<Longrightarrow> unat (w - 2) = unat w - 2"
  by (simp add: unat_sub word_le_nat_alt)

lemma bit_small:
  assumes "unat w < 2 ^ n" and "n \<le> i"
  shows "\<not> bit (w :: 'a::len word) i"
proof
  assume "bit w i"
  moreover from this have "i < LENGTH('a)"
    by (rule bit_imp_le_length)
  ultimately have "bit (unat w) i"
    by (simp add: bit_unsigned_iff)
  moreover have "unat w < 2 ^ i"
    using assms by (meson le_less_trans less_le_trans one_le_numeral power_increasing)
  ultimately show False
    by (simp add: bit_iff_odd)
qed

lemma bit_of_nat_small: "m < 2 ^ n \<Longrightarrow> n \<le> i \<Longrightarrow> \<not> bit (of_nat m :: 'a::len word) i"
  by (rule bit_small [of _ n]) (auto simp: unat_of_nat take_bit_eq_mod intro: le_less_trans [OF mod_less_eq_dividend])

lemma unat_and_mask: "unat (w AND mask n :: 'a::len word) < 2 ^ n"
proof -
  have "unat (take_bit n w) = take_bit n (unat w)"
    by (simp add: unsigned_take_bit_eq)
  then show ?thesis
    by (simp add: take_bit_nat_less_exp flip: take_bit_eq_mask)
qed

section \<open>Codecs\<close>

text \<open>
  The contract of a pair of conversions in which the decoder takes back exactly what the
  encoder produces. Several components provide it: decimal integers, the listpack back
  length, request framing.
\<close>

locale codec =
  fixes valid :: "'a \<Rightarrow> bool"
    and enc :: "'a \<Rightarrow> 'b list"
    and dec :: "'b list \<Rightarrow> 'a option"
  assumes dec_enc: "valid x \<Longrightarrow> dec (enc x) = Some x"
begin

lemma enc_inj: "valid x \<Longrightarrow> valid y \<Longrightarrow> enc x = enc y \<Longrightarrow> x = y"
  by (metis dec_enc option.inject)

lemma inj_on_enc: "inj_on enc {x. valid x}"
  by (auto intro: inj_onI enc_inj)

end

text \<open>A strict codec accepts nothing but encodings: the decoder is the inverse on its domain.\<close>

locale strict_codec = codec +
  assumes enc_dec: "dec bs = Some x \<Longrightarrow> valid x \<and> enc x = bs"
begin

lemma dec_iff: "dec bs = Some x \<longleftrightarrow> valid x \<and> bs = enc x"
  using dec_enc enc_dec by blast

lemma dec_inj: "dec bs = Some x \<Longrightarrow> dec cs = Some x \<Longrightarrow> bs = cs"
  using enc_dec by blast

lemma dec_None_iff: "dec bs = None \<longleftrightarrow> (\<forall>x. valid x \<longrightarrow> enc x \<noteq> bs)"
  by (metis dec_enc enc_dec not_None_eq)

end

section \<open>Runs of operations\<close>

text \<open>
  A component is driven by a sequence of operations. \<open>run_ops\<close> runs an implementation whose steps
  may fail (\<open>None\<close> is a memory error or a call that does not return), \<open>run_spec\<close> its
  specification; both collect the results.
\<close>

fun run_ops :: "('op \<Rightarrow> 's \<Rightarrow> ('s \<times> 'r) option) \<Rightarrow> 'op list \<Rightarrow> 's \<Rightarrow> ('s \<times> 'r list) option" where
  "run_ops step [] s = Some (s, [])"
| "run_ops step (x # xs) s =
     do { (s, r) \<leftarrow> step x s; (s, rs) \<leftarrow> run_ops step xs s; Some (s, r # rs) }"

fun run_spec :: "('op \<Rightarrow> 'a \<Rightarrow> 'a \<times> 'r) \<Rightarrow> 'op list \<Rightarrow> 'a \<Rightarrow> 'a \<times> 'r list" where
  "run_spec spec [] a = (a, [])"
| "run_spec spec (x # xs) a = (let (a, r) = spec x a; (a, rs) = run_spec spec xs a in (a, r # rs))"

text \<open>\<open>room n a\<close> says that the representation of \<open>a\<close> stays within its limits for \<open>n\<close> more steps.\<close>

locale refinement =
  fixes inv :: "'s \<Rightarrow> bool" and abs :: "'s \<Rightarrow> 'a" and room :: "nat \<Rightarrow> 'a \<Rightarrow> bool"
    and step :: "'op \<Rightarrow> 's \<Rightarrow> ('s \<times> 'r) option" and spec :: "'op \<Rightarrow> 'a \<Rightarrow> 'a \<times> 'r"
  assumes step_refines: "inv s \<Longrightarrow> room (Suc n) (abs s) \<Longrightarrow>
    \<exists>s' r. step x s = Some (s', r) \<and> inv s' \<and> spec x (abs s) = (abs s', r) \<and> room n (abs s')"
begin

lemma run_refines:
  assumes "inv s" and "room (length xs) (abs s)"
  shows "\<exists>s'. run_ops step xs s = Some (s', snd (run_spec spec xs (abs s))) \<and> inv s' \<and>
    abs s' = fst (run_spec spec xs (abs s))"
  using assms
proof (induction xs arbitrary: s)
  case (Cons x xs)
  then obtain s' r where s': "step x s = Some (s', r)" "inv s'" "spec x (abs s) = (abs s', r)"
      "room (length xs) (abs s')"
    using step_refines [of s "length xs" x] by auto
  from Cons.IH [OF s'(2,4)] show ?case
    using s' by (auto simp: split_beta)
qed simp

end

section \<open>Implementations of finite sets\<close>

text \<open>
  The contract of a set component: \<open>add\<close> and \<open>remove\<close> give the new state and whether the set
  changed, \<open>mem\<close> answers membership and may reorganise the state. \<open>room n\<close> says that the
  representation can hold \<open>n\<close> elements.
\<close>

datatype 'a set_op = Op_add 'a | Op_remove 'a | Op_find 'a

fun set_spec :: "'a set_op \<Rightarrow> 'a set \<Rightarrow> 'a set \<times> bool" where
  "set_spec (Op_add v) X = (insert v X, v \<notin> X)"
| "set_spec (Op_remove v) X = (X - {v}, v \<in> X)"
| "set_spec (Op_find v) X = (X, v \<in> X)"

fun set_step :: "('s \<Rightarrow> 'a \<Rightarrow> ('s \<times> bool) option) \<Rightarrow> ('s \<Rightarrow> 'a \<Rightarrow> ('s \<times> bool) option) \<Rightarrow>
    ('s \<Rightarrow> 'a \<Rightarrow> ('s \<times> bool) option) \<Rightarrow> 'a set_op \<Rightarrow> 's \<Rightarrow> ('s \<times> bool) option" where
  "set_step add remove mem (Op_add v) s = add s v"
| "set_step add remove mem (Op_remove v) s = remove s v"
| "set_step add remove mem (Op_find v) s = mem s v"

locale set_impl =
  fixes inv :: "'s \<Rightarrow> bool" and abs :: "'s \<Rightarrow> 'a set" and room :: "nat \<Rightarrow> bool"
    and add :: "'s \<Rightarrow> 'a \<Rightarrow> ('s \<times> bool) option"
    and remove :: "'s \<Rightarrow> 'a \<Rightarrow> ('s \<times> bool) option"
    and mem :: "'s \<Rightarrow> 'a \<Rightarrow> ('s \<times> bool) option"
  assumes abs_finite: "inv s \<Longrightarrow> finite (abs s)"
    and room_mono: "room n \<Longrightarrow> m \<le> n \<Longrightarrow> room m"
    and add_ok: "inv s \<Longrightarrow> room (Suc (card (abs s))) \<Longrightarrow>
      \<exists>s'. add s v = Some (s', v \<notin> abs s) \<and> inv s' \<and> abs s' = insert v (abs s)"
    and remove_ok: "inv s \<Longrightarrow> room (card (abs s)) \<Longrightarrow>
      \<exists>s'. remove s v = Some (s', v \<in> abs s) \<and> inv s' \<and> abs s' = abs s - {v}"
    and mem_ok: "inv s \<Longrightarrow> room (card (abs s)) \<Longrightarrow>
      \<exists>s'. mem s v = Some (s', v \<in> abs s) \<and> inv s' \<and> abs s' = abs s"

sublocale set_impl \<subseteq> refinement inv abs "\<lambda>n X. room (card X + n)" "set_step add remove mem" set_spec
proof
  fix s n x
  assume s: "inv s" and r: "room (card (abs s) + Suc n)"
  have fin: "finite (abs s)" using s by (rule abs_finite)
  have r1: "room (Suc (card (abs s)))" and r0: "room (card (abs s))"
    by (rule room_mono [OF r]; simp)+
  show "\<exists>s' r. set_step add remove mem x s = Some (s', r) \<and> inv s' \<and> set_spec x (abs s) = (abs s', r) \<and>
      room (card (abs s') + n)"
  proof (cases x)
    case (Op_add v)
    obtain s' where "add s v = Some (s', v \<notin> abs s)" "inv s'" "abs s' = insert v (abs s)"
      using add_ok [OF s r1] by blast
    moreover have "room (card (insert v (abs s)) + n)"
      using fin by (auto intro: room_mono [OF r] simp: card_insert_if)
    ultimately show ?thesis by (simp add: Op_add)
  next
    case (Op_remove v)
    obtain s' where "remove s v = Some (s', v \<in> abs s)" "inv s'" "abs s' = abs s - {v}"
      using remove_ok [OF s r0] by blast
    moreover have "room (card (abs s - {v}) + n)"
      using fin card_Diff1_le [of "abs s" v] by (intro room_mono [OF r]) simp
    ultimately show ?thesis by (simp add: Op_remove)
  next
    case (Op_find v)
    moreover have "room (card (abs s) + n)"
      by (rule room_mono [OF r]) simp
    ultimately show ?thesis
      using mem_ok [OF s r0, of v] by auto
  qed
qed

section \<open>Implementations of finite maps\<close>

text \<open>
  The contract of a map component: \<open>add\<close> inserts a new key and reports whether it was new,
  \<open>replace\<close> inserts or overwrites, \<open>delete\<close> and \<open>fetch\<close> report the value they found.
\<close>

datatype ('k, 'v) map_op = Map_add 'k 'v | Map_replace 'k 'v | Map_delete 'k | Map_fetch 'k

datatype 'v map_result = Changed bool | Found "'v option"

fun map_spec :: "('k, 'v) map_op \<Rightarrow> ('k \<rightharpoonup> 'v) \<Rightarrow> ('k \<rightharpoonup> 'v) \<times> 'v map_result" where
  "map_spec (Map_add k v) m = (if m k = None then (m(k \<mapsto> v), Changed True) else (m, Changed False))"
| "map_spec (Map_replace k v) m = (m(k \<mapsto> v), Changed (m k = None))"
| "map_spec (Map_delete k) m = (m(k := None), Found (m k))"
| "map_spec (Map_fetch k) m = (m, Found (m k))"

fun map_step :: "('s \<Rightarrow> 'k \<Rightarrow> 'v \<Rightarrow> ('s \<times> bool) option) \<Rightarrow> ('s \<Rightarrow> 'k \<Rightarrow> 'v \<Rightarrow> ('s \<times> bool) option) \<Rightarrow>
    ('s \<Rightarrow> 'k \<Rightarrow> ('s \<times> 'v option) option) \<Rightarrow> ('s \<Rightarrow> 'k \<Rightarrow> ('s \<times> 'v option) option) \<Rightarrow>
    ('k, 'v) map_op \<Rightarrow> 's \<Rightarrow> ('s \<times> 'v map_result) option" where
  "map_step add replace delete fetch (Map_add k v) s = map_option (\<lambda>(s, b). (s, Changed b)) (add s k v)"
| "map_step add replace delete fetch (Map_replace k v) s = map_option (\<lambda>(s, b). (s, Changed b)) (replace s k v)"
| "map_step add replace delete fetch (Map_delete k) s = map_option (\<lambda>(s, r). (s, Found r)) (delete s k)"
| "map_step add replace delete fetch (Map_fetch k) s = map_option (\<lambda>(s, r). (s, Found r)) (fetch s k)"

locale map_impl =
  fixes inv :: "'s \<Rightarrow> bool" and abs :: "'s \<Rightarrow> 'k \<rightharpoonup> 'v" and cap :: nat
    and add :: "'s \<Rightarrow> 'k \<Rightarrow> 'v \<Rightarrow> ('s \<times> bool) option"
    and replace :: "'s \<Rightarrow> 'k \<Rightarrow> 'v \<Rightarrow> ('s \<times> bool) option"
    and delete :: "'s \<Rightarrow> 'k \<Rightarrow> ('s \<times> 'v option) option"
    and fetch :: "'s \<Rightarrow> 'k \<Rightarrow> ('s \<times> 'v option) option"
  assumes dom_finite: "inv s \<Longrightarrow> finite (dom (abs s))"
    and add_ok: "inv s \<Longrightarrow> card (dom (abs s)) < cap \<Longrightarrow>
      \<exists>s'. add s k v = Some (s', abs s k = None) \<and> inv s' \<and>
        abs s' = (if abs s k = None then (abs s)(k \<mapsto> v) else abs s)"
    and replace_ok: "inv s \<Longrightarrow> card (dom (abs s)) < cap \<Longrightarrow>
      \<exists>s'. replace s k v = Some (s', abs s k = None) \<and> inv s' \<and> abs s' = (abs s)(k \<mapsto> v)"
    and delete_ok: "inv s \<Longrightarrow> \<exists>s'. delete s k = Some (s', abs s k) \<and> inv s' \<and> abs s' = (abs s)(k := None)"
    and fetch_ok: "inv s \<Longrightarrow> \<exists>s'. fetch s k = Some (s', abs s k) \<and> inv s' \<and> abs s' = abs s"

sublocale map_impl \<subseteq> refinement inv abs "\<lambda>n m. card (dom m) + n \<le> cap" "map_step add replace delete fetch" map_spec
proof
  fix s n x
  assume s: "inv s" and r: "card (dom (abs s)) + Suc n \<le> cap"
  have fin: "finite (dom (abs s))" using s by (rule dom_finite)
  have lt: "card (dom (abs s)) < cap" using r by simp
  have upd: "card (dom ((abs s)(k \<mapsto> v))) \<le> Suc (card (dom (abs s)))" for k v
    using fin by (simp add: card_insert_if)
  have del: "card (dom ((abs s)(k := None))) \<le> card (dom (abs s))" for k
    using fin by (simp add: card_Diff1_le)
  show "\<exists>s' r. map_step add replace delete fetch x s = Some (s', r) \<and> inv s' \<and>
      map_spec x (abs s) = (abs s', r) \<and> card (dom (abs s')) + n \<le> cap"
  proof (cases x)
    case (Map_add k v)
    obtain s' where "add s k v = Some (s', abs s k = None)" "inv s'"
        "abs s' = (if abs s k = None then (abs s)(k \<mapsto> v) else abs s)"
      using add_ok [OF s lt] by blast
    then show ?thesis using upd [of k v] r by (auto simp: Map_add)
  next
    case (Map_replace k v)
    obtain s' where "replace s k v = Some (s', abs s k = None)" "inv s'" "abs s' = (abs s)(k \<mapsto> v)"
      using replace_ok [OF s lt] by blast
    then show ?thesis using upd [of k v] r by (auto simp: Map_replace)
  next
    case (Map_delete k)
    obtain s' where "delete s k = Some (s', abs s k)" "inv s'" "abs s' = (abs s)(k := None)"
      using delete_ok [OF s] by blast
    then show ?thesis using del [of k] r by (auto simp: Map_delete)
  next
    case (Map_fetch k)
    then show ?thesis using fetch_ok [OF s, of k] r by auto
  qed
qed

end
