(* ===== verification/Redis_Util.thy ===== *)
theory Redis_Util
  imports Redis_Prelude
begin

text \<open>
  Integer and string conversions of \<open>util.c\<close>: \<open>digits10\<close>, \<open>sdigits10\<close>, \<open>ull2string\<close>,
  \<open>ll2string\<close>, \<open>string2ll\<close>, \<open>string2l\<close>, and the buffer helpers \<open>mempbrk\<close>,
  \<open>memmapchars\<close>. A \<open>long long\<close> is a \<open>u64\<close> read with \<open>sint\<close>; the destination buffer
  is a list and every store into it is bounds checked. The reference for all of them is
  \<open>dec\<close>, the decimal notation of a natural number, and \<open>dec_int\<close>, that of an integer.
  A \<open>long\<close> has 64 bits, as on the LP64 platforms the server runs on.
\<close>

section \<open>Definitions\<close>

definition ULLONG_MAX :: u64 where
  "ULLONG_MAX = 18446744073709551615"

definition LLONG_MAX :: u64 where
  "LLONG_MAX = 9223372036854775807"

definition LLONG_MIN :: u64 where
  "LLONG_MIN = 9223372036854775808"

definition LONG_STR_SIZE :: nat where
  "LONG_STR_SIZE = 21"

text \<open>\<open>mempbrk\<close>: the index of the first byte that is in \<open>chars\<close>, \<open>None\<close> for NULL.\<close>

fun mempbrk :: "buffer \<Rightarrow> buffer \<Rightarrow> nat option" where
  "mempbrk [] chars = None"
| "mempbrk (c # s) chars =
     (if c \<in> set chars then Some 0 else map_option Suc (mempbrk s chars))"

fun memmapchars_inner :: "byte \<Rightarrow> buffer \<Rightarrow> buffer \<Rightarrow> byte" where
  "memmapchars_inner c (f # from) (t # to) =
     (if c = f then t else memmapchars_inner c from to)"
| "memmapchars_inner c _ _ = c"

definition memmapchars :: "buffer \<Rightarrow> buffer \<Rightarrow> buffer \<Rightarrow> buffer" where
  "memmapchars s from to = map (\<lambda>c. memmapchars_inner c from to) s"

function digits10 :: "u64 \<Rightarrow> u32" where
  "digits10 v =
     (if v < 10 then 1
      else if v < 100 then 2
      else if v < 1000 then 3
      else if v < 1000000000000 then
        (if v < 100000000 then
           (if v < 1000000 then
              (if v < 10000 then 4 else 5 + of_bool (100000 \<le> v))
            else 7 + of_bool (10000000 \<le> v))
         else if v < 10000000000 then 9 + of_bool (1000000000 \<le> v)
         else 11 + of_bool (100000000000 \<le> v))
      else 12 + digits10 (v div 1000000000000))"
  by pat_completeness auto
termination
  by (relation "measure unat") (auto simp: unat_div_distrib word_less_nat_alt)

declare digits10.simps [simp del]

definition sdigits10 :: "u64 \<Rightarrow> u32" where
  "sdigits10 v =
     (if v <s 0 then
        (let uv = (if v \<noteq> LLONG_MIN then - v else LLONG_MAX + 1)
         in digits10 uv + 1)
      else digits10 v)"

definition digits :: buffer where
  "digits = str (
     ''0001020304050607080910111213141516171819'' @
     ''2021222324252627282930313233343536373839'' @
     ''4041424344454647484950515253545556575859'' @
     ''6061626364656667686970717273747576777879'' @
     ''8081828384858687888990919293949596979899'')"

function ull2string_loop :: "buffer \<Rightarrow> u32 \<Rightarrow> u64 \<Rightarrow> (buffer \<times> u32 \<times> u64) option" where
  "ull2string_loop dst nxt value =
     (if 100 \<le> value then
        do {
          let i = unat (value mod 100) * 2;
          hi \<leftarrow> rd digits (i + 1);
          dst \<leftarrow> wr dst (unat nxt) hi;
          lo \<leftarrow> rd digits i;
          dst \<leftarrow> wr dst (unat (nxt - 1)) lo;
          ull2string_loop dst (nxt - 2) (value div 100)
        }
      else Some (dst, nxt, value))"
  by pat_completeness auto
termination
  by (relation "measure (\<lambda>(dst, nxt, value). unat value)")
    (auto simp: unat_div_distrib word_le_nat_alt)

declare ull2string_loop.simps [simp del]

definition ull2string_tail :: "buffer \<Rightarrow> u32 \<Rightarrow> u64 \<Rightarrow> buffer option" where
  "ull2string_tail dst nxt value =
     (if value < 10 then wr dst (unat nxt) (ch (CHR ''0'') + ucast value)
      else do {
        let i = unat value * 2;
        hi \<leftarrow> rd digits (i + 1);
        dst \<leftarrow> wr dst (unat nxt) hi;
        lo \<leftarrow> rd digits i;
        wr dst (unat (nxt - 1)) lo
      })"

definition ull2string :: "buffer \<Rightarrow> nat \<Rightarrow> u64 \<Rightarrow> (buffer \<times> u32) option" where
  "ull2string dst dstlen value =
     (let length = digits10 value in
      if unat length \<ge> dstlen then Some (dst, 0)
      else do {
        let nxt = length - 1;
        dst \<leftarrow> wr dst (unat (nxt + 1)) 0;
        (dst, nxt, value) \<leftarrow> ull2string_loop dst nxt value;
        dst \<leftarrow> ull2string_tail dst nxt value;
        Some (dst, length)
      })"

text \<open>
  \<open>ll2string\<close> moves \<open>dst\<close> one byte forward after the minus sign: the callee writes into
  the tail of the buffer.
\<close>

definition ll2string :: "buffer \<Rightarrow> nat \<Rightarrow> u64 \<Rightarrow> (buffer \<times> u32) option" where
  "ll2string dst dstlen svalue =
     (if svalue <s 0 then
        (let value = (if svalue \<noteq> LLONG_MIN then - svalue else LLONG_MAX + 1) in
         if dstlen < 2 then Some (dst, 0)
         else do {
           dst \<leftarrow> wr dst 0 (ch (CHR ''-''));
           (rest, length) \<leftarrow> ull2string (tl dst) (dstlen - 1) value;
           if length = 0 then Some (hd dst # rest, 0)
           else Some (hd dst # rest, length + 1)
         })
      else do {
        (dst, length) \<leftarrow> ull2string dst dstlen svalue;
        if length = 0 then Some (dst, 0) else Some (dst, length + 0)
      })"

definition isdigit :: "byte \<Rightarrow> bool" where
  "isdigit c \<longleftrightarrow> ch (CHR ''0'') \<le> c \<and> c \<le> ch (CHR ''9'')"

fun string2ll_loop :: "buffer \<Rightarrow> u64 \<Rightarrow> (u64 \<times> buffer) option" where
  "string2ll_loop [] v = Some (v, [])"
| "string2ll_loop (c # p) v =
     (if isdigit c then
        (if ULLONG_MAX div 10 < v then None
         else let v = v * 10; d = ucast (c - ch (CHR ''0'')) in
           if ULLONG_MAX - d < v then None
           else string2ll_loop p (v + d))
      else Some (v, c # p))"

text \<open>
  The value pointer is never NULL here; \<open>None\<close> is the return value 0, \<open>Some v\<close> the
  return value 1 with \<open>*value = v\<close>.
\<close>

definition string2ll :: "buffer \<Rightarrow> u64 option" where
  "string2ll s =
     (if length s = 0 \<or> LONG_STR_SIZE \<le> length s then None
      else if length s = 1 \<and> hd s = ch (CHR ''0'') then Some 0
      else
        let negative = (hd s = ch (CHR ''-'')); p = (if negative then tl s else s) in
        if p = [] then None
        else if \<not> (ch (CHR ''1'') \<le> hd p \<and> hd p \<le> ch (CHR ''9'')) then None
        else case string2ll_loop (tl p) (ucast (hd p - ch (CHR ''0''))) of
          None \<Rightarrow> None
        | Some (v, p) \<Rightarrow>
            if p \<noteq> [] then None
            else if negative then
              (if LLONG_MIN < v then None else Some (- v))
            else (if LLONG_MAX < v then None else Some v))"

definition string2l :: "buffer \<Rightarrow> u64 option" where
  "string2l s =
     (case string2ll s of
        None \<Rightarrow> None
      | Some llval \<Rightarrow>
          if llval <s LLONG_MIN \<or> LLONG_MAX <s llval then None else Some llval)"

section \<open>Decimal notation\<close>

definition digit :: "nat \<Rightarrow> byte" where
  "digit d = ch (CHR ''0'') + of_nat d"

fun dec :: "nat \<Rightarrow> buffer" where
  "dec n = (if n < 10 then [digit n] else dec (n div 10) @ [digit (n mod 10)])"

declare dec.simps [simp del]

definition dec_int :: "int \<Rightarrow> buffer" where
  "dec_int v = (if v < 0 then ch (CHR ''-'') # dec (nat (- v)) else dec (nat v))"


lemma dec_small [dec_simps]: "n < 10 \<Longrightarrow> dec n = [digit n]"
  by (subst dec.simps) simp

lemma dec_large [dec_simps]: "10 \<le> n \<Longrightarrow> dec n = dec (n div 10) @ [digit (n mod 10)]"
  by (subst dec.simps) simp

lemma dec_nonempty [simp]: "dec n \<noteq> []"
  by (subst dec.simps) simp

lemma length_dec_pos [simp]: "0 < length (dec n)"
  by simp

lemma length_dec_le: "length (dec n) \<le> Suc k \<longleftrightarrow> n < 10 ^ Suc k"
proof (induction k arbitrary: n)
  case 0
  show ?case
    by (cases "n < 10") (simp_all add: dec_simps)
next
  case (Suc k)
  show ?case
  proof (cases "n < 10")
    case True
    then have "n < 10 ^ Suc (Suc k)"
      by (rule less_le_trans) simp
    with True show ?thesis
      by (simp add: dec_simps)
  next
    case False
    have "n div 10 < 10 ^ Suc k \<longleftrightarrow> n < 10 ^ Suc (Suc k)"
      by (simp add: div_less_iff_less_mult mult.commute)
    with False show ?thesis
      by (simp add: dec_simps Suc.IH)
  qed
qed

lemma length_dec_eq: "10 ^ k \<le> n \<Longrightarrow> n < 10 ^ Suc k \<Longrightarrow> length (dec n) = Suc k"
proof (cases k)
  case 0
  assume "n < 10 ^ Suc k"
  with 0 show ?thesis by (simp add: dec_simps)
next
  case (Suc j)
  assume "10 ^ k \<le> n" and "n < 10 ^ Suc k"
  then have "\<not> length (dec n) \<le> Suc j" and "length (dec n) \<le> Suc k"
    by (simp_all only: length_dec_le Suc not_less)
  with Suc show ?thesis by simp
qed

lemma length_dec_div: "10 ^ k \<le> n \<Longrightarrow> length (dec n) = k + length (dec (n div 10 ^ k))"
proof (induction k arbitrary: n)
  case 0
  then show ?case by simp
next
  case (Suc k)
  then have n: "10 \<le> n" and q: "10 ^ k \<le> n div 10"
    by (auto intro: order_trans [of 10 "10 * 10 ^ k"] simp: less_eq_div_iff_mult_less_eq mult.commute)
  have "length (dec n) = Suc (length (dec (n div 10)))"
    using n by (simp add: dec_large)
  also have "\<dots> = Suc (k + length (dec (n div 10 div 10 ^ k)))"
    using Suc.IH [OF q] by simp
  finally show ?case
    by (simp add: div_mult2_eq)
qed

lemma unat_lt2p_u64: "unat (v :: u64) < 2 ^ 64"
  by (rule order_less_le_trans [OF unsigned_less]) simp

lemma length_dec_u64: "length (dec (unat (v :: u64))) \<le> 20"
proof -
  have "unat v < 10 ^ Suc 19"
    using unat_lt2p_u64 [of v] by (simp add: less_le_trans)
  then have "length (dec (unat v)) \<le> Suc 19"
    by (simp only: length_dec_le)
  then show ?thesis by simp
qed

text \<open>\<open>digits10\<close> counts the digits of the decimal notation.\<close>

lemma unat_digits10: "unat (digits10 v) = length (dec (unat v))"
proof (induction v rule: digits10.induct)
  case (1 v)
  note range = length_dec_eq [of _ "unat v"]
  show ?case
  proof (cases "v < 1000000000000")
    case True
    then show ?thesis
      using range [of 0] range [of 1] range [of 2] range [of 3] range [of 4] range [of 5]
        range [of 6] range [of 7] range [of 8] range [of 9] range [of 10] range [of 11]
      by (subst digits10.simps) (auto simp: word_less_nat_alt word_le_nat_alt dec_small)
  next
    case False
    then have big: "10 ^ 12 \<le> unat v"
      by (simp add: word_less_nat_alt)
    from False have rec: "digits10 v = 12 + digits10 (v div 1000000000000)"
      by (subst digits10.simps) (auto simp: word_less_nat_alt)
    have IH: "unat (digits10 (v div 1000000000000)) = length (dec (unat (v div 1000000000000)))"
      using False by (intro 1) (auto simp: word_less_nat_alt)
    have len: "length (dec (unat v)) = 12 + length (dec (unat v div 10 ^ 12))"
      using big by (rule length_dec_div)
    have "unat (digits10 v) = (12 + unat (digits10 (v div 1000000000000))) mod 2 ^ 32"
      by (simp add: rec unat_word_ariths)
    then have "unat (digits10 v) = (12 + length (dec (unat v div 10 ^ 12))) mod 2 ^ 32"
      by (simp only: IH unat_div_distrib) simp
    then show ?thesis
      using len length_dec_u64 [of v] by simp
  qed
qed

lemma unat_digits10_bounds: "0 < unat (digits10 v)" "unat (digits10 v) \<le> 20"
  by (simp_all add: unat_digits10 length_dec_u64)



section \<open>Printing\<close>

lemma digits_concat: "digits = concat (map (\<lambda>i. [digit (i div 10), digit (i mod 10)]) [0..<100])"
  by (simp add: digits_def digit_def upt_rec)

lemma digits_nth:
  assumes "i < 100"
  shows "rd digits (2 * i) = Some (digit (i div 10))" and
    "rd digits (2 * i + 1) = Some (digit (i mod 10))"
  using assms nth_concat_pairs [of i "[0..<100]" "\<lambda>i. digit (i div 10)" "\<lambda>i. digit (i mod 10)"]
  by (simp_all add: rd_def digits_concat)

lemma dec_two: "100 \<le> n \<Longrightarrow> dec n = dec (n div 100) @ [digit (n mod 100 div 10), digit (n mod 100 mod 10)]"
proof -
  assume n: "100 \<le> n"
  have "n div 10 mod 10 = n mod 100 div 10" "n mod 10 = n mod 100 mod 10"
    using mod_mult2_eq [of n 10 10] by simp_all
  moreover have "10 \<le> n div 10"
    using n by simp
  ultimately show ?thesis
    using n div_mult2_eq [of n 10 10] dec_large [of n] dec_large [of "n div 10"] by simp
qed

lemma dec_pair: "10 \<le> n \<Longrightarrow> n < 100 \<Longrightarrow> dec n = [digit (n div 10), digit (n mod 10)]"
  by (simp add: dec_large dec_small)

text \<open>The loop and the tail fill the first bytes of the buffer with the decimal notation.\<close>

lemma ull2string_fill:
  assumes "unat nxt + 1 = length (dec (unat val))" and "length (dec (unat val)) \<le> length dst"
  shows "do { (dst, nxt, val) \<leftarrow> ull2string_loop dst nxt val; ull2string_tail dst nxt val }
     = Some (dec (unat val) @ drop (length (dec (unat val))) dst)"
  using assms
proof (induction dst nxt val rule: ull2string_loop.induct)
  case (1 dst nxt val)
  let ?n = "unat val"
  show ?case
  proof (cases "100 \<le> val")
    case True
    then have n: "100 \<le> ?n" by (simp add: word_le_nat_alt)
    let ?q = "?n div 100" and ?r = "?n mod 100"
    have two: "dec ?n = dec ?q @ [digit (?r div 10), digit (?r mod 10)]"
      using n by (rule dec_two)
    have q: "unat (val div 100) = ?q" and r: "unat (val mod 100) = ?r"
      by (simp_all only: unat_div_distrib unat_mod_distrib) simp_all
    have k: "unat nxt = Suc (length (dec ?q))"
      using "1.prems"(1) by (simp add: two)
    then have k1: "unat (nxt - 1) = length (dec ?q)"
      by (simp add: unat_pred)
    have "0 < length (dec ?q)" by simp
    with k unat_pred2 [of nxt] have k2: "unat (nxt - 2) + 1 = length (dec ?q)"
      by linarith
    define dst' where "dst' = dst[Suc (length (dec ?q)) := digit (?r mod 10), length (dec ?q) := digit (?r div 10)]"
    have len: "Suc (length (dec ?q)) < length dst"
      using "1.prems"(2) by (simp add: two)
    have step: "ull2string_loop dst nxt val = ull2string_loop dst' (nxt - 2) (val div 100)"
      using True len digits_nth [of ?r]
      by (subst ull2string_loop.simps) (simp add: r k k1 wr_Some dst'_def mult.commute)
    have "drop (length (dec ?q)) dst' = [digit (?r div 10), digit (?r mod 10)] @ drop (length (dec ?n)) dst"
      using len by (simp add: dst'_def two drop_update_swap Cons_nth_drop_Suc [symmetric] list_update_swap)
    moreover have "do { (dst, nxt, val) \<leftarrow> ull2string_loop dst' (nxt - 2) (val div 100);
        ull2string_tail dst nxt val } = Some (dec ?q @ drop (length (dec ?q)) dst')"
      using "1.IH" [of "?r * 2" "digit (?r mod 10)" "dst[Suc (length (dec ?q)) := digit (?r mod 10)]"
          "digit (?r div 10)" dst'] True len digits_nth [of ?r] k2
      by (simp add: q r k k1 wr_Some dst'_def mult.commute)
    ultimately show ?thesis
      by (simp add: step two)
  next
    case False
    then have n: "?n < 100" by (simp add: word_le_nat_alt)
    have stop: "ull2string_loop dst nxt val = Some (dst, nxt, val)"
      using False by (subst ull2string_loop.simps) simp
    have "ull2string_tail dst nxt val = Some (dec ?n @ drop (length (dec ?n)) dst)"
    proof (cases "val < 10")
      case True
      then have m: "?n < 10" by (simp add: word_less_nat_alt)
      with "1.prems" obtain x xs where "dst = x # xs" by (cases dst) (auto simp: dec_small)
      with "1.prems" m True show ?thesis
        by (simp add: ull2string_tail_def dec_small wr_def digit_def)
    next
      case False
      then have m: "10 \<le> ?n" by (simp add: word_less_nat_alt)
      with n "1.prems" obtain x y xs where "dst = x # y # xs"
        by (cases dst; cases "tl dst") (auto simp: dec_pair)
      with "1.prems" m n False digits_nth [of ?n] show ?thesis
        by (simp add: ull2string_tail_def dec_pair wr_def unat_pred mult.commute)
    qed
    then show ?thesis by (simp add: stop)
  qed
qed

lemma ull2string_ok:
  assumes "length (dec (unat v)) < dstlen" and "length dst = dstlen"
  shows "ull2string dst dstlen v =
     Some (dec (unat v) @ 0 # drop (Suc (length (dec (unat v)))) dst, of_nat (length (dec (unat v))))"
proof -
  let ?n = "length (dec (unat v))"
  have d: "digits10 v = of_nat ?n"
    by (simp flip: unat_digits10)
  have u: "unat (digits10 v - 1) + 1 = ?n"
    using unat_digits10 [of v] unat_pred [of "digits10 v"] by simp
  have "do { (dst, nxt, val) \<leftarrow> ull2string_loop (dst[?n := 0]) (digits10 v - 1) v; ull2string_tail dst nxt val }
     = Some (dec (unat v) @ drop ?n (dst[?n := 0]))"
    using u assms by (intro ull2string_fill) simp_all
  moreover have "drop ?n (dst[?n := 0]) = 0 # drop (Suc ?n) dst"
    using assms by (simp add: Cons_nth_drop_Suc [symmetric])
  ultimately show ?thesis
    using assms unat_digits10 [of v]
    by (auto simp: ull2string_def Let_def wr_Some d bind_eq_Some_conv split: prod.splits)
qed

lemma ull2string_short:
  "dstlen \<le> length (dec (unat v)) \<Longrightarrow> ull2string dst dstlen v = Some (dst, 0)"
  by (simp add: ull2string_def unat_digits10)


lemma sint_u64: "sint (v :: u64) = (if uint v < 2 ^ 63 then uint v else uint v - 2 ^ 64)"
  by (simp add: sint_uint_cases)

lemma sless_zero_iff: "(v :: u64) <s 0 \<longleftrightarrow> 2 ^ 63 \<le> uint v"
  using uint_lt2p [of v] by (simp add: word_sless_alt sint_u64)

lemma abs_word_eq: "(if v \<noteq> LLONG_MIN then - v else LLONG_MAX + 1) = - v"
  by (simp add: LLONG_MIN_def LLONG_MAX_def)

lemma unat_neg: "v <s 0 \<Longrightarrow> unat (- v) = nat (- sint v)" for v :: u64
proof -
  assume neg: "v <s 0"
  then have "v \<noteq> 0" by auto
  then have "uint (- v) = 2 ^ 64 - uint v" by (simp add: uint_uminus)
  moreover have "sint v = uint v - 2 ^ 64"
    using neg by (simp add: sless_zero_iff sint_u64)
  ultimately show ?thesis
    by (simp add: uint_nat [symmetric] nat_eq_iff flip: nat_uint_eq)
qed

lemma unat_nonneg: "\<not> v <s 0 \<Longrightarrow> unat v = nat (sint v)" for v :: u64
  by (simp add: sless_zero_iff sint_u64 flip: nat_uint_eq)

lemma dec_int_sint:
  "dec_int (sint (v :: u64)) = (if v <s 0 then ch (CHR ''-'') # dec (unat (- v)) else dec (unat v))"
  using unat_neg [of v] unat_nonneg [of v] by (simp add: dec_int_def word_sless_alt)

lemma length_dec_word: "of_nat (length (dec (unat (v :: u64)))) \<noteq> (0 :: u32)"
proof -
  have "digits10 v \<noteq> 0"
    using unat_digits10_bounds(1) [of v] by auto
  then show ?thesis
    by (simp flip: unat_digits10)
qed

lemma ll2string_ok:
  assumes "length dst = dstlen" and "length (dec_int (sint v)) < dstlen"
  shows "ll2string dst dstlen v =
    Some (dec_int (sint v) @ 0 # drop (Suc (length (dec_int (sint v)))) dst,
          of_nat (length (dec_int (sint v))))"
proof (cases "v <s 0")
  case True
  from assms obtain x xs where dst: "dst = x # xs" by (cases dst) auto
  have len: "length (dec (unat (- v))) < dstlen - 1"
    using assms True by (simp add: dec_int_sint)
  then show ?thesis
    using True assms length_dec_word [of "- v"]
    by (simp add: ll2string_def abs_word_eq dst wr_def ull2string_ok dec_int_sint Let_def)
next
  case False
  then show ?thesis
    using assms length_dec_word [of v] by (simp add: ll2string_def ull2string_ok dec_int_sint)
qed

lemma ll2string_short:
  assumes "length dst = dstlen" and "dstlen \<le> length (dec_int (sint v))"
  shows "\<exists>dst'. ll2string dst dstlen v = Some (dst', 0) \<and> length dst' = dstlen"
proof (cases "v <s 0 \<and> 2 \<le> dstlen")
  case True
  from assms True obtain x xs where dst: "dst = x # xs" by (cases dst) auto
  have "dstlen - 1 \<le> length (dec (unat (- v)))"
    using assms True by (simp add: dec_int_sint)
  then show ?thesis
    using True assms by (simp add: ll2string_def abs_word_eq dst wr_def ull2string_short Let_def)
next
  case False
  then show ?thesis
    using assms by (auto simp: ll2string_def ull2string_short dec_int_sint Let_def)
qed


section \<open>Parsing\<close>

definition undec :: "nat \<Rightarrow> buffer \<Rightarrow> nat" where
  "undec a p = foldl (\<lambda>a c. a * 10 + unat (c - ch (CHR ''0''))) a p"

lemma undec_simps [simp]:
  "undec a [] = a"
  "undec a (c # p) = undec (a * 10 + unat (c - ch (CHR ''0''))) p"
  "undec a (p @ q) = undec (undec a p) q"
  by (simp_all add: undec_def)

lemma undec_ge: "a \<le> undec a p"
proof (induction p arbitrary: a)
  case (Cons c p)
  have "a \<le> a * 10 + unat (c - ch (CHR ''0''))" by simp
  also note Cons.IH
  finally show ?case by simp
qed simp

lemma isdigit_val: "isdigit c \<Longrightarrow> unat (c - ch (CHR ''0'')) \<le> 9"
  by (auto simp: isdigit_def word_le_nat_alt unat_sub)

lemma isdigit_digit: "d < 10 \<Longrightarrow> isdigit (digit d) \<and> unat (digit d - ch (CHR ''0'')) = d"
  by (simp add: isdigit_def digit_def word_le_nat_alt unat_word_ariths unat_of_nat take_bit_nat_eq_self)

lemma digit_isdigit: "isdigit c \<Longrightarrow> digit (unat (c - ch (CHR ''0''))) = c"
  by (simp add: digit_def)

lemmas digit_simps = isdigit_digit [simplified] digit_isdigit [simplified]

lemma step_fits:
  assumes "d \<le> 9"
  shows "(\<not> ULLONG_MAX div 10 < v \<and> \<not> ULLONG_MAX - of_nat d < v * 10) \<longleftrightarrow> unat v * 10 + d < 2 ^ 64"
proof -
  have d: "unat (of_nat d :: u64) = d"
    using assms by (simp add: unat_of_nat take_bit_nat_eq_self)
  have max: "unat (ULLONG_MAX - of_nat d) = 2 ^ 64 - 1 - d"
    using assms by (subst unat_sub) (simp_all add: ULLONG_MAX_def word_le_nat_alt d)
  have "\<not> ULLONG_MAX div 10 < v \<longleftrightarrow> unat v \<le> 1844674407370955161"
    by (auto simp: ULLONG_MAX_def word_less_nat_alt)
  moreover have "unat v \<le> 1844674407370955161 \<Longrightarrow> unat (v * 10) = unat v * 10"
    by (simp add: unat_word_ariths)
  ultimately show ?thesis
    using assms max by (auto simp: word_less_nat_alt)
qed

lemma unat_step:
  "unat v * 10 + d < 2 ^ 64 \<Longrightarrow> unat (v * 10 + of_nat d :: u64) = unat v * 10 + d"
  by (simp add: unat_word_ariths unat_of_nat mod_simps)

lemma string2ll_loop_fits:
  "list_all isdigit p \<Longrightarrow> undec (unat v) p < 2 ^ 64 \<Longrightarrow>
     string2ll_loop p v = Some (of_nat (undec (unat v) p), [])"
proof (induction p arbitrary: v)
  case Nil
  then show ?case by simp
next
  case (Cons c p)
  let ?d = "unat (c - ch (CHR ''0''))"
  have d: "?d \<le> 9" using Cons.prems by (intro isdigit_val) simp
  have fits: "unat v * 10 + ?d < 2 ^ 64"
    using Cons.prems(2) undec_ge [of "unat v * 10 + ?d" p] by simp
  have u: "ucast (c - ch (CHR ''0'')) = (of_nat ?d :: u64)"
    by simp
  show ?case
    using Cons.prems Cons.IH [of "v * 10 + of_nat ?d"] step_fits [OF d, of v] fits
    by (simp only: string2ll_loop.simps u unat_step [OF fits] Let_def undec_simps list.pred_inject) simp
qed

lemma string2ll_loop_Some:
  "string2ll_loop p v = Some (v', []) \<Longrightarrow>
     list_all isdigit p \<and> unat v' = undec (unat v) p"
proof (induction p arbitrary: v)
  case Nil
  then show ?case by simp
next
  case (Cons c p)
  let ?d = "unat (c - ch (CHR ''0''))"
  have c: "isdigit c"
    using Cons.prems by (auto split: if_splits)
  then have d: "?d \<le> 9" by (rule isdigit_val)
  have u: "ucast (c - ch (CHR ''0'')) = (of_nat ?d :: u64)"
    by simp
  from Cons.prems c have "\<not> ULLONG_MAX div 10 < v" "\<not> ULLONG_MAX - of_nat ?d < v * 10"
    and rec: "string2ll_loop p (v * 10 + of_nat ?d) = Some (v', [])"
    by (auto simp: Let_def split: if_splits)
  then have fits: "unat v * 10 + ?d < 2 ^ 64"
    using step_fits [OF d] by blast
  show ?case
    using Cons.IH [OF rec] c by (simp only: unat_step [OF fits] undec_simps list.pred_inject)
qed

lemma dec_digits: "list_all isdigit (dec n)"
proof (induction n rule: dec.induct)
  case (1 n)
  then show ?case
    by (cases "n < 10") (simp_all add: dec_simps digit_simps)
qed

lemma undec_dec: "undec 0 (dec n) = n"
proof (induction n rule: dec.induct)
  case (1 n)
  then show ?case
    by (cases "n < 10") (simp_all add: dec_simps digit_simps)
qed

lemma hd_dec: "0 < n \<Longrightarrow> ch (CHR ''1'') \<le> hd (dec n) \<and> hd (dec n) \<le> ch (CHR ''9'')"
proof (induction n rule: dec.induct)
  case (1 n)
  show ?case
  proof (cases "n < 10")
    case True
    then have "isdigit (digit n)" and "unat (digit n - ch (CHR ''0'')) = n"
      by (simp_all add: digit_simps)
    with 1(2) show ?thesis
      using True by (auto simp: dec_small isdigit_def word_le_nat_alt unat_sub digit_simps)
  next
    case False
    with 1 show ?thesis by (simp add: dec_large)
  qed
qed

lemma dec_undec_acc:
  "list_all isdigit p \<Longrightarrow> 0 < a \<Longrightarrow> dec (undec a p) = dec a @ p"
proof (induction p arbitrary: a)
  case Nil
  then show ?case by simp
next
  case (Cons c p)
  let ?d = "unat (c - ch (CHR ''0''))"
  have c: "isdigit c" using Cons.prems by simp
  then have d: "?d < 10" using isdigit_val [of c] by simp
  have "dec (a * 10 + ?d) = dec a @ [c]"
    using Cons.prems(2) d by (simp add: dec_large digit_simps c)
  then show ?case
    using Cons.prems Cons.IH [of "a * 10 + ?d"] by simp
qed

lemma dec_undec:
  assumes "list_all isdigit p" and "ch (CHR ''1'') \<le> c" and "c \<le> ch (CHR ''9'')"
  shows "dec (undec (unat (c - ch (CHR ''0''))) p) = c # p"
proof -
  let ?d = "unat (c - ch (CHR ''0''))"
  have c: "isdigit c"
    using assms by (auto simp: isdigit_def word_le_nat_alt)
  have "0 < ?d" "?d < 10"
    using assms by (auto simp: word_le_nat_alt unat_sub)
  then show ?thesis
    using dec_undec_acc [OF assms(1), of ?d] by (simp add: dec_small digit_simps c)
qed


text \<open>The digits of a positive number, as the parser reads them.\<close>

lemma parse_digits:
  "(ch (CHR ''1'') \<le> c \<and> c \<le> ch (CHR ''9'') \<and>
      string2ll_loop p (ucast (c - ch (CHR ''0''))) = Some (v, [])) \<longleftrightarrow>
   v \<noteq> 0 \<and> c # p = dec (unat v)"
proof -
  let ?d = "c - ch (CHR ''0'')"
  have d: "unat (ucast ?d :: u64) = unat ?d"
    by (simp add: unsigned_ucast_eq take_bit_nat_eq_self order_less_le_trans [OF unsigned_less])
  show ?thesis
  proof
    assume l: "ch (CHR ''1'') \<le> c \<and> c \<le> ch (CHR ''9'') \<and> string2ll_loop p (ucast ?d) = Some (v, [])"
    then have p: "list_all isdigit p" and v: "unat v = undec (unat ?d) p"
      using string2ll_loop_Some [of p "ucast ?d" v] d by simp_all
    have "0 < unat ?d"
      using l by (auto simp: word_le_nat_alt unat_sub)
    then have "v \<noteq> 0"
      using v undec_ge [of "unat ?d" p] by auto
    then show "v \<noteq> 0 \<and> c # p = dec (unat v)"
      using dec_undec [OF p] l v by simp
  next
    assume r: "v \<noteq> 0 \<and> c # p = dec (unat v)"
    then have pos: "0 < unat v" by (simp add: unat_gt_0)
    have dig: "list_all isdigit (c # p)" and val: "undec 0 (c # p) = unat v"
      using r dec_digits [of "unat v"] undec_dec [of "unat v"] by simp_all
    have "string2ll_loop p (ucast ?d) = Some (of_nat (undec (unat ?d) p), [])"
      using dig val unat_lt2p_u64 [of v] string2ll_loop_fits [of p "ucast ?d"] d by simp
    then show "ch (CHR ''1'') \<le> c \<and> c \<le> ch (CHR ''9'') \<and> string2ll_loop p (ucast ?d) = Some (v, [])"
      using hd_dec [OF pos] val r by (metis add_0 list.sel(1) mult_zero_left undec_simps(2) of_nat_unat ucast_id)
  qed
qed

lemma LLONG_MIN_less_iff: "LLONG_MIN < v \<longleftrightarrow> 2 ^ 63 < uint v" and
  LLONG_MAX_less_iff: "LLONG_MAX < v \<longleftrightarrow> 2 ^ 63 \<le> uint v"
  by (auto simp: LLONG_MIN_def LLONG_MAX_def word_less_def)

lemma sless_uminus_iff: "v \<noteq> 0 \<Longrightarrow> - v <s (0 :: u64) \<longleftrightarrow> \<not> LLONG_MIN < v"
  by (auto simp: sless_zero_iff uint_uminus LLONG_MIN_less_iff)

lemma length_dec_int: "length (dec_int (sint (v :: u64))) < LONG_STR_SIZE"
proof -
  have "unat (- v) < 10 ^ Suc 18" if "v <s 0"
    using unat_neg [OF that] sint_ge [of v] by simp
  then have "v <s 0 \<Longrightarrow> length (dec (unat (- v))) \<le> Suc 18"
    by (simp only: length_dec_le)
  then show ?thesis
    using length_dec_u64 [of v] by (auto simp: dec_int_sint LONG_STR_SIZE_def)
qed

lemma string2ll_pos_iff:
  assumes "hd s \<noteq> ch (CHR ''-'')" and "s \<noteq> []" and "length s < LONG_STR_SIZE"
  shows "string2ll s = Some v \<longleftrightarrow> \<not> v <s 0 \<and> s = dec (unat v)"
proof -
  obtain c p where s: "s = c # p" using assms(2) by (cases s) auto
  show ?thesis
  proof (cases "c = ch (CHR ''0'')")
    case True
    have "dec (unat v) = ch (CHR ''0'') # p \<Longrightarrow> v = 0"
      using hd_dec [of "unat v"] by (cases "v = 0") (auto simp: unat_gt_0)
    then show ?thesis
      using True assms by (auto simp: s string2ll_def Let_def dec_small digit_def)
  next
    case False
    then have "string2ll s = Some v \<longleftrightarrow>
      (ch (CHR ''1'') \<le> c \<and> c \<le> ch (CHR ''9'') \<and>
        string2ll_loop p (ucast (c - ch (CHR ''0''))) = Some (v, [])) \<and> \<not> LLONG_MAX < v"
      using assms by (auto simp: s string2ll_def Let_def split: option.splits)
    then have "string2ll s = Some v \<longleftrightarrow> (v \<noteq> 0 \<and> c # p = dec (unat v)) \<and> \<not> LLONG_MAX < v"
      by (simp only: parse_digits)
    then show ?thesis
      using False by (auto simp: LLONG_MAX_less_iff sless_zero_iff s dec_small digit_def)
  qed
qed

lemma string2ll_neg_iff:
  assumes "length s < LONG_STR_SIZE - 1"
  shows "string2ll (ch (CHR ''-'') # s) = Some v \<longleftrightarrow> v <s 0 \<and> s = dec (unat (- v))"
proof (cases s)
  case Nil
  then show ?thesis
    by (simp add: string2ll_def Let_def LONG_STR_SIZE_def) (metis dec_nonempty)
next
  case (Cons c p)
  have "string2ll (ch (CHR ''-'') # s) = Some v \<longleftrightarrow>
      (ch (CHR ''1'') \<le> c \<and> c \<le> ch (CHR ''9'') \<and>
        string2ll_loop p (ucast (c - ch (CHR ''0''))) = Some (- v, [])) \<and> \<not> LLONG_MIN < - v"
    using assms by (auto simp: Cons string2ll_def Let_def LONG_STR_SIZE_def split: option.splits)
  then have "string2ll (ch (CHR ''-'') # s) = Some v \<longleftrightarrow>
      (- v \<noteq> 0 \<and> c # p = dec (unat (- v))) \<and> \<not> LLONG_MIN < - v"
    by (simp only: parse_digits)
  then show ?thesis
    using sless_uminus_iff [of "- v"] by (auto simp: Cons)
qed

lemma string2ll_dec_int: "string2ll s = Some v \<longleftrightarrow> s = dec_int (sint v)"
proof (cases "s = [] \<or> LONG_STR_SIZE \<le> length s")
  case True
  then show ?thesis
    using length_dec_int [of v] dec_nonempty [of "unat v"]
    by (auto simp: string2ll_def dec_int_sint simp del: dec_nonempty)
next
  case False
  then obtain c p where s: "s = c # p" by (cases s) auto
  have "ch (CHR ''-'') # q \<noteq> dec n" for q n
    using dec_digits [of n] by (cases "dec n") (auto simp: isdigit_def)
  note this [simplified, simp]
  then show ?thesis
    using False string2ll_pos_iff [of s v] string2ll_neg_iff [of p v] s
    by (cases "c = ch (CHR ''-'')") (auto simp: s dec_int_sint)
qed


section \<open>The codec of decimal integers\<close>

text \<open>A \<open>long long\<close> printed into a buffer of \<open>LONG_STR_SIZE\<close> bytes, as the callers do.\<close>

definition ll2string_buf :: "u64 \<Rightarrow> buffer" where
  "ll2string_buf v =
     (case ll2string (replicate LONG_STR_SIZE 0) LONG_STR_SIZE v of
        None \<Rightarrow> []
      | Some (buf, n) \<Rightarrow> take (unat n) buf)"

lemma unat_length_dec_int: "unat (of_nat (length (dec_int (sint (v :: u64)))) :: u32) = length (dec_int (sint v))"
  using length_dec_int [of v] by (simp add: unat_of_nat take_bit_nat_eq_self LONG_STR_SIZE_def)

lemma ll2string_buf_eq: "ll2string_buf v = dec_int (sint v)"
  using length_dec_int [of v]
  by (simp add: ll2string_buf_def ll2string_ok unat_length_dec_int)

interpretation llcodec: strict_codec "\<lambda>_. True" ll2string_buf string2ll
  by unfold_locales (simp_all add: ll2string_buf_eq string2ll_dec_int)

section \<open>Properties\<close>

text \<open>
  C2: \<open>string2ll\<close> accepts exactly the canonical decimal notation of a 64-bit signed
  integer, and gives that integer: no sign but a leading minus, no leading zero, no other
  byte, nothing out of range.
\<close>

theorem string2ll_exact: "string2ll s = Some v \<longleftrightarrow> s = dec_int (sint v)"
  by (rule string2ll_dec_int)

text \<open>
  C8: \<open>ll2string\<close> never writes outside the buffer. When the buffer has room for the
  decimal notation of the value and its terminator, it stores exactly that notation and a
  null byte, leaves the rest of the buffer alone and returns the number of characters;
  otherwise it returns 0.
\<close>

theorem ll2string_writes_decimal:
  assumes "length dst = dstlen"
  shows "\<exists>buf n. ll2string dst dstlen v = Some (buf, n) \<and> length buf = dstlen \<and>
    (if length (dec_int (sint v)) < dstlen
     then unat n = length (dec_int (sint v)) \<and> take (unat n) buf = dec_int (sint v) \<and>
       buf ! unat n = 0 \<and> drop (unat n + 1) buf = drop (unat n + 1) dst
     else n = 0)"
proof (cases "length (dec_int (sint v)) < dstlen")
  case True
  then show ?thesis
    using assms by (auto simp: ll2string_ok unat_length_dec_int nth_append)
next
  case False
  then show ?thesis
    using assms ll2string_short [of dst dstlen v] by auto
qed

theorem ll2string_writes_decimal_witness:
  "\<exists>buf n. ll2string (replicate 21 7) 21 (- 42) = Some (buf, n) \<and> length buf = 21 \<and>
    (if length (dec_int (sint (- 42 :: u64))) < 21
     then unat n = length (dec_int (sint (- 42 :: u64))) \<and> take (unat n) buf = dec_int (sint (- 42 :: u64)) \<and>
       buf ! unat n = 0 \<and> drop (unat n + 1) buf = drop (unat n + 1) (replicate 21 7)
     else n = 0)"
  by (rule ll2string_writes_decimal) simp

text \<open>
  C3: \<open>string2ll\<close> loses nothing: printing the parsed value gives the same bytes back,
  and every printed value parses to itself.
\<close>

theorem string2ll_ll2string_roundtrip:
  "string2ll (ll2string_buf v) = Some v \<and> (\<forall>s w. string2ll s = Some w \<longrightarrow> ll2string_buf w = s)"
  using llcodec.dec_enc llcodec.enc_dec by blast

theorem string2ll_ll2string_roundtrip_witness:
  "string2ll (ll2string_buf (- 9223372036854775808)) = Some (- 9223372036854775808) \<and>
   (\<exists>s w. string2ll s = Some w \<and> ll2string_buf w = s)"
  using string2ll_ll2string_roundtrip by blast

text \<open>
  C10: \<open>sdigits10\<close> is the number of characters \<open>ll2string\<close> needs.
\<close>

theorem sdigits10_length: "unat (sdigits10 v) = length (dec_int (sint v))"
proof -
  have "unat (digits10 w + 1) = unat (digits10 w) + 1" for w
    using unat_digits10_bounds [of w] by (simp add: unat_word_ariths)
  then show ?thesis
    using abs_word_eq [of v] by (simp add: sdigits10_def dec_int_sint unat_digits10 Let_def)
qed

end
