(* ===== verification/Redis_Glob.thy ===== *)
theory Redis_Glob
  imports Redis_Prelude
begin

text \<open>
  The glob matcher of \<open>util.c\<close> (\<open>stringmatchlen_impl\<close>, \<open>stringmatchlen\<close>, \<open>stringmatch\<close>),
  used by KEYS, SCAN, PSUBSCRIBE, CONFIG GET and the ACL key patterns. The pattern pointer
  with its length is the rest of the pattern as a list; a read one past its end sees the null
  terminator every pattern has (patterns are sds strings). The flag \<open>skipLongerMatches\<close> is
  an in-out argument and becomes a component of the result.

  The reference is a declarative matcher on a parsed pattern (\<open>tokens\<close>, \<open>glob\<close>).
\<close>

section \<open>Definitions\<close>

definition pat_at :: "buffer \<Rightarrow> nat \<Rightarrow> byte" where
  "pat_at p i = (if i < length p then p ! i else 0)"

text \<open>\<open>tolower\<close> of the C locale on the value of a signed \<open>char\<close>.\<close>

definition tolower :: "int \<Rightarrow> int" where
  "tolower c = (if 65 \<le> c \<and> c \<le> 90 then c + 32 else c)"

definition char_eq :: "bool \<Rightarrow> byte \<Rightarrow> byte \<Rightarrow> bool" where
  "char_eq nocase a b =
     (if \<not> nocase then a = b else tolower (sint a) = tolower (sint b))"

definition in_range :: "bool \<Rightarrow> byte \<Rightarrow> byte \<Rightarrow> byte \<Rightarrow> bool" where
  "in_range nocase a b x =
     (let start = sint a; fin = sint b; c = sint x;
          (start, fin) = (if start > fin then (fin, start) else (start, fin));
          (start, fin, c) = (if nocase then (tolower start, tolower fin, tolower c) else (start, fin, c))
      in start \<le> c \<and> c \<le> fin)"

text \<open>
  The loop over a character class. The result is the match flag and the pattern after the
  class (past the closing bracket, or empty when the bracket is missing).
\<close>

fun class_loop :: "bool \<Rightarrow> byte \<Rightarrow> buffer \<Rightarrow> bool \<Rightarrow> bool \<times> buffer" where
  "class_loop nocase c [] match = (match, [])"
| "class_loop nocase c (x # p) match =
     (if x = ch (CHR 0x5C) \<and> p \<noteq> [] then
        class_loop nocase c (tl p) (match \<or> hd p = c)
      else if x = ch (CHR '']'') then (match, p)
      else if 2 \<le> length p \<and> hd p = ch (CHR ''-'') then
        class_loop nocase c (drop 2 p) (match \<or> in_range nocase x (p ! 1) c)
      else class_loop nocase c p (match \<or> char_eq nocase x c))"

lemma class_loop_length: "length (snd (class_loop nocase c p match)) \<le> length p"
  by (induction nocase c p match rule: class_loop.induct) auto

text \<open>\<open>while (patternLen && pattern[1] == '*')\<close>: run to the last of several stars.\<close>

fun skip_stars :: "buffer \<Rightarrow> buffer" where
  "skip_stars [] = []"
| "skip_stars (x # p) = (if pat_at (x # p) 1 = ch (CHR ''*'') then skip_stars p else x # p)"

lemma skip_stars_length: "length (skip_stars p) \<le> length p"
  by (induction p) auto

function (sequential) stringmatchlen_impl ::
    "bool \<Rightarrow> buffer \<Rightarrow> buffer \<Rightarrow> bool \<Rightarrow> bool \<times> bool"
  and star_loop :: "bool \<Rightarrow> buffer \<Rightarrow> buffer \<Rightarrow> bool \<Rightarrow> bool \<times> bool"
  and match_rest :: "bool \<Rightarrow> buffer \<Rightarrow> buffer \<Rightarrow> bool \<Rightarrow> bool \<times> bool"
where
  "stringmatchlen_impl nocase (x # p) (c # s) skip =
     (if x = ch (CHR ''*'') then
        (let p = skip_stars (x # p) in
         if length p = 1 then (True, skip)
         else star_loop nocase (tl p) (c # s) skip)
      else if x = ch (CHR ''?'') then match_rest nocase p s skip
      else if x = ch (CHR ''['') then
        (let not = (pat_at p 0 = ch (CHR ''^''));
             p = (if not then tl p else p);
             (match, p) = class_loop nocase c p False;
             match = (if not then \<not> match else match)
         in if \<not> match then (False, skip) else match_rest nocase p s skip)
      else
        (let p = (if x = ch (CHR 0x5C) \<and> 2 \<le> length (x # p) then p else x # p)
         in if \<not> char_eq nocase (hd p) c then (False, skip)
            else match_rest nocase (tl p) s skip))"
| "stringmatchlen_impl nocase p s skip = (p = [] \<and> s = [], skip)"
| "star_loop nocase p [] skip = (False, True)"
| "star_loop nocase p (c # s) skip =
     (let (r, skip) = stringmatchlen_impl nocase p (c # s) skip in
      if r then (True, skip)
      else if skip then (False, skip)
      else star_loop nocase p s skip)"
| "match_rest nocase p s skip =
     (if s = [] then (dropWhile (\<lambda>x. x = ch (CHR ''*'')) p = [] \<and> s = [], skip)
      else stringmatchlen_impl nocase p s skip)"
  by pat_completeness auto
termination
proof (relation "measures
    [\<lambda>a. case a of Inl (nc, p, s, k) \<Rightarrow> length p | Inr (Inl (nc, p, s, k)) \<Rightarrow> length p
       | Inr (Inr (nc, p, s, k)) \<Rightarrow> length p,
     \<lambda>a. case a of Inl (nc, p, s, k) \<Rightarrow> length s | Inr (Inl (nc, p, s, k)) \<Rightarrow> length s
       | Inr (Inr (nc, p, s, k)) \<Rightarrow> length s,
     \<lambda>a. case a of Inl _ \<Rightarrow> 0 | Inr _ \<Rightarrow> 1]", goal_cases)
  case 1
  then show ?case by simp
next
  case (2 nc x p c s k q)
  have "length q \<le> Suc (length p)"
    using skip_stars_length [of "x # p"] 2(2) by simp
  then show ?case by (cases q) auto
next
  case (4 nc x p c s k neg q pair m rest m')
  have "snd (class_loop nc c q False) = rest"
    using 4 by (metis snd_conv)
  then have "length rest \<le> length q"
    using class_loop_length [of nc c q False] by simp
  then show ?case using 4 by (auto split: if_splits)
qed auto

definition stringmatchlen :: "buffer \<Rightarrow> buffer \<Rightarrow> bool \<Rightarrow> bool" where
  "stringmatchlen p s nocase = fst (stringmatchlen_impl nocase p s False)"

text \<open>\<open>stringmatch\<close> takes C strings: their bytes up to the first null.\<close>

definition c_string :: "buffer \<Rightarrow> buffer" where
  "c_string s = takeWhile (\<lambda>c. c \<noteq> 0) s"

definition stringmatch :: "buffer \<Rightarrow> buffer \<Rightarrow> bool \<Rightarrow> bool" where
  "stringmatch p s nocase = stringmatchlen (c_string p) (c_string s) nocase"


declare stringmatchlen_impl.simps(1) [simp del] match_rest.simps [simp del]

section \<open>A declarative matcher\<close>

text \<open>An item of a character class: an escaped byte, a range or a byte.\<close>

datatype item = Escaped byte | Range byte byte | Single byte

datatype token = Star | Any | Class bool "item list" | Lit byte

fun class_items :: "buffer \<Rightarrow> item list \<times> buffer" where
  "class_items [] = ([], [])"
| "class_items (x # p) =
     (if x = ch (CHR 0x5C) \<and> p \<noteq> [] then
        (let (its, r) = class_items (tl p) in (Escaped (hd p) # its, r))
      else if x = ch (CHR '']'') then ([], p)
      else if 2 \<le> length p \<and> hd p = ch (CHR ''-'') then
        (let (its, r) = class_items (drop 2 p) in (Range x (p ! 1) # its, r))
      else (let (its, r) = class_items p in (Single x # its, r)))"

lemma class_items_length: "length (snd (class_items p)) \<le> length p"
  by (induction p rule: class_items.induct) (auto split: prod.splits)

fun item_ok :: "bool \<Rightarrow> byte \<Rightarrow> item \<Rightarrow> bool" where
  "item_ok nocase c (Escaped x) \<longleftrightarrow> x = c"
| "item_ok nocase c (Range a b) \<longleftrightarrow> in_range nocase a b c"
| "item_ok nocase c (Single x) \<longleftrightarrow> char_eq nocase x c"

fun token_ok :: "bool \<Rightarrow> token \<Rightarrow> byte \<Rightarrow> bool" where
  "token_ok nocase Star c \<longleftrightarrow> False"
| "token_ok nocase Any c \<longleftrightarrow> True"
| "token_ok nocase (Class neg its) c \<longleftrightarrow> (list_ex (item_ok nocase c) its \<noteq> neg)"
| "token_ok nocase (Lit x) c \<longleftrightarrow> char_eq nocase x c"

function tokens :: "buffer \<Rightarrow> token list" where
  "tokens [] = []"
| "tokens (x # p) =
     (if x = ch (CHR ''*'') then Star # tokens p
      else if x = ch (CHR ''?'') then Any # tokens p
      else if x = ch (CHR ''['') then
        (let neg = (pat_at p 0 = ch (CHR ''^''));
             (its, r) = class_items (if neg then tl p else p)
         in Class neg its # tokens r)
      else if x = ch (CHR 0x5C) \<and> p \<noteq> [] then Lit (hd p) # tokens (tl p)
      else Lit x # tokens p)"
  by pat_completeness auto
termination
proof (relation "measure length", goal_cases)
  case (4 x p neg pair its r)
  have "snd (class_items (if neg then tl p else p)) = r"
    using 4 by (metis snd_conv)
  then have "length r \<le> length (if neg then tl p else p)"
    using class_items_length [of "if neg then tl p else p"] by simp
  then show ?case by (auto split: if_splits)
qed auto

declare tokens.simps(2) [simp del]

text \<open>A star matches any run of bytes, another token exactly one byte.\<close>

fun glob :: "bool \<Rightarrow> token list \<Rightarrow> buffer \<Rightarrow> bool" where
  "glob nocase [] s \<longleftrightarrow> s = []"
| "glob nocase (Star # ts) [] \<longleftrightarrow> glob nocase ts []"
| "glob nocase (Star # ts) (c # s) \<longleftrightarrow> glob nocase ts (c # s) \<or> glob nocase (Star # ts) s"
| "glob nocase (t # ts) [] \<longleftrightarrow> False"
| "glob nocase (t # ts) (c # s) \<longleftrightarrow> token_ok nocase t c \<and> glob nocase ts s"

section \<open>The implementation against the declarative matcher\<close>

lemma glob_Star_iff: "glob nocase (Star # ts) s \<longleftrightarrow> (\<exists>k \<le> length s. glob nocase ts (drop k s))"
proof (induction s)
  case Nil
  then show ?case by simp
next
  case (Cons c s)
  have "(\<exists>k \<le> length (c # s). glob nocase ts (drop k (c # s))) \<longleftrightarrow>
      glob nocase ts (c # s) \<or> (\<exists>k \<le> length s. glob nocase ts (drop k s))"
    by (metis Suc_le_mono drop0 drop_Suc_Cons length_Cons not0_implies_Suc zero_le)
  then show ?case using Cons by simp
qed

lemma class_loop_items:
  "class_loop nocase c p m = (m \<or> list_ex (item_ok nocase c) (fst (class_items p)), snd (class_items p))"
  by (induction nocase c p m rule: class_loop.induct) (auto split: prod.splits)

lemma glob_nonstar:
  "t \<noteq> Star \<Longrightarrow> glob nocase (t # ts) s \<longleftrightarrow>
     (case s of [] \<Rightarrow> False | c # s' \<Rightarrow> token_ok nocase t c \<and> glob nocase ts s')"
  by (cases t; cases s) auto

lemma glob_tokens_Nil: "glob nocase (tokens p) [] \<longleftrightarrow> dropWhile (\<lambda>x. x = ch (CHR ''*'')) p = []"
proof (induction p)
  case Nil
  then show ?case by simp
next
  case (Cons x p)
  then show ?case
    by (cases "x = ch (CHR ''*'')")
      (auto simp: tokens.simps(2) glob_nonstar Let_def split: prod.splits)
qed


text \<open>
  What a call returns: the verdict of the reference, and with the flag set after a mismatch
  the promise that no later part of the string matches either.
\<close>

definition verdict :: "bool \<Rightarrow> token list \<Rightarrow> buffer \<Rightarrow> bool \<times> bool \<Rightarrow> bool" where
  "verdict nocase ts s r \<longleftrightarrow>
     fst r = glob nocase ts s \<and> (\<not> fst r \<and> snd r \<longrightarrow> (\<forall>k. \<not> glob nocase ts (drop k s)))"

lemma verdict_step:
  assumes "t \<noteq> Star" and "token_ok nocase t c" and "verdict nocase ts s r"
  shows "verdict nocase (t # ts) (c # s) r"
proof -
  have "glob nocase (t # ts) (drop k (c # s)) \<Longrightarrow> glob nocase ts (drop k s)" for k
  proof -
    assume g: "glob nocase (t # ts) (drop k (c # s))"
    then obtain d s' where "drop k (c # s) = d # s'" and "glob nocase ts s'"
      using assms(1) by (auto simp: glob_nonstar split: list.splits)
    moreover from this have "s' = drop k s"
      by (metis drop_Suc drop_Suc_Cons list.sel(3) tl_drop)
    ultimately show ?thesis by simp
  qed
  then show ?thesis
    using assms by (auto simp: verdict_def glob_nonstar)
qed

lemma verdict_fail: "t \<noteq> Star \<Longrightarrow> \<not> token_ok nocase t c \<Longrightarrow> verdict nocase (t # ts) (c # s) (False, False)"
  by (simp add: verdict_def glob_nonstar)

lemma skip_stars_split:
  "\<exists>n q. x # p = replicate n (ch (CHR ''*'')) @ ch (CHR ''*'') # q \<and>
     skip_stars (x # p) = ch (CHR ''*'') # q \<and> (q \<noteq> [] \<longrightarrow> hd q \<noteq> ch (CHR ''*''))"
  if "x = ch (CHR ''*'')"
  using that
proof (induction p arbitrary: x)
  case Nil
  then show ?case by (intro exI [of _ 0] exI [of _ "[]"]) (simp add: pat_at_def)
next
  case (Cons y p)
  show ?case
  proof (cases "y = ch (CHR ''*'')")
    case True
    from Cons.IH [OF True] obtain n q where
      "y # p = replicate n (ch (CHR ''*'')) @ ch (CHR ''*'') # q"
      "skip_stars (y # p) = ch (CHR ''*'') # q" "q \<noteq> [] \<longrightarrow> hd q \<noteq> ch (CHR ''*'')"
      by blast
    moreover have "skip_stars (x # y # p) = skip_stars (y # p)"
      using True by (simp add: pat_at_def)
    ultimately show ?thesis
      using Cons.prems by (intro exI [of _ "Suc n"] exI [of _ q]) simp
  next
    case False
    then show ?thesis
      using Cons.prems by (intro exI [of _ 0] exI [of _ "y # p"]) (simp add: pat_at_def)
  qed
qed

lemma tokens_stars: "tokens (replicate n (ch (CHR ''*'')) @ p) = replicate n Star @ tokens p"
  by (induction n) (simp_all add: tokens.simps(2))

lemma glob_stars: "glob nocase (replicate n Star @ Star # ts) s \<longleftrightarrow> glob nocase (Star # ts) s"
proof (induction n arbitrary: s)
  case 0
  then show ?case by simp
next
  case (Suc n)
  have "glob nocase (replicate (Suc n) Star @ Star # ts) s \<longleftrightarrow>
      (\<exists>k \<le> length s. \<exists>j \<le> length s - k. glob nocase ts (drop (j + k) s))"
    by (simp add: glob_Star_iff Suc.IH)
  also have "\<dots> \<longleftrightarrow> (\<exists>k \<le> length s. glob nocase ts (drop k s))"
  proof
    assume "\<exists>k \<le> length s. \<exists>j \<le> length s - k. glob nocase ts (drop (j + k) s)"
    then obtain k j where "k \<le> length s" "j \<le> length s - k" "glob nocase ts (drop (j + k) s)"
      by blast
    then show "\<exists>k \<le> length s. glob nocase ts (drop k s)"
      by (intro exI [of _ "j + k"]) simp
  qed (metis add_0 zero_le)
  finally show ?case
    by (simp add: glob_Star_iff)
qed

lemma glob_tokens_nonstar_Nil: "q \<noteq> [] \<Longrightarrow> hd q \<noteq> ch (CHR ''*'') \<Longrightarrow> \<not> glob nocase (tokens q) []"
  by (cases q) (auto simp: glob_tokens_Nil)

lemma glob_stars_all: "glob nocase (replicate n Star) s \<longleftrightarrow> s = [] \<or> 0 < n"
proof (cases n)
  case (Suc m)
  have "glob nocase (replicate m Star @ [Star]) s"
    unfolding glob_stars glob_Star_iff by (intro exI [of _ "length s"]) simp
  then show ?thesis
    by (simp add: Suc replicate_append_same)
qed simp

lemma star_verdict:
  assumes "q \<noteq> []" and "hd q \<noteq> ch (CHR ''*'')"
    and "fst r = (\<exists>k \<le> length s. glob nocase (tokens q) (drop k s))"
  shows "verdict nocase (Star # tokens q) s r"
proof -
  have "\<not> glob nocase (Star # tokens q) (drop k s)" if "\<not> fst r" for k
  proof
    assume "glob nocase (Star # tokens q) (drop k s)"
    then obtain j where j: "j \<le> length s - k" "glob nocase (tokens q) (drop (j + k) s)"
      by (auto simp: glob_Star_iff)
    show False
    proof (cases "k \<le> length s")
      case True
      with j that assms(3) show False by (metis le_diff_conv2)
    next
      case False
      with j glob_tokens_nonstar_Nil [OF assms(1,2)] show False by simp
    qed
  qed
  then show ?thesis
    using assms(3) by (simp add: verdict_def glob_Star_iff)
qed

lemma stringmatchlen_impl_verdict:
  "\<not> skip \<Longrightarrow> s \<noteq> [] \<Longrightarrow> verdict nocase (tokens p) s (stringmatchlen_impl nocase p s skip)"
  "\<not> skip \<Longrightarrow> p \<noteq> [] \<Longrightarrow> hd p \<noteq> ch (CHR ''*'') \<Longrightarrow>
     fst (star_loop nocase p s skip) = (\<exists>k \<le> length s. glob nocase (tokens p) (drop k s))"
  "\<not> skip \<Longrightarrow> verdict nocase (tokens p) s (match_rest nocase p s skip)"
proof (induction nocase p s skip and nocase p s skip and nocase p s skip
    rule: stringmatchlen_impl_star_loop_match_rest.induct)
  case (1 nocase x p c s skip)
  consider (star) "x = ch (CHR ''*'')" | (any) "x = ch (CHR ''?'')" | (cls) "x = ch (CHR ''['')"
    | (lit) "x \<noteq> ch (CHR ''*'')" "x \<noteq> ch (CHR ''?'')" "x \<noteq> ch (CHR ''['')"
    by blast
  then show ?case
  proof cases
    case star
    then obtain n q where q: "x # p = replicate n (ch (CHR ''*'')) @ ch (CHR ''*'') # q"
      "skip_stars (x # p) = ch (CHR ''*'') # q" "q \<noteq> [] \<longrightarrow> hd q \<noteq> ch (CHR ''*'')"
      using skip_stars_split by blast
    have t: "tokens (x # p) = replicate n Star @ Star # tokens q"
      using q(1) tokens_stars [of n "ch (CHR ''*'') # q"] by (simp add: tokens.simps(2))
    have v: "verdict nocase (tokens (x # p)) s' r = verdict nocase (Star # tokens q) s' r" for s' r
      by (simp add: t verdict_def glob_stars)
    show ?thesis
    proof (cases "q = []")
      case True
      then have "stringmatchlen_impl nocase (x # p) (c # s) skip = (True, skip)"
        using star q(2) by (simp add: stringmatchlen_impl.simps(1))
      moreover have "glob nocase (Star # tokens q) (c # s)"
        using True glob_stars_all [of nocase 1 "c # s"] by simp
      ultimately show ?thesis
        by (simp only: v) (simp add: verdict_def)
    next
      case False
      then have "stringmatchlen_impl nocase (x # p) (c # s) skip = star_loop nocase q (c # s) skip"
        using star q(2) by (simp add: stringmatchlen_impl.simps(1))
      moreover have "fst (star_loop nocase q (c # s) skip) =
          (\<exists>k \<le> length (c # s). glob nocase (tokens q) (drop k (c # s)))"
        using "1.IH"(1) [of "skip_stars (x # p)"] star q(2,3) False "1.prems"
        by (simp del: star_loop.simps skip_stars.simps)
      ultimately show ?thesis
        unfolding v using star_verdict [of q] False q(3) by simp
    qed
  next
    case any
    then have "verdict nocase (tokens p) s (match_rest nocase p s skip)"
      using "1.IH"(2) "1.prems" by simp
    then show ?thesis
      using any verdict_step [of Any nocase c "tokens p" s]
      by (simp add: stringmatchlen_impl.simps(1) tokens.simps(2))
  next
    case cls
    define neg where "neg = (pat_at p 0 = ch (CHR ''^''))"
    define q where "q = (if neg then tl p else p)"
    obtain its r where ir: "class_items q = (its, r)" by fastforce
    have t: "tokens (x # p) = Class neg its # tokens r"
      using cls ir by (simp add: tokens.simps(2) Let_def neg_def q_def)
    have i: "stringmatchlen_impl nocase (x # p) (c # s) skip =
        (if token_ok nocase (Class neg its) c then match_rest nocase r s skip else (False, skip))"
      using cls ir unfolding q_def neg_def
      by (auto simp: stringmatchlen_impl.simps(1) Let_def class_loop_items)
    have "verdict nocase (tokens r) s (match_rest nocase r s skip)" if "token_ok nocase (Class neg its) c"
      using "1.IH"(3) [of neg q "class_loop nocase c q False" "list_ex (item_ok nocase c) its" r
          "if neg then \<not> list_ex (item_ok nocase c) its else list_ex (item_ok nocase c) its"]
        cls "1.prems" that ir by (simp add: neg_def q_def class_loop_items)
    then show ?thesis
      unfolding i t using verdict_step [of "Class neg its" nocase c "tokens r" s]
        verdict_fail [of "Class neg its" nocase c "tokens r" s] "1.prems"
      by (simp del: token_ok.simps)
  next
    case lit
    define q where "q = (if x = ch (CHR 0x5C) \<and> 2 \<le> length (x # p) then p else x # p)"
    have t: "tokens (x # p) = Lit (hd q) # tokens (tl q)"
      using lit by (auto simp: tokens.simps(2) q_def Suc_le_eq)
    have i: "stringmatchlen_impl nocase (x # p) (c # s) skip =
        (if \<not> char_eq nocase (hd q) c then (False, skip) else match_rest nocase (tl q) s skip)"
      using lit by (simp add: stringmatchlen_impl.simps(1) Let_def q_def)
    have "char_eq nocase (hd q) c \<Longrightarrow> verdict nocase (tokens (tl q)) s (match_rest nocase (tl q) s skip)"
      using "1.IH"(4) [of q] lit "1.prems" by (simp add: q_def)
    then show ?thesis
      unfolding i t using verdict_step [of "Lit (hd q)" nocase c "tokens (tl q)" s]
        verdict_fail [of "Lit (hd q)" nocase c "tokens (tl q)" s] "1.prems"
      by simp
  qed
next
  case "2_1"
  then show ?case by (simp add: verdict_def)
next
  case "2_2"
  then show ?case by simp
next
  case (3 nocase p skip)
  then show ?case by (simp add: glob_tokens_nonstar_Nil)
next
  case (4 nocase p c s skip)
  obtain r sk where rs: "stringmatchlen_impl nocase p (c # s) skip = (r, sk)" by fastforce
  have v: "verdict nocase (tokens p) (c # s) (r, sk)"
    using "4.IH"(1) "4.prems" by (simp flip: rs)
  have step: "star_loop nocase p (c # s) skip =
      (if r then (True, sk) else if sk then (False, sk) else star_loop nocase p s sk)"
    by (simp add: rs)
  have split: "(\<exists>k \<le> length (c # s). glob nocase (tokens p) (drop k (c # s))) \<longleftrightarrow>
      r \<or> (\<exists>k \<le> length s. glob nocase (tokens p) (drop k s))"
    using v glob_Star_iff [of nocase "tokens p" "c # s"] glob_Star_iff [of nocase "tokens p" s]
    by (simp add: verdict_def)
  have stop: "sk \<Longrightarrow> \<not> r \<Longrightarrow> \<not> glob nocase (tokens p) (drop k s)" for k
    using v by (auto simp: verdict_def dest: spec [of _ "Suc k"])
  have more: "\<not> sk \<Longrightarrow> \<not> r \<Longrightarrow>
      fst (star_loop nocase p s sk) = (\<exists>k \<le> length s. glob nocase (tokens p) (drop k s))"
    using "4.IH"(2) [OF rs [symmetric] refl] "4.prems" by blast
  show ?case
    unfolding step split using stop more by auto
next
  case (5 nocase p s skip)
  then show ?case by (simp add: match_rest.simps verdict_def glob_tokens_Nil)
qed


section \<open>Properties\<close>

text \<open>
  C4: on a non-empty string \<open>stringmatchlen\<close> decides exactly the declarative glob
  relation. In particular the \<open>skipLongerMatches\<close> cut, which abandons the search as soon
  as an inner star has failed on the whole rest of the string, never loses a match.
\<close>

theorem stringmatchlen_glob:
  assumes "s \<noteq> []"
  shows "stringmatchlen p s nocase \<longleftrightarrow> glob nocase (tokens p) s"
  using stringmatchlen_impl_verdict(1) [of False s nocase p] assms
  by (simp add: stringmatchlen_def verdict_def)

theorem stringmatchlen_glob_witness:
  "str ''hello'' \<noteq> [] \<and>
   stringmatchlen (str ''h*[^a-k]?'') (str ''hello'') False =
     glob False (tokens (str ''h*[^a-k]?'')) (str ''hello'')"
  using stringmatchlen_glob [of "str ''hello''"] by simp


end
