(* ===== verification/Redis_Crc.thy ===== *)
theory Redis_Crc
  imports Redis_Prelude
begin

text \<open>
  The checksums: \<open>crc16.c\<close> (CRC16/XMODEM, used for the hash slots of the cluster) and
  \<open>crc64.c\<close> with the little-endian half of \<open>crcspeed.c\<close> (CRC64/Jones, used by RDB and
  DUMP payloads). \<open>crc16\<close> is table driven, \<open>crc64\<close> processes eight bytes at a time
  with eight tables computed at start-up; both are shown equal to bit-by-bit references.
  Everything rests on the linearity of one shift step over exclusive or, stated as a locale.
\<close>

section \<open>Definitions\<close>

subsection \<open>CRC16\<close>

definition crc16tab :: "u16 list" where
  "crc16tab = [
    0x0000, 0x1021, 0x2042, 0x3063, 0x4084, 0x50a5, 0x60c6, 0x70e7,
    0x8108, 0x9129, 0xa14a, 0xb16b, 0xc18c, 0xd1ad, 0xe1ce, 0xf1ef,
    0x1231, 0x0210, 0x3273, 0x2252, 0x52b5, 0x4294, 0x72f7, 0x62d6,
    0x9339, 0x8318, 0xb37b, 0xa35a, 0xd3bd, 0xc39c, 0xf3ff, 0xe3de,
    0x2462, 0x3443, 0x0420, 0x1401, 0x64e6, 0x74c7, 0x44a4, 0x5485,
    0xa56a, 0xb54b, 0x8528, 0x9509, 0xe5ee, 0xf5cf, 0xc5ac, 0xd58d,
    0x3653, 0x2672, 0x1611, 0x0630, 0x76d7, 0x66f6, 0x5695, 0x46b4,
    0xb75b, 0xa77a, 0x9719, 0x8738, 0xf7df, 0xe7fe, 0xd79d, 0xc7bc,
    0x48c4, 0x58e5, 0x6886, 0x78a7, 0x0840, 0x1861, 0x2802, 0x3823,
    0xc9cc, 0xd9ed, 0xe98e, 0xf9af, 0x8948, 0x9969, 0xa90a, 0xb92b,
    0x5af5, 0x4ad4, 0x7ab7, 0x6a96, 0x1a71, 0x0a50, 0x3a33, 0x2a12,
    0xdbfd, 0xcbdc, 0xfbbf, 0xeb9e, 0x9b79, 0x8b58, 0xbb3b, 0xab1a,
    0x6ca6, 0x7c87, 0x4ce4, 0x5cc5, 0x2c22, 0x3c03, 0x0c60, 0x1c41,
    0xedae, 0xfd8f, 0xcdec, 0xddcd, 0xad2a, 0xbd0b, 0x8d68, 0x9d49,
    0x7e97, 0x6eb6, 0x5ed5, 0x4ef4, 0x3e13, 0x2e32, 0x1e51, 0x0e70,
    0xff9f, 0xefbe, 0xdfdd, 0xcffc, 0xbf1b, 0xaf3a, 0x9f59, 0x8f78,
    0x9188, 0x81a9, 0xb1ca, 0xa1eb, 0xd10c, 0xc12d, 0xf14e, 0xe16f,
    0x1080, 0x00a1, 0x30c2, 0x20e3, 0x5004, 0x4025, 0x7046, 0x6067,
    0x83b9, 0x9398, 0xa3fb, 0xb3da, 0xc33d, 0xd31c, 0xe37f, 0xf35e,
    0x02b1, 0x1290, 0x22f3, 0x32d2, 0x4235, 0x5214, 0x6277, 0x7256,
    0xb5ea, 0xa5cb, 0x95a8, 0x8589, 0xf56e, 0xe54f, 0xd52c, 0xc50d,
    0x34e2, 0x24c3, 0x14a0, 0x0481, 0x7466, 0x6447, 0x5424, 0x4405,
    0xa7db, 0xb7fa, 0x8799, 0x97b8, 0xe75f, 0xf77e, 0xc71d, 0xd73c,
    0x26d3, 0x36f2, 0x0691, 0x16b0, 0x6657, 0x7676, 0x4615, 0x5634,
    0xd94c, 0xc96d, 0xf90e, 0xe92f, 0x99c8, 0x89e9, 0xb98a, 0xa9ab,
    0x5844, 0x4865, 0x7806, 0x6827, 0x18c0, 0x08e1, 0x3882, 0x28a3,
    0xcb7d, 0xdb5c, 0xeb3f, 0xfb1e, 0x8bf9, 0x9bd8, 0xabbb, 0xbb9a,
    0x4a75, 0x5a54, 0x6a37, 0x7a16, 0x0af1, 0x1ad0, 0x2ab3, 0x3a92,
    0xfd2e, 0xed0f, 0xdd6c, 0xcd4d, 0xbdaa, 0xad8b, 0x9de8, 0x8dc9,
    0x7c26, 0x6c07, 0x5c64, 0x4c45, 0x3ca2, 0x2c83, 0x1ce0, 0x0cc1,
    0xef1f, 0xff3e, 0xcf5d, 0xdf7c, 0xaf9b, 0xbfba, 0x8fd9, 0x9ff8,
    0x6e17, 0x7e36, 0x4e55, 0x5e74, 0x2e93, 0x3eb2, 0x0ed1, 0x1ef0]"

definition crc16 :: "buffer \<Rightarrow> u16" where
  "crc16 buf =
     foldl (\<lambda>crc c. push_bit 8 crc XOR crc16tab ! unat ((drop_bit 8 crc XOR ucast c) AND 0x00FF)) 0 buf"

subsection \<open>CRC64\<close>

definition POLY :: u64 where
  "POLY = 0xad93d23594c935a9"

fun crc_reflect_loop :: "nat \<Rightarrow> u64 \<Rightarrow> u64 \<Rightarrow> u64" where
  "crc_reflect_loop 0 data ret = ret"
| "crc_reflect_loop (Suc n) data ret =
     (let data = drop_bit 1 data
      in crc_reflect_loop n data (push_bit 1 ret OR (data AND 1)))"

definition crc_reflect :: "u64 \<Rightarrow> nat \<Rightarrow> u64" where
  "crc_reflect data data_len = crc_reflect_loop (data_len - 1) data (data AND 1)"

definition crc64_bit :: "byte \<Rightarrow> u64 \<Rightarrow> nat \<Rightarrow> u64" where
  "crc64_bit c crc i =
     (let b = ((crc AND 0x8000000000000000 \<noteq> 0) \<noteq> (c AND push_bit i 1 \<noteq> 0));
          crc = push_bit 1 crc
      in if b then crc XOR POLY else crc)"

definition priv_crc64 :: "u64 \<Rightarrow> buffer \<Rightarrow> u64" where
  "priv_crc64 crc data =
     crc_reflect (foldl (\<lambda>crc c. foldl (crc64_bit c) crc [0..<8] AND 0xffffffffffffffff) crc data
       AND 0xffffffffffffffff) 64 XOR 0"

text \<open>The eight tables of 256 entries. Row \<open>k\<close> is computed from row 0, column by column.\<close>

fun crcspeed64_column :: "u64 list \<Rightarrow> nat \<Rightarrow> u64 \<Rightarrow> u64 list" where
  "crcspeed64_column row0 0 crc = []"
| "crcspeed64_column row0 (Suc k) crc =
     (let crc = row0 ! unat (crc AND 0xff) XOR drop_bit 8 crc
      in crc # crcspeed64_column row0 k crc)"

definition crcspeed64little_init :: "(u64 \<Rightarrow> buffer \<Rightarrow> u64) \<Rightarrow> u64 list list" where
  "crcspeed64little_init crcfn =
     (let row0 = map (\<lambda>n. crcfn 0 [of_nat n]) [0..<256];
          cols = map (\<lambda>n. row0 ! n # crcspeed64_column row0 7 (row0 ! n)) [0..<256]
      in map (\<lambda>k. map (\<lambda>n. cols ! n ! k) [0..<256]) [0..<8])"

definition crcspeed64_byte :: "u64 list list \<Rightarrow> u64 \<Rightarrow> byte \<Rightarrow> u64" where
  "crcspeed64_byte tab crc c = tab ! 0 ! unat ((crc XOR ucast c) AND 0xff) XOR drop_bit 8 crc"

text \<open>
  The buffer comes with the number of bytes before the next 8-byte aligned address; the loop
  over aligned words reads them as little-endian 64-bit integers.
\<close>

function crcspeed64_words :: "u64 list list \<Rightarrow> u64 \<Rightarrow> buffer \<Rightarrow> u64" where
  "crcspeed64_words tab crc buf =
     (if 8 \<le> length buf then
        (let crc = crc XOR le_dec (take 8 buf);
             crc = tab ! 7 ! unat (crc AND 0xff) XOR
                   tab ! 6 ! unat (drop_bit 8 crc AND 0xff) XOR
                   tab ! 5 ! unat (drop_bit 16 crc AND 0xff) XOR
                   tab ! 4 ! unat (drop_bit 24 crc AND 0xff) XOR
                   tab ! 3 ! unat (drop_bit 32 crc AND 0xff) XOR
                   tab ! 2 ! unat (drop_bit 40 crc AND 0xff) XOR
                   tab ! 1 ! unat (drop_bit 48 crc AND 0xff) XOR
                   tab ! 0 ! unat (drop_bit 56 crc)
         in crcspeed64_words tab crc (drop 8 buf))
      else foldl (crcspeed64_byte tab) crc buf)"
  by pat_completeness auto
termination
  by (relation "measure (\<lambda>(tab, crc, buf). length buf)") auto

declare crcspeed64_words.simps [simp del]

definition crcspeed64little :: "u64 list list \<Rightarrow> u64 \<Rightarrow> nat \<Rightarrow> buffer \<Rightarrow> u64" where
  "crcspeed64little tab crc unaligned buf =
     crcspeed64_words tab (foldl (crcspeed64_byte tab) crc (take unaligned buf)) (drop unaligned buf)"

definition crc64_table :: "u64 list list" where
  "crc64_table = crcspeed64little_init priv_crc64"

definition crc64 :: "u64 \<Rightarrow> nat \<Rightarrow> buffer \<Rightarrow> u64" where
  "crc64 crc unaligned s = crcspeed64little crc64_table crc unaligned s"

section \<open>Linearity\<close>

locale xor_linear =
  fixes f :: "'a::len word \<Rightarrow> 'a word"
  assumes lin: "f (x XOR y) = f x XOR f y"
begin

lemma zero [simp]: "f 0 = 0"
  using lin [of 0 0] by simp

lemma funpow_lin: "(f ^^ n) (x XOR y) = (f ^^ n) x XOR (f ^^ n) y"
  by (induction n) (simp_all add: lin)

lemma funpow_zero [simp]: "(f ^^ n) 0 = 0"
  by (induction n) simp_all

end

subsection \<open>One step of CRC16\<close>

definition crc16_step :: "u16 \<Rightarrow> u16" where
  "crc16_step x = (if bit x 15 then push_bit 1 x XOR 0x1021 else push_bit 1 x)"

definition crc16_ref :: "buffer \<Rightarrow> u16" where
  "crc16_ref buf = foldl (\<lambda>crc c. (crc16_step ^^ 8) (crc XOR push_bit 8 (ucast c))) 0 buf"

interpretation c16: xor_linear crc16_step
proof
  fix x y :: u16
  have "push_bit 1 (x XOR y) = push_bit 1 x XOR push_bit 1 y"
    by (rule push_bit_xor)
  then show "crc16_step (x XOR y) = crc16_step x XOR crc16_step y"
    by (cases "bit x 15"; cases "bit y 15") (simp_all add: crc16_step_def bit_xor_iff ac_simps)
qed

lemma crc16tab_pairs:
  "crc16tab = concat (map (\<lambda>t. [crc16_step t, crc16_step t XOR 0x1021]) (take 128 crc16tab))"
  unfolding crc16tab_def by (simp add: crc16_step_def)

lemma length_crc16tab [simp]: "length crc16tab = 256"
  by (simp add: crc16tab_def)

lemma crc16tab_rec:
  "n < 128 \<Longrightarrow> crc16tab ! (2 * n) = crc16_step (crc16tab ! n)"
  "n < 128 \<Longrightarrow> crc16tab ! Suc (2 * n) = crc16_step (crc16tab ! n) XOR 0x1021"
  using nth_concat_pairs [of n "take 128 crc16tab" crc16_step "\<lambda>t. crc16_step t XOR 0x1021"]
  by (simp_all flip: crc16tab_pairs)

lemma funpow_8: "(f ^^ 8) x = f (f (f (f (f (f (f (f x)))))))"
  by (simp add: eval_nat_numeral)

lemma crc16_steps_one: "(crc16_step ^^ 8) 0x100 = 0x1021"
  by (simp add: funpow_8 crc16_step_def)

text \<open>Entry \<open>n\<close> of the table is eight steps from \<open>n\<close> in the high byte.\<close>

lemma crc16tab_nth: "n < 256 \<Longrightarrow> crc16tab ! n = (crc16_step ^^ 8) (push_bit 8 (of_nat n))"
proof (induction n rule: less_induct)
  case (less n)
  define m where "m = n div 2"
  have m: "m < 128" using less.prems by (simp add: m_def)
  have high: "\<not> bit (push_bit 8 (of_nat m) :: u16) 15"
    using m bit_of_nat_small [of m 7 7] by (simp add: bit_push_bit_iff)
  have dbl: "push_bit 8 (of_nat (2 * m)) = crc16_step (push_bit 8 (of_nat m))"
    using high by (simp add: crc16_step_def push_bit_of_nat push_bit_eq_mult ac_simps)
  have ev: "crc16tab ! (2 * m) = (crc16_step ^^ 8) (push_bit 8 (of_nat (2 * m)))"
  proof (cases "m = 0")
    case True
    then show ?thesis by (simp add: crc16tab_def)
  next
    case False
    then have "m < n" by (simp add: m_def)
    then have "crc16tab ! m = (crc16_step ^^ 8) (push_bit 8 (of_nat m))"
      using less.IH less.prems by simp
    then show ?thesis
      using m by (simp only: crc16tab_rec dbl funpow_swap1)
  qed
  show ?case
  proof (cases "even n")
    case True
    then have "n = 2 * m" by (simp add: m_def)
    then show ?thesis using ev by simp
  next
    case False
    then have n: "n = Suc (2 * m)" by (simp add: m_def)
    have "of_nat n = of_nat (2 * m) XOR (1 :: u16)"
      by (simp add: n xor_one_eq)
    then have "push_bit 8 (of_nat n) = push_bit 8 (of_nat (2 * m)) XOR (0x100 :: u16)"
      by (simp only: push_bit_xor) simp
    then show ?thesis
      using ev m by (simp only: c16.funpow_lin crc16_steps_one n crc16tab_rec)
  qed
qed

lemma crc16_step_low:
  "k \<le> 8 \<Longrightarrow> unat x < 256 \<Longrightarrow> (crc16_step ^^ k) x = push_bit k x"
proof (induction k)
  case (Suc k)
  then have "\<not> bit (push_bit k x) 15"
    using bit_small [of x 8 "15 - k"] by (simp add: bit_push_bit_iff)
  with Suc show ?case
    by (simp add: crc16_step_def)
qed simp

lemma crc16_byte:
  "push_bit 8 crc XOR crc16tab ! unat ((drop_bit 8 crc XOR ucast c) AND 0x00FF)
     = (crc16_step ^^ 8) (crc XOR push_bit 8 (ucast c))" for c :: byte
proof -
  let ?h = "(drop_bit 8 crc XOR ucast c) AND (0x00FF :: u16)"
  let ?l = "crc AND (0x00FF :: u16)"
  have mask: "0x00FF = (mask 8 :: u16)" by (simp add: mask_eq_exp_minus_1)
  have h: "unat ?h < 256" and l: "unat ?l < 256"
    unfolding mask using unat_and_mask [where n = 8] by fastforce+
  have split: "crc XOR push_bit 8 (ucast c) = push_bit 8 ?h XOR ?l"
    unfolding mask by (rule bit_word_eqI) (auto simp: bit_simps)
  have "(crc16_step ^^ 8) ?l = push_bit 8 ?l"
    using l by (intro crc16_step_low) simp_all
  also have "\<dots> = push_bit 8 crc"
    unfolding mask by (rule bit_word_eqI) (auto simp: bit_simps)
  finally have "(crc16_step ^^ 8) ?l = push_bit 8 crc" .
  moreover have "crc16tab ! unat ?h = (crc16_step ^^ 8) (push_bit 8 ?h)"
    using crc16tab_nth [OF h] by simp
  ultimately show ?thesis
    by (simp only: split c16.funpow_lin xor.commute)
qed

text \<open>
  C7: the table-driven \<open>crc16\<close> is the bit-by-bit CRC-16/XMODEM (polynomial 0x1021, zero
  initial value, no reflection) of the buffer.
\<close>

theorem crc16_xmodem: "crc16 buf = crc16_ref buf"
  unfolding crc16_def crc16_ref_def by (simp only: crc16_byte)


subsection \<open>One step of CRC64, on the reflected register\<close>

declare push_bit_Suc [simp del]

definition RPOLY :: u64 where
  "RPOLY = 0x95ac9329ac4bc9b5"

definition crc64_step :: "u64 \<Rightarrow> u64" where
  "crc64_step r = (if bit r 0 then drop_bit 1 r XOR RPOLY else drop_bit 1 r)"

definition crc64_ref :: "u64 \<Rightarrow> buffer \<Rightarrow> u64" where
  "crc64_ref crc buf = foldl (\<lambda>r c. (crc64_step ^^ 8) (r XOR ucast c)) crc buf"

interpretation c64: xor_linear crc64_step
proof
  fix x y :: u64
  have "drop_bit 1 (x XOR y) = drop_bit 1 x XOR drop_bit 1 y"
    by (rule drop_bit_xor)
  then show "crc64_step (x XOR y) = crc64_step x XOR crc64_step y"
    by (cases "bit x 0"; cases "bit y 0") (simp_all add: crc64_step_def bit_xor_iff ac_simps)
qed

text \<open>\<open>crc_reflect\<close> reverses the bits.\<close>

lemma bit_crc_reflect_loop:
  assumes "\<And>i. i < k \<Longrightarrow> bit ret i = bit d (k - 1 - i)" and "\<And>i. k \<le> i \<Longrightarrow> \<not> bit ret i"
    and "0 < k" and "k + n \<le> 64"
  shows "i < 64 \<Longrightarrow>
    bit (crc_reflect_loop n (drop_bit (k - 1) d) ret) i = (i < k + n \<and> bit d (k + n - 1 - i))"
  using assms
proof (induction n arbitrary: k ret)
  case 0
  then show ?case by (cases "i < k") auto
next
  case (Suc n)
  let ?ret = "push_bit 1 ret OR (drop_bit k d AND 1)"
  have "bit ?ret i = bit d (k - i)" if "i < Suc k" for i
    using that Suc.prems by (cases i) (auto simp: bit_simps)
  moreover have "\<not> bit ?ret i" if "Suc k \<le> i" for i
    using that Suc.prems by (cases i) (auto simp: bit_simps)
  ultimately have "bit (crc_reflect_loop n (drop_bit k d) ?ret) i = (i < Suc k + n \<and> bit d (k + n - i))"
    using Suc.IH [of "Suc k" ?ret] Suc.prems by simp
  moreover have "drop_bit 1 (drop_bit (k - 1) d) = drop_bit k d"
    using Suc.prems(4) by simp
  ultimately show ?case by (simp add: Let_def)
qed

lemma bit_crc_reflect: "i < 64 \<Longrightarrow> bit (crc_reflect d 64) i = bit d (63 - i)"
  using bit_crc_reflect_loop [of 1 "d AND 1" d 63 i]
  by (simp add: crc_reflect_def bit_simps)

lemma crc_reflect_xor: "crc_reflect (x XOR y) 64 = crc_reflect x 64 XOR crc_reflect y 64"
  by (rule bit_word_eqI) (simp add: bit_crc_reflect bit_xor_iff)

lemma crc_reflect_push: "crc_reflect (push_bit 1 x) 64 = drop_bit 1 (crc_reflect x 64)"
proof (rule bit_word_eqI)
  fix i assume i: "i < LENGTH(64)"
  show "bit (crc_reflect (push_bit 1 x) 64) i = bit (drop_bit 1 (crc_reflect x 64)) i"
  proof (cases "i = 63")
    case True
    then show ?thesis
      by (auto simp: bit_crc_reflect bit_simps dest: bit_imp_le_length)
  next
    case False
    then show ?thesis using i by (auto simp: bit_crc_reflect bit_simps)
  qed
qed

lemma crc_reflect_zero [simp]: "crc_reflect 0 64 = 0"
  by (rule bit_word_eqI) (simp add: bit_crc_reflect)

lemma crc_reflect_POLY: "crc_reflect POLY 64 = RPOLY"
proof (rule bit_word_eqI)
  have "map (bit RPOLY) [0..<64] = map (\<lambda>i. bit POLY (63 - i)) [0..<64]"
    by (simp add: upt_rec POLY_def RPOLY_def)
  then have "\<forall>i \<in> set [0..<64]. bit RPOLY i = bit POLY (63 - i)"
    by (simp only: map_eq_conv)
  moreover fix i assume "i < LENGTH(64)"
  ultimately show "bit (crc_reflect POLY 64) i = bit RPOLY i"
    by (simp add: bit_crc_reflect)
qed

lemma crc64_bit_reflect:
  "crc_reflect (crc64_bit c crc i) 64 = crc64_step (crc_reflect crc 64 XOR of_bool (bit c i))"
proof -
  have top: "crc AND 0x8000000000000000 \<noteq> 0 \<longleftrightarrow> bit (crc_reflect crc 64) 0"
    using and_exp_eq_0_iff_not_bit [of crc 63] by (simp add: bit_crc_reflect)
  have c: "c AND push_bit i 1 \<noteq> 0 \<longleftrightarrow> bit c i"
    by (simp add: and_exp_eq_0_iff_not_bit)
  have "drop_bit 1 (x XOR of_bool b) = drop_bit 1 x" for x :: u64 and b
    by (rule bit_word_eqI) (simp add: bit_simps)
  then show ?thesis
    unfolding crc64_bit_def c top
    by (auto simp: Let_def crc64_step_def crc_reflect_xor
      crc_reflect_push [simplified] crc_reflect_POLY bit_xor_iff)
qed

text \<open>Steps on a word whose low bits are zero only shift.\<close>

lemma crc64_step_high:
  "(\<And>i. i < k \<Longrightarrow> \<not> bit x i) \<Longrightarrow> (crc64_step ^^ k) x = drop_bit k x"
proof (induction k)
  case (Suc k)
  then have "\<not> bit (drop_bit k x) 0"
    by (simp add: bit_drop_bit_eq)
  with Suc show ?case
    by (simp add: crc64_step_def)
qed simp

lemma crc64_step_push:
  assumes "unat x < 2 ^ n" and "n + k \<le> 64"
  shows "(crc64_step ^^ k) (push_bit k x) = x"
proof -
  have "(crc64_step ^^ k) (push_bit k x) = drop_bit k (push_bit k x)"
    by (intro crc64_step_high) (simp add: bit_push_bit_iff)
  also have "\<dots> = x"
  proof (rule bit_word_eqI)
    fix i assume "i < LENGTH(64)"
    then show "bit (drop_bit k (push_bit k x)) i = bit x i"
      using assms bit_small [of x n i] by (cases "i < n") (auto simp: bit_simps)
  qed
  finally show ?thesis .
qed


lemma crc64_byte_reflect:
  "crc_reflect (foldl (crc64_bit c) crc [0..<8]) 64 = (crc64_step ^^ 8) (crc_reflect crc 64 XOR ucast c)"
proof -
  have "k \<le> 8 \<Longrightarrow> crc_reflect (foldl (crc64_bit c) crc [0..<k]) 64 =
      (crc64_step ^^ k) (crc_reflect crc 64 XOR ucast (take_bit k c))" for k
  proof (induction k)
    case (Suc k)
    have "unat (of_bool (bit c k) :: u64) < 2 ^ 1" by simp
    then have "(crc64_step ^^ k) (push_bit k (of_bool (bit c k))) = of_bool (bit c k)"
      using Suc.prems by (intro crc64_step_push [where n = 1]) simp_all
    moreover have "ucast (take_bit (Suc k) c) = (ucast (take_bit k c) XOR push_bit k (of_bool (bit c k)) :: u64)"
      using Suc.prems by (intro bit_word_eqI) (auto simp: bit_simps less_Suc_eq)
    ultimately show ?case
      using Suc by (simp add: crc64_bit_reflect c64.funpow_lin c64.lin xor.assoc)
  qed simp
  moreover have "take_bit 8 c = c"
    by (rule bit_word_eqI) (simp add: bit_simps)
  ultimately show ?thesis by (metis order_refl)
qed

lemma priv_crc64_ref: "priv_crc64 crc data = crc64_ref (crc_reflect crc 64) data"
proof -
  have ones_u64: "(0xffffffffffffffff :: u64) = mask 64"
    by (simp add: mask_eq_exp_minus_1)
  have ones: "x AND 0xffffffffffffffff = x" for x :: u64
    by (rule bit_word_eqI) (simp add: ones_u64 bit_and_iff bit_mask_iff)
  have "crc_reflect (foldl (\<lambda>crc c. foldl (crc64_bit c) crc [0..<8]) crc data) 64 =
      crc64_ref (crc_reflect crc 64) data"
    by (induction data arbitrary: crc) (simp_all only: crc64_ref_def foldl.simps crc64_byte_reflect)
  then show ?thesis
    by (simp only: priv_crc64_def ones xor.right_neutral)
qed

lemma crc64_step_byte:
  "(crc64_step ^^ 8) (r XOR ucast c) =
     (crc64_step ^^ 8) ((r XOR ucast c) AND 0xff) XOR drop_bit 8 r" for c :: byte
proof -
  let ?lo = "(r XOR ucast c) AND (0xff :: u64)" and ?hi = "push_bit 8 (drop_bit 8 r)"
  have mask: "(0xff :: u64) = mask 8" by (simp add: mask_eq_exp_minus_1)
  have split: "r XOR ucast c = ?lo XOR ?hi"
    unfolding mask by (rule bit_word_eqI) (auto simp: bit_simps dest: bit_imp_le_length)
  have "(crc64_step ^^ 8) ?hi = drop_bit 8 ?hi"
    by (intro crc64_step_high) (simp add: bit_simps)
  moreover have "drop_bit 8 ?hi = drop_bit 8 r"
    by (rule bit_word_eqI) (auto simp: bit_simps dest: bit_imp_le_length)
  ultimately have "(crc64_step ^^ 8) ?hi = drop_bit 8 r"
    by simp
  moreover have "(crc64_step ^^ 8) (r XOR ucast c) = (crc64_step ^^ 8) ?lo XOR (crc64_step ^^ 8) ?hi"
    using arg_cong [OF split, of "crc64_step ^^ 8"] by (simp only: c64.funpow_lin [of 8 ?lo ?hi])
  ultimately show ?thesis
    by simp
qed

text \<open>Entry \<open>n\<close> of table \<open>k\<close> is \<open>n\<close> advanced by \<open>8 * (k + 1)\<close> steps.\<close>

lemma crcspeed64_column_nth:
  assumes "\<And>n. n < 256 \<Longrightarrow> row0 ! n = (crc64_step ^^ 8) (of_nat n)" and "k < m"
  shows "crcspeed64_column row0 m crc ! k = (crc64_step ^^ (8 * Suc k)) crc"
  using assms(2)
proof (induction m arbitrary: k crc)
  case (Suc m)
  have mask: "(0xff :: u64) = mask 8" by (simp add: mask_eq_exp_minus_1)
  have "unat (crc AND 0xff) < 256"
    unfolding mask using unat_and_mask [of crc 8] by simp
  then have step: "row0 ! unat (crc AND 0xff) XOR drop_bit 8 crc = (crc64_step ^^ 8) crc"
    using crc64_step_byte [of crc 0] by (simp add: assms(1))
  show ?case
  proof (cases k)
    case 0
    then show ?thesis by (simp add: step Let_def)
  next
    case (Suc j)
    then show ?thesis
      using Suc.IH [of j "(crc64_step ^^ 8) crc"] Suc.prems
      by (simp add: step Let_def funpow_add [symmetric] funpow_mult flip: comp_apply [of "crc64_step ^^ _" "crc64_step ^^ _"])
  qed
qed simp


lemma crc64_table_nth:
  assumes "k < 8" and "n < 256"
  shows "crc64_table ! k ! n = (crc64_step ^^ (8 * Suc k)) (of_nat n)"
proof -
  define row0 where "row0 = map (\<lambda>n. priv_crc64 0 [of_nat n]) [0..<256]"
  have row0: "row0 ! n = (crc64_step ^^ 8) (of_nat n)" if "n < 256" for n
    using that by (simp add: row0_def priv_crc64_ref crc64_ref_def unsigned_of_nat take_bit_nat_eq_self)
  have "crc64_table ! k ! n = (row0 ! n # crcspeed64_column row0 7 (row0 ! n)) ! k"
    using assms by (simp add: crc64_table_def crcspeed64little_init_def row0_def Let_def)
  also have "\<dots> = (crc64_step ^^ (8 * Suc k)) (of_nat n)"
  proof (cases k)
    case 0
    then show ?thesis using assms by (simp add: row0)
  next
    case (Suc j)
    have "crcspeed64_column row0 7 (row0 ! n) ! j = (crc64_step ^^ (8 * Suc j)) (row0 ! n)"
      using Suc assms row0 by (intro crcspeed64_column_nth) simp_all
    also have "\<dots> = (crc64_step ^^ (8 * Suc j + 8)) (of_nat n)"
      by (simp only: row0 [OF assms(2)] funpow_add o_apply)
    finally show ?thesis
      using Suc by (simp add: add.commute)
  qed
  finally show ?thesis .
qed

lemma crcspeed64_byte_step: "crcspeed64_byte crc64_table r c = (crc64_step ^^ 8) (r XOR ucast c)"
proof -
  have mask: "(0xff :: u64) = mask 8" by (simp add: mask_eq_exp_minus_1)
  have "unat ((r XOR ucast c) AND 0xff) < 256"
    unfolding mask using unat_and_mask [of _ 8] by fastforce
  then show ?thesis
    by (simp add: crcspeed64_byte_def crc64_table_nth crc64_step_byte [of r c])
qed

lemma le_dec_bound: "unat (le_dec bs :: u64) < 2 ^ (8 * length bs)"
proof -
  have "(le_dec bs :: u64) = le_dec bs AND mask (8 * length bs)"
    by (rule bit_word_eqI) (auto simp: bit_le_dec bit_and_iff bit_mask_iff)
  then show ?thesis
    using unat_and_mask [of "le_dec bs :: u64" "8 * length bs"] by simp
qed

text \<open>Up to eight byte steps at once.\<close>

lemma crc64_bytes_at_once:
  "length bs \<le> 8 \<Longrightarrow> foldl (\<lambda>r c. (crc64_step ^^ 8) (r XOR ucast c)) r bs
     = (crc64_step ^^ (8 * length bs)) (r XOR le_dec bs)"
proof (induction bs arbitrary: r)
  case (Cons b bs)
  let ?n = "8 * length bs"
  have "le_dec (b # bs) = ucast b XOR push_bit 8 (le_dec bs :: u64)"
    by (rule bit_word_eqI) (auto simp: bit_simps dest: bit_imp_le_length)
  moreover have "8 * length bs + 8 \<le> 64"
    using Cons.prems by simp
  then have "(crc64_step ^^ 8) (push_bit 8 (le_dec bs)) = le_dec bs"
    by (rule crc64_step_push [OF le_dec_bound])
  ultimately have "(crc64_step ^^ 8) (r XOR le_dec (b # bs)) =
      (crc64_step ^^ 8) (r XOR ucast b) XOR le_dec bs"
    by (simp only: c64.funpow_lin xor.assoc [symmetric])
  then have "(crc64_step ^^ (?n + 8)) (r XOR le_dec (b # bs)) =
      (crc64_step ^^ ?n) ((crc64_step ^^ 8) (r XOR ucast b) XOR le_dec bs)"
    by (simp only: funpow_add o_apply)
  then show ?case
    using Cons by (simp add: add.commute)
qed simp

definition byte_at :: "nat \<Rightarrow> u64 \<Rightarrow> u64" where
  "byte_at j x = drop_bit (8 * j) x AND 0xff"

lemma crc64_slice:
  assumes "j < 8"
  shows "(crc64_step ^^ 64) (push_bit (8 * j) (byte_at j x)) = crc64_table ! (7 - j) ! unat (byte_at j x)"
proof -
  have mask: "(0xff :: u64) = mask 8" by (simp add: mask_eq_exp_minus_1)
  have b: "unat (byte_at j x) < 256"
    unfolding byte_at_def mask using unat_and_mask [of _ 8] by fastforce
  have "(crc64_step ^^ (8 * j)) (push_bit (8 * j) (byte_at j x)) = byte_at j x"
    using assms b by (intro crc64_step_push [where n = 8]) simp_all
  moreover have "64 = 8 * Suc (7 - j) + 8 * j"
    using assms by simp
  ultimately have "(crc64_step ^^ 64) (push_bit (8 * j) (byte_at j x)) =
      (crc64_step ^^ (8 * Suc (7 - j))) (byte_at j x)"
    by (metis funpow_add o_apply)
  then show ?thesis
    using assms b by (simp add: crc64_table_nth)
qed

lemma split_bytes:
  "x = push_bit (8 * 0) (byte_at 0 x) XOR push_bit (8 * 1) (byte_at 1 x) XOR
       push_bit (8 * 2) (byte_at 2 x) XOR push_bit (8 * 3) (byte_at 3 x) XOR
       push_bit (8 * 4) (byte_at 4 x) XOR push_bit (8 * 5) (byte_at 5 x) XOR
       push_bit (8 * 6) (byte_at 6 x) XOR push_bit (8 * 7) (byte_at 7 x)"
proof (rule bit_word_eqI)
  fix i assume i: "i < LENGTH(64)"
  have mask: "(0xff :: u64) = mask 8" by (simp add: mask_eq_exp_minus_1)
  have b: "bit (push_bit (8 * j) (byte_at j x)) i \<longleftrightarrow> i div 8 = j \<and> bit x i" for j
    unfolding byte_at_def mask using i
    by (auto simp: bit_push_bit_iff bit_and_iff bit_drop_bit_eq bit_mask_iff)
  have d: "i div 8 = 0 \<or> i div 8 = 1 \<or> i div 8 = 2 \<or> i div 8 = 3 \<or>
      i div 8 = 4 \<or> i div 8 = 5 \<or> i div 8 = 6 \<or> i div 8 = 7"
    using i by auto
  show "bit x i = bit (push_bit (8 * 0) (byte_at 0 x) XOR push_bit (8 * 1) (byte_at 1 x) XOR
       push_bit (8 * 2) (byte_at 2 x) XOR push_bit (8 * 3) (byte_at 3 x) XOR
       push_bit (8 * 4) (byte_at 4 x) XOR push_bit (8 * 5) (byte_at 5 x) XOR
       push_bit (8 * 6) (byte_at 6 x) XOR push_bit (8 * 7) (byte_at 7 x)) i"
    unfolding bit_xor_iff b using d by (elim disjE) simp_all
qed

lemma byte_at_7: "byte_at 7 x = drop_bit 56 x"
proof -
  have mask: "(0xff :: u64) = mask 8" by (simp add: mask_eq_exp_minus_1)
  show ?thesis
    unfolding byte_at_def mask by (rule bit_word_eqI) (auto simp: bit_simps dest: bit_imp_le_length)
qed

lemma crc64_word:
  "(crc64_step ^^ 64) x =
     crc64_table ! 7 ! unat (byte_at 0 x) XOR crc64_table ! 6 ! unat (byte_at 1 x) XOR
     crc64_table ! 5 ! unat (byte_at 2 x) XOR crc64_table ! 4 ! unat (byte_at 3 x) XOR
     crc64_table ! 3 ! unat (byte_at 4 x) XOR crc64_table ! 2 ! unat (byte_at 5 x) XOR
     crc64_table ! 1 ! unat (byte_at 6 x) XOR crc64_table ! 0 ! unat (byte_at 7 x)"
  using arg_cong [OF split_bytes [of x], of "crc64_step ^^ 64"] crc64_slice [of 0 x]
    crc64_slice [of 1 x] crc64_slice [of 2 x] crc64_slice [of 3 x] crc64_slice [of 4 x]
    crc64_slice [of 5 x] crc64_slice [of 6 x] crc64_slice [of 7 x]
  unfolding c64.funpow_lin by simp

lemma crcspeed64_bytes: "foldl (crcspeed64_byte crc64_table) crc buf = crc64_ref crc buf"
  unfolding crc64_ref_def by (rule arg_cong [of _ _ "\<lambda>f. foldl f crc buf"]) (intro ext crcspeed64_byte_step)

lemma crc64_ref_append: "crc64_ref crc (xs @ ys) = crc64_ref (crc64_ref crc xs) ys"
  by (simp add: crc64_ref_def)

lemma crcspeed64_words_ref: "crcspeed64_words crc64_table crc buf = crc64_ref crc buf"
proof (induction "length buf" arbitrary: crc buf rule: less_induct)
  case less
  show ?case
  proof (cases "8 \<le> length buf")
    case True
    define y where "y = (crc64_step ^^ 64) (crc XOR le_dec (take 8 buf))"
    have "crcspeed64_words crc64_table crc buf = crcspeed64_words crc64_table y (drop 8 buf)"
      using True unfolding y_def crc64_word byte_at_7
      by (subst crcspeed64_words.simps) (simp add: Let_def byte_at_def)
    also have "\<dots> = crc64_ref y (drop 8 buf)"
      using True by (intro less) simp
    also have "y = crc64_ref crc (take 8 buf)"
      using True crc64_bytes_at_once [of "take 8 buf" crc] by (simp add: crc64_ref_def y_def)
    finally show ?thesis
      by (simp add: crc64_ref_append [symmetric])
  next
    case False
    then show ?thesis
      by (subst crcspeed64_words.simps) (simp add: crcspeed64_bytes)
  qed
qed

text \<open>
  C5: the slice-by-eight \<open>crc64\<close> over the start-up tables computes the same checksum as
  the bit-by-bit reference, byte after byte, wherever the buffer lies relative to an 8-byte
  boundary; on an empty register it is exactly \<open>_crc64\<close>.
\<close>

theorem crc64_bitwise:
  "crc64 crc unaligned s = crc64_ref crc s \<and> crc64 0 unaligned s = priv_crc64 0 s"
proof -
  have "crc64 crc unaligned s = crc64_ref crc s" for crc
    by (simp add: crc64_def crcspeed64little_def crcspeed64_words_ref crcspeed64_bytes
        crc64_ref_append [symmetric])
  then show ?thesis by (simp add: priv_crc64_ref)
qed

end
