(* ===== verification/Redis_Intset.thy ===== *)
theory Redis_Intset
  imports Redis_Prelude
begin

text \<open>
  The intset of \<open>intset.c\<close>: a sorted array of distinct integers, stored with 2, 4 or 8 bytes
  per element in one byte buffer. The host is little-endian, so the \<open>ifbe\<close> conversions of
  \<open>endianconv.h\<close> are the identity. Reads and writes of the contents are bounds checked;
  \<open>zrealloc\<close> keeps the old bytes and adds bytes of unknown value, the argument \<open>junk\<close>.
  An \<open>int\<close> of the C code is an HOL integer, obtained from a \<open>uint32_t\<close> by \<open>sint\<close>.
\<close>

section \<open>Definitions\<close>

record intset =
  is_encoding :: u32
  is_length :: u32
  is_contents :: buffer

definition INTSET_ENC_INT16 :: u32 where "INTSET_ENC_INT16 = 2"
definition INTSET_ENC_INT32 :: u32 where "INTSET_ENC_INT32 = 4"
definition INTSET_ENC_INT64 :: u32 where "INTSET_ENC_INT64 = 8"

lemmas intset_enc_defs = INTSET_ENC_INT16_def INTSET_ENC_INT32_def INTSET_ENC_INT64_def

definition priv_intsetValueEncoding :: "u64 \<Rightarrow> u32" where
  "priv_intsetValueEncoding v =
     (if sint v < - (2 ^ 31) \<or> 2 ^ 31 - 1 < sint v then INTSET_ENC_INT64
      else if sint v < - (2 ^ 15) \<or> 2 ^ 15 - 1 < sint v then INTSET_ENC_INT32
      else INTSET_ENC_INT16)"

definition priv_intsetGetEncoded :: "intset \<Rightarrow> nat \<Rightarrow> u32 \<Rightarrow> u64 option" where
  "priv_intsetGetEncoded s pos enc =
     (if enc = INTSET_ENC_INT64 then
        do { bs \<leftarrow> rdn (is_contents s) (8 * pos) 8; Some (le_dec bs) }
      else if enc = INTSET_ENC_INT32 then
        do { bs \<leftarrow> rdn (is_contents s) (4 * pos) 4; Some (scast (le_dec bs :: u32)) }
      else
        do { bs \<leftarrow> rdn (is_contents s) (2 * pos) 2; Some (scast (le_dec bs :: u16)) })"

definition priv_intsetGet :: "intset \<Rightarrow> nat \<Rightarrow> u64 option" where
  "priv_intsetGet s pos = priv_intsetGetEncoded s pos (is_encoding s)"

definition priv_intsetSet :: "intset \<Rightarrow> nat \<Rightarrow> u64 \<Rightarrow> intset option" where
  "priv_intsetSet s pos v =
     (if is_encoding s = INTSET_ENC_INT64 then
        do { c \<leftarrow> wrn (is_contents s) (8 * pos) (le_enc 8 v); Some (s\<lparr>is_contents := c\<rparr>) }
      else if is_encoding s = INTSET_ENC_INT32 then
        do { c \<leftarrow> wrn (is_contents s) (4 * pos) (le_enc 4 v); Some (s\<lparr>is_contents := c\<rparr>) }
      else
        do { c \<leftarrow> wrn (is_contents s) (2 * pos) (le_enc 2 v); Some (s\<lparr>is_contents := c\<rparr>) })"

definition intsetNew :: intset where
  "intsetNew = \<lparr>is_encoding = INTSET_ENC_INT16, is_length = 0, is_contents = []\<rparr>"

definition zrealloc :: "(nat \<Rightarrow> byte) \<Rightarrow> buffer \<Rightarrow> nat \<Rightarrow> buffer" where
  "zrealloc junk xs n = take n xs @ map junk [length xs..<n]"

definition intsetResize :: "(nat \<Rightarrow> byte) \<Rightarrow> intset \<Rightarrow> u32 \<Rightarrow> intset" where
  "intsetResize junk s len =
     (let size = (ucast len :: u64) * ucast (is_encoding s)
      in s\<lparr>is_contents := zrealloc junk (is_contents s) (unat size)\<rparr>)"

text \<open>
  The binary search. The loop gives back \<open>min\<close>, \<open>mid\<close> and \<open>cur\<close>; \<open>None\<close> is a read out of
  bounds or a loop that does not end.
\<close>

partial_function (option) intsetSearch_loop ::
    "intset \<Rightarrow> u64 \<Rightarrow> int \<Rightarrow> int \<Rightarrow> int \<Rightarrow> u64 \<Rightarrow> (int \<times> int \<times> u64) option" where
  "intsetSearch_loop s v lo hi mid cur =
     (if lo \<le> hi then
        let mid = uint (drop_bit 1 (word_of_int lo + word_of_int hi :: u32)) in
        do {
          cur \<leftarrow> priv_intsetGet s (nat mid);
          (if cur <s v then intsetSearch_loop s v (mid + 1) hi mid cur
           else if v <s cur then intsetSearch_loop s v lo (mid - 1) mid cur
           else Some (lo, mid, cur))
        }
      else Some (lo, mid, cur))"

definition intsetSearch :: "intset \<Rightarrow> u64 \<Rightarrow> (bool \<times> u32) option" where
  "intsetSearch s v =
     (let hi = sint (is_length s - 1) in
      if is_length s = 0 then Some (False, 0)
      else do {
        last \<leftarrow> priv_intsetGet s (nat hi);
        (if last <s v then Some (False, is_length s)
         else do {
           first \<leftarrow> priv_intsetGet s 0;
           (if v <s first then Some (False, 0)
            else do {
              (lo, mid, cur) \<leftarrow> intsetSearch_loop s v 0 hi (-1) (-1);
              Some (if v = cur then (True, word_of_int mid) else (False, word_of_int lo))
            })
         })
      })"

fun intsetUpgrade_loop :: "nat \<Rightarrow> u32 \<Rightarrow> nat \<Rightarrow> intset \<Rightarrow> intset option" where
  "intsetUpgrade_loop 0 curenc prepend s = Some s"
| "intsetUpgrade_loop (Suc len) curenc prepend s =
     do {
       v \<leftarrow> priv_intsetGetEncoded s len curenc;
       s \<leftarrow> priv_intsetSet s (len + prepend) v;
       intsetUpgrade_loop len curenc prepend s
     }"

definition intsetUpgradeAndAdd :: "(nat \<Rightarrow> byte) \<Rightarrow> intset \<Rightarrow> u64 \<Rightarrow> intset option" where
  "intsetUpgradeAndAdd junk s v =
     (let curenc = is_encoding s;
          newenc = priv_intsetValueEncoding v;
          len = unat (is_length s);
          prepend = (if v <s 0 then 1 else 0 :: nat);
          s = s\<lparr>is_encoding := newenc\<rparr>;
          s = intsetResize junk s (is_length s + 1)
      in do {
        s \<leftarrow> intsetUpgrade_loop len curenc prepend s;
        s \<leftarrow> (if prepend \<noteq> 0 then priv_intsetSet s 0 v
              else priv_intsetSet s (unat (is_length s)) v);
        Some (s\<lparr>is_length := is_length s + 1\<rparr>)
      })"

text \<open>The byte count of the move is a \<open>uint32_t\<close> and wraps around.\<close>

definition intsetMoveTail :: "intset \<Rightarrow> u32 \<Rightarrow> u32 \<Rightarrow> intset option" where
  "intsetMoveTail s from to =
     (let bytes = is_length s - from;
          size = (if is_encoding s = INTSET_ENC_INT64 then 8
                  else if is_encoding s = INTSET_ENC_INT32 then 4 else 2 :: nat);
          bytes = bytes * of_nat size
      in do {
        bs \<leftarrow> rdn (is_contents s) (size * unat from) (unat bytes);
        c \<leftarrow> wrn (is_contents s) (size * unat to) bs;
        Some (s\<lparr>is_contents := c\<rparr>)
      })"

definition intsetAdd :: "(nat \<Rightarrow> byte) \<Rightarrow> intset \<Rightarrow> u64 \<Rightarrow> (intset \<times> bool) option" where
  "intsetAdd junk s v =
     (if is_encoding s < priv_intsetValueEncoding v then
        do { s \<leftarrow> intsetUpgradeAndAdd junk s v; Some (s, True) }
      else do {
        (found, pos) \<leftarrow> intsetSearch s v;
        (if found then Some (s, False)
         else do {
           let s = intsetResize junk s (is_length s + 1);
           s \<leftarrow> (if pos < is_length s then intsetMoveTail s pos (pos + 1) else Some s);
           s \<leftarrow> priv_intsetSet s (unat pos) v;
           Some (s\<lparr>is_length := is_length s + 1\<rparr>, True)
         })
      })"

definition intsetRemove :: "(nat \<Rightarrow> byte) \<Rightarrow> intset \<Rightarrow> u64 \<Rightarrow> (intset \<times> bool) option" where
  "intsetRemove junk s v =
     (if is_encoding s < priv_intsetValueEncoding v then Some (s, False)
      else do {
        (found, pos) \<leftarrow> intsetSearch s v;
        (if \<not> found then Some (s, False)
         else do {
           let len = is_length s;
           s \<leftarrow> (if pos < len - 1 then intsetMoveTail s (pos + 1) pos else Some s);
           let s = intsetResize junk s (len - 1);
           Some (s\<lparr>is_length := len - 1\<rparr>, True)
         })
      })"

definition intsetFind :: "intset \<Rightarrow> u64 \<Rightarrow> bool option" where
  "intsetFind s v =
     (if is_encoding s < priv_intsetValueEncoding v then Some False
      else map_option fst (intsetSearch s v))"

text \<open>\<open>intsetRandom\<close>: the value of \<open>rand()\<close> is an argument; the assertion fails on the empty set.\<close>

definition intsetRandom :: "intset \<Rightarrow> u32 \<Rightarrow> u64 option" where
  "intsetRandom s rnd =
     (let len = is_length s in
      if len = 0 then None else priv_intsetGet s (unat (rnd mod len)))"

definition intsetGet :: "intset \<Rightarrow> u32 \<Rightarrow> u64 option option" where
  "intsetGet s pos =
     (if pos < is_length s then do { v \<leftarrow> priv_intsetGet s (unat pos); Some (Some v) }
      else Some None)"

definition intsetLen :: "intset \<Rightarrow> u32" where
  "intsetLen s = is_length s"

definition intsetBlobLen :: "intset \<Rightarrow> u64" where
  "intsetBlobLen s = 8 + ucast (is_length s) * ucast (is_encoding s)"

text \<open>The header and contents of a blob, as the cast \<open>(intset *)p\<close> sees them.\<close>

definition intset_of_blob :: "buffer \<Rightarrow> intset" where
  "intset_of_blob p =
     \<lparr>is_encoding = le_dec (take 4 p), is_length = le_dec (take 4 (drop 4 p)), is_contents = drop 8 p\<rparr>"

definition blob_of_intset :: "intset \<Rightarrow> buffer" where
  "blob_of_intset s = le_enc 4 (is_encoding s) @ le_enc 4 (is_length s) @ is_contents s"

fun intsetValidate_loop :: "intset \<Rightarrow> u64 \<Rightarrow> nat list \<Rightarrow> bool option" where
  "intsetValidate_loop s prev [] = Some True"
| "intsetValidate_loop s prev (i # rest) =
     do {
       cur \<leftarrow> priv_intsetGet s i;
       (if cur \<le>s prev then Some False else intsetValidate_loop s cur rest)
     }"

definition intsetValidateIntegrity :: "buffer \<Rightarrow> nat \<Rightarrow> bool \<Rightarrow> bool option" where
  "intsetValidateIntegrity p sz deep =
     (let s = intset_of_blob p; enc = is_encoding s; count = is_length s in
      if sz < 8 then Some False
      else if \<not> (enc = INTSET_ENC_INT64 \<or> enc = INTSET_ENC_INT32 \<or> enc = INTSET_ENC_INT16) then Some False
      else if 8 + unat count * unat enc \<noteq> sz then Some False
      else if count = 0 then Some False
      else if \<not> deep then Some True
      else do {
        prev \<leftarrow> priv_intsetGet s 0;
        intsetValidate_loop s prev [1..<unat count]
      })"


section \<open>Arrays of fixed-size elements in a byte buffer\<close>

definition all_len :: "nat \<Rightarrow> 'a list list \<Rightarrow> bool" where
  "all_len e cs \<longleftrightarrow> (\<forall>c \<in> set cs. length c = e)"

lemma all_len_simps [simp]:
  "all_len e []"
  "all_len e (c # cs) \<longleftrightarrow> length c = e \<and> all_len e cs"
  "all_len e (cs @ ds) \<longleftrightarrow> all_len e cs \<and> all_len e ds"
  by (auto simp: all_len_def)

lemma all_len_nth: "all_len e cs \<Longrightarrow> i < length cs \<Longrightarrow> length (cs ! i) = e"
  by (simp add: all_len_def)

lemma all_len_take: "all_len e cs \<Longrightarrow> all_len e (take n cs)"
  by (auto simp: all_len_def dest: in_set_takeD)

lemma all_len_drop: "all_len e cs \<Longrightarrow> all_len e (drop n cs)"
  by (auto simp: all_len_def dest: in_set_dropD)

lemma all_len_update: "all_len e cs \<Longrightarrow> length x = e \<Longrightarrow> all_len e (cs[i := x])"
  by (auto simp: all_len_def dest: set_update_subset_insert [THEN subsetD])

lemma length_concat_all_len: "all_len e cs \<Longrightarrow> length (concat cs) = e * length cs"
  by (induction cs) (auto simp: all_len_def)

lemma take_concat: "all_len e cs \<Longrightarrow> take (e * n) (concat cs) = concat (take n cs)"
proof (induction cs arbitrary: n)
  case (Cons c cs)
  then show ?case by (cases n) simp_all
qed simp

lemma drop_concat: "all_len e cs \<Longrightarrow> drop (e * n) (concat cs) = concat (drop n cs)"
proof (induction cs arbitrary: n)
  case (Cons c cs)
  then show ?case by (cases n) simp_all
qed simp

lemma rdn_concat:
  assumes "all_len e cs" and "i + k \<le> length cs"
  shows "rdn (concat cs) (e * i) (e * k) = Some (concat (take k (drop i cs)))"
proof -
  have "e * i + e * k \<le> length (concat cs)"
    using assms by (simp add: length_concat_all_len flip: add_mult_distrib2)
  then show ?thesis
    using assms by (simp add: rdn_def drop_concat take_concat all_len_drop)
qed

lemma rdn_concat_1:
  assumes "all_len e cs" and "i < length cs"
  shows "rdn (concat cs) (e * i) e = Some (cs ! i)"
  using rdn_concat [OF assms(1), of i 1] assms by (simp add: take_Suc Cons_nth_drop_Suc [symmetric])

lemma wrn_concat:
  assumes "all_len e cs" and "all_len e ds" and "i + length ds \<le> length cs"
  shows "wrn (concat cs) (e * i) (concat ds) = Some (concat (take i cs @ ds @ drop (i + length ds) cs))"
proof -
  have "e * i + e * length ds \<le> length (concat cs)"
    using assms by (simp add: length_concat_all_len flip: add_mult_distrib2)
  then show ?thesis
    using assms
    by (simp add: wrn_def length_concat_all_len take_concat drop_concat flip: add_mult_distrib2)
qed

lemma wrn_concat_1:
  assumes "all_len e cs" and "length x = e" and "i < length cs"
  shows "wrn (concat cs) (e * i) x = Some (concat (cs[i := x]))"
  using wrn_concat [of e cs "[x]" i] assms by (simp add: upd_conv_take_nth_drop)

text \<open>The integer stored in an element, by its size.\<close>

definition elem_val :: "buffer \<Rightarrow> u64" where
  "elem_val x = (if length x = 8 then le_dec x
     else if length x = 4 then scast (le_dec x :: u32) else scast (le_dec x :: u16))"

definition fits :: "nat \<Rightarrow> u64 \<Rightarrow> bool" where
  "fits e v \<longleftrightarrow> - (2 ^ (8 * e - 1)) \<le> sint v \<and> sint v < 2 ^ (8 * e - 1)"


lemma le_dec_enc_ucast:
  assumes "LENGTH('b::len) \<le> 8 * n"
  shows "(le_dec (le_enc n (w :: 'a::len word)) :: 'b word) = ucast w"
proof (rule bit_word_eqI)
  fix i assume i: "i < LENGTH('b)"
  then have "i div 8 < n" and "8 * (i div 8) + i mod 8 = i"
    using assms by simp_all
  then show "bit (le_dec (le_enc n w) :: 'b word) i = bit (ucast w :: 'b word) i"
    using i by (simp add: bit_le_dec le_enc_def bit_ucast_iff bit_drop_bit_eq)
qed

lemma sint_ucast_fits:
  assumes "LENGTH('b::len) \<le> 64" and "- (2 ^ (LENGTH('b) - 1)) \<le> sint v" and "sint v < 2 ^ (LENGTH('b) - 1)"
  shows "sint (ucast (v :: u64) :: 'b word) = sint v"
proof -
  have "(ucast v :: 'b word) = word_of_int (sint v)"
    using assms(1) by (intro bit_word_eqI) (auto simp: bit_ucast_iff bit_word_scast_iff)
  then have "sint (ucast v :: 'b word) = signed_take_bit (LENGTH('b) - 1) (sint v)"
    by (simp add: signed_scast_eq)
  also have "\<dots> = sint v"
    using assms by (simp add: signed_take_bit_int_eq_self)
  finally show ?thesis .
qed

lemma sint_scast_up:
  assumes "LENGTH('b::len) \<le> 64"
  shows "sint (scast (w :: 'b word) :: u64) = sint w"
proof -
  have "2 ^ (LENGTH('b) - 1) \<le> (2 ^ 63 :: int)"
    using assms by (intro power_increasing) auto
  then have "- (2 ^ 63) \<le> sint w" "sint w < 2 ^ 63"
    using sint_ge [of w] sint_lt [of w] by linarith+
  then have "signed_take_bit 63 (sint w) = sint w"
    by (intro signed_take_bit_int_eq_self) simp_all
  then show ?thesis
    by (simp add: signed_scast_eq)
qed


definition enc_ok :: "nat \<Rightarrow> bool" where
  "enc_ok e \<longleftrightarrow> e = 2 \<or> e = 4 \<or> e = 8"

lemma sint_inj: "sint v = sint w \<Longrightarrow> v = w" for v w :: "'a::len word"
  by (rule signed_word_eqI)

lemma elem_val_le_enc:
  assumes "enc_ok e" and "fits e v"
  shows "elem_val (le_enc e v) = v"
proof -
  have "scast (ucast v :: u32) = v" if "fits 4 v"
    using that by (intro sint_inj) (simp add: sint_scast_up sint_ucast_fits fits_def)
  moreover have "scast (ucast v :: u16) = v" if "fits 2 v"
    using that by (intro sint_inj) (simp add: sint_scast_up sint_ucast_fits fits_def)
  ultimately show ?thesis
    using assms by (auto simp: enc_ok_def elem_val_def le_dec_enc_ucast)
qed

lemma elem_val_fits:
  assumes "enc_ok (length x)"
  shows "fits (length x) (elem_val x)"
proof -
  consider "length x = 2" | "length x = 4" | "length x = 8"
    using assms by (auto simp: enc_ok_def)
  then show ?thesis
  proof cases
    case 1
    then show ?thesis
      using sint_ge [of "le_dec x :: u16"] sint_lt [of "le_dec x :: u16"]
      by (simp add: elem_val_def fits_def sint_scast_up)
  next
    case 2
    then show ?thesis
      using sint_ge [of "le_dec x :: u32"] sint_lt [of "le_dec x :: u32"]
      by (simp add: elem_val_def fits_def sint_scast_up)
  next
    case 3
    then show ?thesis
      using sint_ge [of "le_dec x :: u64"] sint_lt [of "le_dec x :: u64"]
      by (simp add: elem_val_def fits_def)
  qed
qed

lemma fits_mono: "fits e v \<Longrightarrow> e \<le> e' \<Longrightarrow> fits e' v"
  unfolding fits_def
  by (meson diff_le_mono le_less_trans less_le_trans mult_le_mono2 neg_le_iff_le one_le_numeral
      order_trans power_increasing)

lemma value_encoding:
  "\<exists>e. priv_intsetValueEncoding v = of_nat e \<and> enc_ok e \<and> (\<forall>d. enc_ok d \<longrightarrow> (fits d v \<longleftrightarrow> e \<le> d))"
proof -
  have b: "- (2 ^ 63) \<le> sint v" "sint v < 2 ^ 63"
    using sint_ge [of v] sint_lt [of v] by simp_all
  show ?thesis
    using b by (simp add: priv_intsetValueEncoding_def intset_enc_defs enc_ok_def fits_def)
      (auto intro: exI [of _ 2] exI [of _ 4] exI [of _ 8])
qed

text \<open>\<open>rep s e cs\<close>: the intset holds the elements \<open>cs\<close> of \<open>e\<close> bytes each.\<close>

definition rep :: "intset \<Rightarrow> nat \<Rightarrow> buffer list \<Rightarrow> bool" where
  "rep s e cs \<longleftrightarrow> enc_ok e \<and> is_encoding s = of_nat e \<and> all_len e cs \<and>
     is_contents s = concat cs"

abbreviation vals :: "buffer list \<Rightarrow> int list" where
  "vals cs \<equiv> map (\<lambda>x. sint (elem_val x)) cs"

lemma of_nat_enc: "enc_ok e \<Longrightarrow> (of_nat e = INTSET_ENC_INT64) = (e = 8)"
  "enc_ok e \<Longrightarrow> (of_nat e = INTSET_ENC_INT32) = (e = 4)"
  "enc_ok e \<Longrightarrow> unat (of_nat e :: u32) = e"
  by (auto simp: enc_ok_def intset_enc_defs)

lemma GetEncoded_rep:
  assumes "enc_ok e" and "rdn (is_contents s) (e * i) e = Some x"
  shows "priv_intsetGetEncoded s i (of_nat e) = Some (elem_val x)"
  using assms rdn_length [OF assms(2)]
  by (auto simp: priv_intsetGetEncoded_def of_nat_enc elem_val_def enc_ok_def)

lemma Get_rep:
  assumes "rep s e cs" and "i < length cs"
  shows "priv_intsetGet s i = Some (elem_val (cs ! i))"
  using assms GetEncoded_rep [of e s i "cs ! i"] rdn_concat_1 [of e cs i]
  by (simp add: rep_def priv_intsetGet_def)

lemma Set_wrn:
  assumes "enc_ok e" and "is_encoding s = of_nat e" and "wrn (is_contents s) (e * i) (le_enc e v) = Some c"
  shows "priv_intsetSet s i v = Some (s\<lparr>is_contents := c\<rparr>)"
  using assms by (auto simp: priv_intsetSet_def of_nat_enc enc_ok_def)

lemma Set_rep:
  assumes "rep s e cs" and "i < length cs"
  shows "\<exists>s'. priv_intsetSet s i v = Some s' \<and> rep s' e (cs[i := le_enc e v]) \<and> is_length s' = is_length s"
proof -
  have "wrn (is_contents s) (e * i) (le_enc e v) = Some (concat (cs[i := le_enc e v]))"
    using assms by (simp add: rep_def wrn_concat_1)
  then show ?thesis
    using assms Set_wrn [of e s i v] by (auto simp: rep_def all_len_update)
qed

section \<open>Binary search\<close>

lemma mid_value:
  assumes "0 \<le> lo" and "lo \<le> hi" and "hi < 2 ^ 31"
  shows "uint (drop_bit 1 (word_of_int lo + word_of_int hi :: u32)) = (lo + hi) div 2"
proof -
  have "uint (word_of_int lo + word_of_int hi :: u32) = lo + hi"
    using assms by (simp add: uint_word_ariths uint_word_of_int take_bit_int_eq_self flip: of_int_add)
  moreover have "uint (drop_bit 1 w) = uint w div 2" for w :: u32
    by (simp add: drop_bit_eq_div uint_div_distrib)
  ultimately show ?thesis by simp
qed

lemma sless_sint: "(v <s w) = (sint v < sint w)" for v w :: u64
  by (simp add: word_sless_alt)

definition below :: "int list \<Rightarrow> int \<Rightarrow> int \<Rightarrow> bool" where
  "below xs v lo \<longleftrightarrow> (\<forall>i < length xs. int i < lo \<longrightarrow> xs ! i < v)"

definition over :: "int list \<Rightarrow> int \<Rightarrow> int \<Rightarrow> bool" where
  "over xs v hi \<longleftrightarrow> (\<forall>i < length xs. hi < int i \<longrightarrow> v < xs ! i)"

lemma sorted_below:
  assumes "sorted_wrt (<) xs" and "m < length xs" and "xs ! m < v"
  shows "below xs v (int m + 1)"
  unfolding below_def
proof (intro allI impI)
  fix i assume "i < length xs" "int i < int m + 1"
  then have "i < m \<or> i = m" by linarith
  then show "xs ! i < v"
    using assms sorted_wrt_nth_less [of "(<)" xs i m] by auto
qed

lemma sorted_above:
  assumes "sorted_wrt (<) xs" and "m < length xs" and "v < xs ! m"
  shows "over xs v (int m - 1)"
  unfolding over_def
proof (intro allI impI)
  fix i assume "i < length xs" "int m - 1 < int i"
  then have "i < length xs \<and> m < i \<or> i = m" by linarith
  then show "v < xs ! i"
    using assms sorted_wrt_nth_less [of "(<)" xs m i] by auto
qed

text \<open>What the search establishes: the position of the value, or where to insert it.\<close>

definition search_post :: "int list \<Rightarrow> int \<Rightarrow> bool \<times> nat \<Rightarrow> bool" where
  "search_post xs v r \<longleftrightarrow>
     (case r of (found, pos) \<Rightarrow>
        if found then pos < length xs \<and> xs ! pos = v
        else v \<notin> set xs \<and> pos \<le> length xs \<and> below xs v (int pos) \<and> over xs v (int pos - 1))"

lemma below_above_notin:
  assumes "below xs v lo" and "over xs v (lo - 1)"
  shows "v \<notin> set xs"
proof
  assume "v \<in> set xs"
  then obtain i where "i < length xs" "xs ! i = v" by (auto simp: in_set_conv_nth)
  then show False
    using assms by (cases "int i < lo") (auto simp: below_def over_def)
qed

lemma intsetSearch_loop_correct:
  assumes "rep s e cs" and "sorted_wrt (<) (vals cs)" and "length cs < 2 ^ 31"
    and "0 \<le> lo" and "lo \<le> hi + 1" and "hi < int (length cs)"
    and "below (vals cs) (sint v) lo" and "over (vals cs) (sint v) hi"
    and "hi < lo \<longrightarrow> cur \<noteq> v"
  shows "\<exists>lo' mid' cur'. intsetSearch_loop s v lo hi mid cur = Some (lo', mid', cur') \<and>
    0 \<le> lo' \<and> (cur' = v \<longrightarrow> 0 \<le> mid') \<and>
    search_post (vals cs) (sint v) (cur' = v, nat (if cur' = v then mid' else lo'))"
  using assms(4-9)
proof (induction "nat (hi - lo + 1)" arbitrary: lo hi mid cur rule: less_induct)
  case less
  show ?case
  proof (cases "lo \<le> hi")
    case False
    then have hi: "hi = lo - 1" using less.prems by simp
    have "intsetSearch_loop s v lo hi mid cur = Some (lo, mid, cur)"
      using False by (subst intsetSearch_loop.simps) simp
    then show ?thesis
      using False less.prems below_above_notin [of "vals cs" "sint v" lo]
      by (auto simp: search_post_def hi)
  next
    case True
    define m where "m = (lo + hi) div 2"
    have m: "lo \<le> m" "m \<le> hi" using True by (simp_all add: m_def)
    then have mn: "nat m < length cs" "int (nat m) = m" using less.prems by simp_all
    let ?c = "elem_val (cs ! nat m)"
    have xm: "vals cs ! nat m = sint ?c" using mn by simp
    have step: "intsetSearch_loop s v lo hi mid cur =
        (if ?c <s v then intsetSearch_loop s v (m + 1) hi m ?c
         else if v <s ?c then intsetSearch_loop s v lo (m - 1) m ?c
         else Some (lo, m, ?c))"
    proof -
      have "uint (drop_bit 1 (word_of_int lo + word_of_int hi :: u32)) = m"
        using True less.prems assms(3) by (simp only: m_def) (intro mid_value, simp_all)
      moreover have "priv_intsetGet s (nat m) = Some ?c"
        using assms(1) mn by (simp add: Get_rep)
      ultimately show ?thesis
        using True by (subst intsetSearch_loop.simps) (simp only: Let_def bind.simps if_True)
    qed
    consider (right) "sint ?c < sint v" | (left) "sint v < sint ?c" | (eq) "sint v = sint ?c"
      by linarith
    then show ?thesis
    proof cases
      case right
      then have "?c \<noteq> v" by auto
      moreover have "below (vals cs) (sint v) (m + 1)"
        using sorted_below [OF assms(2), of "nat m" "sint v"] right mn xm by simp
      ultimately show ?thesis
        using right less.hyps [of hi "m + 1" ?c m] less.prems m by (simp add: step sless_sint)
    next
      case left
      then have "?c \<noteq> v" by auto
      moreover have "over (vals cs) (sint v) (m - 1)"
        using sorted_above [OF assms(2), of "nat m" "sint v"] left mn xm by simp
      ultimately show ?thesis
        using left less.hyps [of "m - 1" lo ?c m] less.prems m by (simp add: step sless_sint)
    next
      case eq
      then have "v = ?c" by (rule sint_inj)
      then have "intsetSearch_loop s v lo hi mid cur = Some (lo, m, v)"
        unfolding step by (simp add: sless_sint)
      then show ?thesis
        using \<open>v = ?c\<close> mn m less.prems by (simp add: search_post_def)
    qed
  qed
qed


text \<open>The two representations of an intset: its fields and its list of elements.\<close>

definition irep :: "intset \<Rightarrow> nat \<Rightarrow> buffer list \<Rightarrow> bool" where
  "irep s e cs \<longleftrightarrow> rep s e cs \<and> length cs = unat (is_length s) \<and> sorted_wrt (<) (vals cs)"

lemma intsetSearch_correct:
  assumes "irep s e cs" and "unat (is_length s) < 2 ^ 31"
  shows "\<exists>found pos. intsetSearch s v = Some (found, pos) \<and>
    search_post (vals cs) (sint v) (found, unat pos)"
proof (cases "is_length s = 0")
  case True
  then have "intsetSearch s v = Some (False, 0)"
    by (simp add: intsetSearch_def)
  then show ?thesis
    using assms True by (auto simp: irep_def search_post_def below_def over_def)
next
  case False
  note r = assms(1) [unfolded irep_def]
  define n where "n = length cs"
  have n: "0 < n" "n < 2 ^ 31" "n = unat (is_length s)"
    using False r assms(2) by (auto simp: n_def unat_gt_0 simp del: length_greater_0_conv)
  have "unat (is_length s - 1) = n - 1"
    using n unat_pred [of "is_length s"] by simp
  then have "uint (is_length s - 1) = int n - 1"
    using n by (simp only: uint_nat)
  then have hi: "sint (is_length s - 1) = int n - 1"
    using n(1,2) by (simp add: sint_uint_cases)
  have rp: "rep s e cs" and srt: "sorted_wrt (<) (vals cs)" and len: "length cs = n"
    using r by (simp_all add: n_def)
  have [simp]: "unat (is_length s) = n" using n(3) by simp
  have nth: "vals cs ! i = sint (elem_val (cs ! i))" if "i < n" for i
    using that by (simp add: len)
  have "nat (int n - 1) = n - 1" using n(1) by simp
  then have last: "priv_intsetGet s (nat (int n - 1)) = Some (elem_val (cs ! (n - 1)))"
    using n(1) Get_rep [OF rp, of "n - 1"] by (simp add: len)
  have first: "priv_intsetGet s 0 = Some (elem_val (cs ! 0))"
    using n(1) Get_rep [OF rp, of 0] by (simp add: len)
  consider (big) "sint (elem_val (cs ! (n - 1))) < sint v" | (small) "sint v < sint (elem_val (cs ! 0))"
      "\<not> sint (elem_val (cs ! (n - 1))) < sint v"
    | (mid) "\<not> sint (elem_val (cs ! (n - 1))) < sint v" "\<not> sint v < sint (elem_val (cs ! 0))"
    by blast
  then show ?thesis
  proof cases
    case big
    have "below (vals cs) (sint v) (int (n - 1) + 1)"
      using n(1) nth big by (intro sorted_below [OF srt]) (simp_all add: len)
    then have "below (vals cs) (sint v) (int n)"
      using n(1) by simp
    moreover have "over (vals cs) (sint v) (int n - 1)"
      by (auto simp: over_def len)
    moreover have "intsetSearch s v = Some (False, is_length s)"
      using big False by (simp add: intsetSearch_def hi last sless_sint)
    ultimately show ?thesis
      using below_above_notin [of "vals cs" "sint v" "int n"]
      by (auto simp: search_post_def len)
  next
    case small
    have "over (vals cs) (sint v) (int 0 - 1)"
      using n(1) nth small by (intro sorted_above [OF srt]) (simp_all add: len)
    moreover have "below (vals cs) (sint v) 0"
      by (simp add: below_def)
    moreover have "intsetSearch s v = Some (False, 0)"
      using small False by (simp add: intsetSearch_def hi last first sless_sint)
    ultimately show ?thesis
      using below_above_notin [of "vals cs" "sint v" 0]
      by (auto simp: search_post_def)
  next
    case mid
    obtain lo' mid' cur' where l: "intsetSearch_loop s v 0 (int n - 1) (- 1) (- 1) = Some (lo', mid', cur')"
      "0 \<le> lo'" "cur' = v \<longrightarrow> 0 \<le> mid'"
      and post: "search_post (vals cs) (sint v) (cur' = v, nat (if cur' = v then mid' else lo'))"
      using n(1,2) intsetSearch_loop_correct [OF rp srt, of 0 "int n - 1" v "-1" "-1"]
      by (auto simp: below_def over_def len)
    define p where "p = (if cur' = v then mid' else lo')"
    have "nat p \<le> n" and "0 \<le> p"
      using post l by (auto simp: p_def search_post_def len split: if_splits)
    then have "unat (word_of_int p :: u32) = nat p"
      using n(2) by (simp add: unsigned_of_int take_bit_int_eq_self nat_less_iff)
    moreover have "intsetSearch s v = Some (cur' = v, word_of_int p)"
      using mid False l p_def by (auto simp: intsetSearch_def hi last first sless_sint)
    ultimately show ?thesis
      using post p_def by simp
  qed
qed

section \<open>Insertion, removal, upgrade\<close>

lemma length_zrealloc [simp]: "length (zrealloc junk xs n) = n"
  by (auto simp: zrealloc_def)

lemma size_word:
  assumes "enc_ok e"
  shows "unat ((ucast len :: u64) * ucast (of_nat e :: u32)) = e * unat (len :: u32)"
proof -
  have "unat (ucast len :: u64) = unat len" and "unat (ucast (of_nat e :: u32) :: u64) = e"
    using assms by (auto simp: enc_ok_def unsigned_ucast_eq take_bit_nat_eq_self order_less_le_trans [OF unsigned_less])
  moreover have "unat len < 2 ^ 32"
    using unsigned_less [of len] by simp
  then have "unat len * e < 2 ^ 64"
    using assms by (auto simp: enc_ok_def)
  ultimately show ?thesis
    by (simp add: unat_word_ariths mult.commute)
qed

lemma Resize_contents:
  assumes "enc_ok e" and "is_encoding s = of_nat e"
  shows "intsetResize junk s len = s\<lparr>is_contents := zrealloc junk (is_contents s) (e * unat len)\<rparr>"
  using assms by (simp add: intsetResize_def size_word)

text \<open>Growing an array by one element adds an element of unknown value.\<close>

lemma zrealloc_concat_Suc:
  assumes "all_len e cs"
  shows "\<exists>x. zrealloc junk (concat cs) (e * Suc (length cs)) = concat (cs @ [x]) \<and> length x = e"
proof -
  let ?x = "map junk [e * length cs..<e * Suc (length cs)]"
  have "zrealloc junk (concat cs) (e * Suc (length cs)) = concat (cs @ [?x])"
    using assms by (simp add: zrealloc_def length_concat_all_len)
  then show ?thesis by (intro exI [of _ ?x]) simp
qed

lemma zrealloc_concat_take:
  assumes "all_len e cs" and "n \<le> length cs"
  shows "zrealloc junk (concat cs) (e * n) = concat (take n cs)"
  using assms by (simp add: zrealloc_def length_concat_all_len take_concat)

lemma MoveTail_rep:
  assumes "rep s e cs" and "8 * unat (is_length s - from) < 2 ^ 32"
    and "unat from + unat (is_length s - from) \<le> length cs"
    and "unat to + unat (is_length s - from) \<le> length cs"
  shows "\<exists>s'. intsetMoveTail s from to = Some s' \<and> is_length s' = is_length s \<and>
    rep s' e (take (unat to) cs @ take (unat (is_length s - from)) (drop (unat from) cs) @
      drop (unat to + unat (is_length s - from)) cs)"
proof -
  let ?k = "unat (is_length s - from)"
  let ?mid = "take ?k (drop (unat from) cs)"
  have e: "enc_ok e" "is_encoding s = of_nat e" "all_len e cs" "is_contents s = concat cs"
    using assms(1) by (auto simp: rep_def)
  have "?k * e < 2 ^ 32"
    using e(1) assms(2) by (auto simp: enc_ok_def)
  then have b: "unat ((is_length s - from) * of_nat e) = e * ?k"
    using of_nat_enc(3) [OF e(1)] by (simp add: unat_word_ariths(2) mult.commute)
  have sz: "(if is_encoding s = INTSET_ENC_INT64 then 8 else if is_encoding s = INTSET_ENC_INT32 then 4 else 2) = e"
    using e(1,2) by (auto simp: of_nat_enc enc_ok_def)
  have l: "length ?mid = ?k" using assms(3) by simp
  have "rdn (concat cs) (e * unat from) (e * ?k) = Some (concat ?mid)"
    using e(3) assms(3) by (rule rdn_concat)
  moreover have "wrn (concat cs) (e * unat to) (concat ?mid) =
      Some (concat (take (unat to) cs @ ?mid @ drop (unat to + ?k) cs))"
    using wrn_concat [of e cs ?mid "unat to"] e(3) assms(4) l
    by (simp add: all_len_take all_len_drop)
  ultimately show ?thesis
    unfolding intsetMoveTail_def Let_def sz b e(4)
    using e by (simp add: rep_def all_len_take all_len_drop)
qed


lemma sorted_insert:
  assumes "sorted_wrt (<) xs" and "pos \<le> length xs" and "below xs v (int pos)" and "over xs v (int pos - 1)"
  shows "sorted_wrt (<) (take pos xs @ v # drop pos xs)"
proof -
  have lo: "y < v" if "y \<in> set (take pos xs)" for y
    using that assms(2,3) by (auto simp: below_def in_set_conv_nth)
  have hi: "v < y" if y: "y \<in> set (drop pos xs)" for y
  proof -
    obtain j where "j < length xs - pos" "y = xs ! (pos + j)"
      using y by (auto simp: in_set_conv_nth)
    then show ?thesis
      using assms(4) by (simp add: over_def)
  qed
  have "sorted_wrt (<) (take pos xs)" "sorted_wrt (<) (drop pos xs)"
    using assms(1) by (simp_all add: sorted_wrt_take sorted_wrt_drop)
  then show ?thesis
    using lo hi by (fastforce simp: sorted_wrt_append)
qed

lemma unat_Suc: "unat (w :: u32) < 2 ^ 32 - 1 \<Longrightarrow> unat (w + 1) = Suc (unat w)"
  by (simp add: unat_word_ariths)

text \<open>Insertion without upgrade: the tail moves one element up and the value fills the gap.\<close>

lemma insert_in_place:
  assumes "irep s e cs" and "unat (is_length s) < 2 ^ 29" and "unat pos \<le> length cs"
  shows "\<exists>s'. do { s1 \<leftarrow> (if pos < is_length (intsetResize junk s (is_length s + 1))
        then intsetMoveTail (intsetResize junk s (is_length s + 1)) pos (pos + 1)
        else Some (intsetResize junk s (is_length s + 1)));
      priv_intsetSet s1 (unat pos) v } = Some s' \<and>
    is_length s' = is_length s \<and> rep s' e (take (unat pos) cs @ le_enc e v # drop (unat pos) cs)"
proof -
  let ?n = "length cs" and ?p = "unat pos"
  have rp: "rep s e cs" and n: "unat (is_length s) = ?n"
    using assms(1) by (auto simp: irep_def)
  then have e: "enc_ok e" "is_encoding s = of_nat e" "all_len e cs" "is_contents s = concat cs"
    by (auto simp: rep_def)
  have n1: "unat (is_length s + 1) = Suc ?n"
    using assms(2) n by (simp add: unat_Suc)
  obtain x where x: "zrealloc junk (concat cs) (e * Suc ?n) = concat (cs @ [x])" "length x = e"
    using zrealloc_concat_Suc [OF e(3)] by blast
  define t where "t = intsetResize junk s (is_length s + 1)"
  have t: "rep t e (cs @ [x])" "is_length t = is_length s"
    using e x by (simp_all add: t_def rep_def Resize_contents n1)
  have gap: "(take (Suc ?p) (cs @ [x]) @ drop ?p cs)[?p := w] = take ?p cs @ w # drop ?p cs" for w
    using assms(3) by (cases "?p = ?n") (auto simp: take_Suc_conv_app_nth list_update_append nth_append)
  have "\<exists>s1. (if pos < is_length t then intsetMoveTail t pos (pos + 1) else Some t) = Some s1 \<and>
      is_length s1 = is_length s \<and> rep s1 e (take (Suc ?p) (cs @ [x]) @ drop ?p cs)"
  proof (cases "pos < is_length t")
    case True
    then have lt: "?p < ?n" using t n by (simp add: word_less_nat_alt)
    have k: "unat (is_length t - pos) = ?n - ?p"
      using True t n by (simp add: unat_sub less_imp_le)
    have p1: "unat (pos + 1) = Suc ?p"
      using lt n assms(2) by (simp add: unat_Suc)
    show ?thesis
      using MoveTail_rep [OF t(1), of pos "pos + 1"] True lt k p1 n assms(2) t(2) by simp
  next
    case False
    then have "?p = ?n" using t n assms(3) by (simp add: word_less_nat_alt)
    then show ?thesis using False t by simp
  qed
  then obtain s1 where s1: "(if pos < is_length t then intsetMoveTail t pos (pos + 1) else Some t) = Some s1"
      "is_length s1 = is_length s" "rep s1 e (take (Suc ?p) (cs @ [x]) @ drop ?p cs)"
    by blast
  have "\<exists>s'. priv_intsetSet s1 ?p v = Some s' \<and> is_length s' = is_length s \<and>
      rep s' e (take ?p cs @ le_enc e v # drop ?p cs)"
  proof -
    have l: "?p < length (take (Suc ?p) (cs @ [x]) @ drop ?p cs)"
      using assms(3) by simp
    show ?thesis
      using Set_rep [OF s1(3) l, of v] s1(2) unfolding gap by auto
  qed
  then show ?thesis
    unfolding t_def [symmetric] s1(1) by simp
qed

text \<open>Removal: the tail moves one element down and the last element is cut off.\<close>

lemma remove_in_place:
  assumes "irep s e cs" and "unat (is_length s) \<le> 2 ^ 29" and "unat pos < length cs"
  shows "\<exists>s'. (if pos < is_length s - 1 then intsetMoveTail s (pos + 1) pos else Some s) = Some s' \<and>
    rep (intsetResize junk s' (is_length s - 1)) e (take (unat pos) cs @ drop (Suc (unat pos)) cs)"
proof -
  let ?n = "length cs" and ?p = "unat pos"
  have rp: "rep s e cs" and n: "unat (is_length s) = ?n"
    using assms(1) by (auto simp: irep_def)
  have n1: "unat (is_length s - 1) = ?n - 1"
    using assms(3) n unat_pred [of "is_length s"] by (cases cs) auto
  have "\<exists>s'. (if pos < is_length s - 1 then intsetMoveTail s (pos + 1) pos else Some s) = Some s' \<and>
      (\<exists>ds. rep s' e ds \<and> length ds = ?n \<and> take (?n - 1) ds = take ?p cs @ drop (Suc ?p) cs)"
  proof (cases "pos < is_length s - 1")
    case True
    then have lt: "?p < ?n - 1" using n1 by (simp add: word_less_nat_alt)
    have p1: "unat (pos + 1) = Suc ?p"
      using lt n assms(2) by (simp add: unat_Suc)
    have k: "unat (is_length s - (pos + 1)) = ?n - Suc ?p"
      using lt n p1 by (simp add: unat_sub word_le_nat_alt)
    have "\<exists>s'. intsetMoveTail s (pos + 1) pos = Some s' \<and>
        rep s' e (take ?p cs @ drop (Suc ?p) cs @ drop (?n - 1) cs)"
    proof -
      have "8 * unat (is_length s - (pos + 1)) < 2 ^ 32"
        using k lt n assms(2) by simp
      moreover have "?p + (?n - Suc ?p) = ?n - 1"
        using lt by simp
      moreover have "Suc (?n - Suc 0) \<le> ?n"
        using lt by simp
      ultimately show ?thesis
        using MoveTail_rep [OF rp, of "pos + 1" pos] lt k p1 n by auto
    qed
    then show ?thesis
      using True lt by (fastforce intro: exI [of _ "take ?p cs @ drop (Suc ?p) cs @ drop (?n - 1) cs"])
  next
    case False
    then have "?p = ?n - 1" using n1 assms(3) by (simp add: word_less_nat_alt)
    then show ?thesis using False rp by auto
  qed
  then obtain s' ds where a: "(if pos < is_length s - 1 then intsetMoveTail s (pos + 1) pos else Some s) = Some s'"
      "rep s' e ds" "length ds = ?n" "take (?n - 1) ds = take ?p cs @ drop (Suc ?p) cs"
    by blast
  have "rep (intsetResize junk s' (is_length s - 1)) e (take (?n - 1) ds)"
  proof -
    have d: "enc_ok e" "is_encoding s' = of_nat e" "all_len e ds" "is_contents s' = concat ds"
      using a(2) by (auto simp: rep_def)
    show ?thesis
      unfolding Resize_contents [OF d(1,2)] rep_def
      using d a(3) by (simp add: n1 zrealloc_concat_take all_len_take)
  qed
  then show ?thesis
    using a(1,4) by simp
qed


text \<open>
  The upgrade runs over the elements from the last to the first. Before element \<open>k\<close> is
  converted, the first \<open>e * k\<close> bytes still hold the old elements.
\<close>

lemma upgrade_loop_rep:
  assumes "enc_ok e" and "enc_ok e'" and "e \<le> e'" and "all_len e cs" and "k \<le> length cs"
    and "is_encoding s = of_nat e'" and "is_contents s = X @ Y"
    and "length X = e' * (k + p)" and "take (e * k) X = concat (take k cs)"
  shows "\<exists>s' X'. intsetUpgrade_loop k (of_nat e) p s = Some s' \<and> is_length s' = is_length s \<and>
    is_encoding s' = of_nat e' \<and> length X' = e' * p \<and>
    is_contents s' = X' @ concat (map (\<lambda>x. le_enc e' (elem_val x)) (take k cs)) @ Y"
  using assms(5-9)
proof (induction k arbitrary: s X Y)
  case 0
  then show ?case by (auto intro: exI [of _ X])
next
  case (Suc k)
  let ?x = "cs ! k"
  have k: "k < length cs" using Suc.prems by simp
  have lx: "length X = e' * (k + p) + e'" using Suc.prems(4) by (simp add: algebra_simps)
  have bound: "e * k \<le> e' * (k + p)"
    using assms(3) by (intro mult_le_mono) auto
  have ek: "e * Suc k \<le> length X"
    using bound assms(3) lx by simp
  have old: "take (e * Suc k) X = concat (take k cs) @ ?x"
    using Suc.prems(5) k by (simp add: take_Suc_conv_app_nth)
  have lc: "length (concat (take k cs)) = e * k" "length ?x = e"
    using assms(4) k length_concat_all_len [OF all_len_take [OF assms(4)], of k]
    by (simp_all add: all_len_nth)
  have "take e (drop (e * k) X) = drop (e * k) (take (e * Suc k) X)"
    by (simp add: drop_take)
  also have "\<dots> = ?x" using old lc by simp
  finally have rd: "rdn (is_contents s) (e * k) e = Some ?x"
    using ek Suc.prems(3) by (simp add: rdn_def)
  then have get: "priv_intsetGetEncoded s k (of_nat e) = Some (elem_val ?x)"
    using assms(1) by (rule GetEncoded_rep [rotated])
  let ?X = "take (e' * (k + p)) X" and ?Y = "le_enc e' (elem_val ?x) @ Y"
  have "wrn (is_contents s) (e' * (k + p)) (le_enc e' (elem_val ?x)) = Some (?X @ ?Y)"
    using lx Suc.prems(3) by (simp add: wrn_def)
  then have set: "priv_intsetSet s (k + p) (elem_val ?x) = Some (s\<lparr>is_contents := ?X @ ?Y\<rparr>)"
    using assms(2) Suc.prems(2) by (intro Set_wrn) simp_all
  have "take (e * k) ?X = concat (take k cs)"
  proof -
    have "take (e * k) ?X = take (e * k) (take (e * Suc k) X)"
      using bound by (simp add: min_def)
    also have "\<dots> = take (e * k) (concat (take k cs) @ ?x)"
      by (simp only: old)
    finally show ?thesis using lc by simp
  qed
  then obtain s' X' where "intsetUpgrade_loop k (of_nat e) p (s\<lparr>is_contents := ?X @ ?Y\<rparr>) = Some s'"
      "is_length s' = is_length s" "is_encoding s' = of_nat e'" "length X' = e' * p"
      "is_contents s' = X' @ concat (map (\<lambda>x. le_enc e' (elem_val x)) (take k cs)) @ ?Y"
    using Suc.IH [of "s\<lparr>is_contents := ?X @ ?Y\<rparr>" ?X ?Y] Suc.prems k lx by auto
  then show ?case
    using get set k by (simp add: take_Suc_conv_app_nth)
qed

lemma upgrade_rep:
  assumes "irep s e cs" and "unat (is_length s) < 2 ^ 29" and "enc_ok e'" and "e < e'"
    and "priv_intsetValueEncoding v = of_nat e'"
  shows "\<exists>s'. intsetUpgradeAndAdd junk s v = Some s' \<and> is_length s' = is_length s + 1 \<and>
    rep s' e' (let us = map (\<lambda>x. le_enc e' (elem_val x)) cs in
      if v <s 0 then le_enc e' v # us else us @ [le_enc e' v])"
proof -
  let ?n = "length cs" and ?us = "map (\<lambda>x. le_enc e' (elem_val x)) cs"
  define p where "p = (if v <s 0 then 1 else 0 :: nat)"
  have rp: "rep s e cs" and n: "unat (is_length s) = ?n"
    using assms(1) by (auto simp: irep_def)
  then have e: "enc_ok e" "all_len e cs" "is_contents s = concat cs"
    by (auto simp: rep_def)
  have n1: "unat (is_length s + 1) = Suc ?n"
    using assms(2) n by (simp add: unat_Suc)
  define t where "t = intsetResize junk (s\<lparr>is_encoding := of_nat e'\<rparr>) (is_length s + 1)"
  let ?c = "zrealloc junk (concat cs) (e' * Suc ?n)"
  have t: "is_encoding t = of_nat e'" "is_length t = is_length s" "is_contents t = ?c"
    using assms(3) e by (simp_all add: t_def Resize_contents n1)
  have old: "take (e * ?n) ?c = concat cs"
  proof -
    have "e * ?n \<le> e' * Suc ?n"
      using assms(4) by (intro mult_le_mono) auto
    then show ?thesis
      using e by (simp add: zrealloc_def length_concat_all_len)
  qed
  have "e * ?n \<le> e' * (?n + p)"
    using assms(4) by (intro mult_le_mono) auto
  then have "take (e * ?n) (take (e' * (?n + p)) ?c) = concat (take ?n cs)"
    using old by (simp add: min_def)
  moreover have "length (take (e' * (?n + p)) ?c) = e' * (?n + p)"
    by (simp add: p_def)
  ultimately obtain s1 X' where s1: "intsetUpgrade_loop ?n (of_nat e) p t = Some s1"
      "is_length s1 = is_length s" "is_encoding s1 = of_nat e'" "length X' = e' * p"
      "is_contents s1 = X' @ concat ?us @ drop (e' * (?n + p)) ?c"
    using upgrade_loop_rep [of e e' cs ?n t "take (e' * (?n + p)) ?c" "drop (e' * (?n + p)) ?c" p]
      e assms(3,4) t by auto
  have us: "all_len e' ?us" by (simp add: all_len_def)
  let ?i = "if p \<noteq> 0 then 0 else ?n"
  have "\<exists>ds. rep s1 e' ds \<and> length ds = Suc ?n \<and>
      ds[?i := le_enc e' v] = (if v <s 0 then le_enc e' v # ?us else ?us @ [le_enc e' v])"
  proof (cases "v <s 0")
    case True
    then show ?thesis
      using s1 us assms(3) by (intro exI [of _ "X' # ?us"]) (simp add: rep_def p_def)
  next
    case False
    let ?y = "drop (e' * ?n) ?c"
    have "length ?y = e'" by simp
    then show ?thesis
      using False s1 us assms(3)
      by (intro exI [of _ "?us @ [?y]"]) (simp add: rep_def p_def list_update_append)
  qed
  then obtain ds where ds: "rep s1 e' ds" "length ds = Suc ?n"
      "ds[?i := le_enc e' v] = (if v <s 0 then le_enc e' v # ?us else ?us @ [le_enc e' v])"
    by blast
  have "?i < length ds" using ds(2) by simp
  then obtain s2 where s2: "priv_intsetSet s1 ?i v = Some s2" "is_length s2 = is_length s"
      "rep s2 e' (if v <s 0 then le_enc e' v # ?us else ?us @ [le_enc e' v])"
    using Set_rep [OF ds(1), of ?i v] ds(3) s1(2) by auto
  have "rep (s2\<lparr>is_length := is_length s + 1\<rparr>) e' (if v <s 0 then le_enc e' v # ?us else ?us @ [le_enc e' v])"
    using s2(3) by (simp add: rep_def)
  moreover have "is_encoding s = of_nat e" using rp by (simp add: rep_def)
  then have "intsetUpgradeAndAdd junk s v =
      do { s \<leftarrow> intsetUpgrade_loop ?n (of_nat e) p t;
           s \<leftarrow> priv_intsetSet s (if p \<noteq> 0 then 0 else unat (is_length s)) v;
           Some (s\<lparr>is_length := is_length s + 1\<rparr>) }"
    unfolding intsetUpgradeAndAdd_def Let_def assms(5) t_def p_def by (simp add: n)
  then have "intsetUpgradeAndAdd junk s v = Some (s2\<lparr>is_length := is_length s + 1\<rparr>)"
    using s1(1,2) s2(1,2) n by (cases "p = 0") simp_all
  ultimately show ?thesis
    by (simp add: Let_def)
qed

section \<open>The invariant and the abstract set\<close>

text \<open>The elements as byte strings, and the values they hold.\<close>

definition intset_cells :: "intset \<Rightarrow> buffer list" where
  "intset_cells s = map (\<lambda>i. take (unat (is_encoding s)) (drop (unat (is_encoding s) * i) (is_contents s)))
     [0..<unat (is_length s)]"

definition intset_vals :: "intset \<Rightarrow> u64 list" where
  "intset_vals s = map elem_val (intset_cells s)"

definition intset_inv :: "intset \<Rightarrow> bool" where
  "intset_inv s \<longleftrightarrow> enc_ok (unat (is_encoding s)) \<and>
     length (is_contents s) = unat (is_encoding s) * unat (is_length s) \<and>
     sorted_wrt (<) (map sint (intset_vals s))"

lemma concat_cells:
  "length xs = e * n \<Longrightarrow> concat (map (\<lambda>i. take e (drop (e * i) xs)) [0..<n]) = xs"
proof (induction n arbitrary: xs)
  case (Suc n)
  have eq: "map (\<lambda>i. take e (drop (e * i) xs)) [0..<n] =
      map (\<lambda>i. take e (drop (e * i) (take (e * n) xs))) [0..<n]"
  proof (rule map_cong [OF refl])
    fix i assume "i \<in> set [0..<n]"
    then have "e * i + e \<le> e * n"
      using mult_le_mono2 [of "Suc i" n e] by simp
    then show "take e (drop (e * i) xs) = take e (drop (e * i) (take (e * n) xs))"
      by (simp add: drop_take min_def)
  qed
  have "concat (map (\<lambda>i. take e (drop (e * i) xs)) [0..<n]) = take (e * n) xs"
    unfolding eq by (rule Suc.IH) (simp add: Suc.prems)
  then show ?case
    using Suc.prems by simp
qed simp

lemma cells_concat:
  assumes "all_len e cs"
  shows "map (\<lambda>i. take e (drop (e * i) (concat cs))) [0..<length cs] = cs"
proof (rule nth_equalityI)
  fix i assume "i < length (map (\<lambda>i. take e (drop (e * i) (concat cs))) [0..<length cs])"
  then have i: "i < length cs" by simp
  then show "map (\<lambda>i. take e (drop (e * i) (concat cs))) [0..<length cs] ! i = cs ! i"
    using rdn_concat_1 [OF assms i] by (simp add: rdn_def split: if_splits)
qed simp

lemma irep_inv:
  assumes "irep s e cs"
  shows "intset_inv s" and "intset_vals s = map elem_val cs"
proof -
  have r: "enc_ok e" "is_encoding s = of_nat e" "all_len e cs" "is_contents s = concat cs"
      "length cs = unat (is_length s)" "sorted_wrt (<) (vals cs)"
    using assms by (auto simp: irep_def rep_def)
  have cells: "intset_cells s = cs"
    using cells_concat [OF r(3)] r by (simp add: intset_cells_def of_nat_enc)
  show "intset_vals s = map elem_val cs"
    by (simp add: intset_vals_def cells)
  then show "intset_inv s"
    using r by (simp add: intset_inv_def of_nat_enc length_concat_all_len comp_def)
qed

lemma intset_header_rep:
  assumes "enc_ok (unat (is_encoding s))" and "length (is_contents s) = unat (is_encoding s) * unat (is_length s)"
  shows "rep s (unat (is_encoding s)) (intset_cells s)"
proof -
  let ?e = "unat (is_encoding s)"
  have "length (take ?e (drop (?e * k) (is_contents s))) = ?e" if "k < unat (is_length s)" for k
  proof -
    have "?e * k + ?e \<le> ?e * unat (is_length s)"
      using mult_le_mono2 [of "Suc k" "unat (is_length s)" ?e] that by simp
    then show ?thesis using assms(2) by simp
  qed
  then have "all_len ?e (intset_cells s)"
    by (auto simp: all_len_def intset_cells_def)
  then show ?thesis
    using assms concat_cells [OF assms(2)] by (simp add: rep_def intset_cells_def)
qed

lemma inv_irep:
  assumes "intset_inv s"
  shows "irep s (unat (is_encoding s)) (intset_cells s)"
  using assms intset_header_rep [of s]
  by (simp add: irep_def intset_inv_def intset_vals_def comp_def) (simp add: intset_cells_def)

definition intset_abs :: "intset \<Rightarrow> u64 set" where
  "intset_abs s = set (intset_vals s)"

lemma intset_abs_vals: "irep s e cs \<Longrightarrow> sint v \<in> set (vals cs) \<longleftrightarrow> v \<in> intset_abs s"
  by (auto simp: intset_abs_def irep_inv(2) dest: sint_inj)

text \<open>A value that needs a wider encoding is not in the set.\<close>

lemma wide_notin:
  assumes "irep s e cs" and "is_encoding s < priv_intsetValueEncoding v"
  shows "v \<notin> intset_abs s" 
    and "\<exists>e'. enc_ok e' \<and> e < e' \<and> priv_intsetValueEncoding v = of_nat e' \<and> fits e' v \<and> \<not> fits e v"
proof -
  have e: "enc_ok e" "is_encoding s = of_nat e" "all_len e cs"
    using assms(1) by (auto simp: irep_def rep_def)
  obtain e' where e': "priv_intsetValueEncoding v = of_nat e'" "enc_ok e'"
      "\<And>d. enc_ok d \<Longrightarrow> fits d v \<longleftrightarrow> e' \<le> d"
    using value_encoding by blast
  have "e < e'"
    using assms(2) e e' by (simp add: word_less_nat_alt of_nat_enc)
  then show "\<exists>e'. enc_ok e' \<and> e < e' \<and> priv_intsetValueEncoding v = of_nat e' \<and> fits e' v \<and> \<not> fits e v"
    using e' e(1) by auto
  then show "v \<notin> intset_abs s"
    using e(1,3) elem_val_fits by (auto simp: intset_abs_def irep_inv(2) [OF assms(1)] all_len_def)
qed

lemma narrow_fits:
  assumes "irep s e cs" and "\<not> is_encoding s < priv_intsetValueEncoding v"
  shows "fits e v"
proof -
  have e: "enc_ok e" "is_encoding s = of_nat e"
    using assms(1) by (auto simp: irep_def rep_def)
  obtain e' where e': "priv_intsetValueEncoding v = of_nat e'" "enc_ok e'"
      "\<And>d. enc_ok d \<Longrightarrow> fits d v \<longleftrightarrow> e' \<le> d"
    using value_encoding by blast
  show ?thesis
    using assms(2) e e' by (simp add: word_less_nat_alt of_nat_enc)
qed

section \<open>Correctness of the operations\<close>

lemma search_post_found: "search_post xs v (found, pos) \<Longrightarrow> found \<longleftrightarrow> v \<in> set xs"
  by (auto simp: search_post_def split: if_splits)

lemma intsetFind_irep:
  assumes "irep s e cs" and "unat (is_length s) < 2 ^ 31"
  shows "intsetFind s v = Some (v \<in> intset_abs s)"
proof (cases "is_encoding s < priv_intsetValueEncoding v")
  case True
  then show ?thesis using wide_notin(1) [OF assms(1)] by (simp add: intsetFind_def)
next
  case False
  obtain found pos where "intsetSearch s v = Some (found, pos)" "search_post (vals cs) (sint v) (found, unat pos)"
    using intsetSearch_correct [OF assms] by blast
  then show ?thesis
    using False search_post_found [of "vals cs" "sint v" found "unat pos"] intset_abs_vals [OF assms(1), of v]
    by (simp add: intsetFind_def del: set_map)
qed

text \<open>The upgraded set: the old values all fit the old encoding, so the new one is at an end.\<close>

lemma upgrade_sorted:
  assumes "irep s e cs" and "enc_ok e'" and "e < e'" and "fits e' v" and "\<not> fits e v"
  shows "sorted_wrt (<) (vals (if v <s 0 then le_enc e' v # map (\<lambda>x. le_enc e' (elem_val x)) cs
    else map (\<lambda>x. le_enc e' (elem_val x)) cs @ [le_enc e' v]))"
proof -
  have e: "enc_ok e" "all_len e cs" "sorted_wrt (<) (vals cs)"
    using assms(1) by (auto simp: irep_def rep_def)
  have f: "fits e (elem_val x)" if "x \<in> set cs" for x
    using elem_val_fits [of x] e(1,2) that by (simp add: all_len_def)
  have us: "map ((\<lambda>x. sint (elem_val x)) \<circ> (\<lambda>x. le_enc e' (elem_val x))) cs = vals cs"
  proof -
    have "fits e' (elem_val x)" if "x \<in> set cs" for x
      using fits_mono [OF f [OF that], of e'] assms(3) by simp
    then show ?thesis
      using elem_val_le_enc [OF assms(2)] by simp
  qed
  have neg: "(0::int) < 2 ^ (8 * e - 1)" by simp
  show ?thesis
  proof (cases "v <s 0")
    case True
    then have "sint v < - (2 ^ (8 * e - 1))"
      using assms(5) neg by (auto simp: fits_def sless_sint)
    then have "sint v < sint (elem_val x)" if "x \<in> set cs" for x
      using f [OF that] by (simp add: fits_def)
    then show ?thesis
      using True e(3) elem_val_le_enc [OF assms(2,4)] by (simp add: us)
  next
    case False
    then have "2 ^ (8 * e - 1) \<le> sint v"
      using assms(5) neg by (auto simp: fits_def sless_sint)
    then have "sint (elem_val x) < sint v" if "x \<in> set cs" for x
      using f [OF that] by (simp add: fits_def)
    then show ?thesis
      using False e(3) elem_val_le_enc [OF assms(2,4)] by (simp add: us sorted_wrt_append)
  qed
qed

lemma upgraded_irep:
  assumes "irep s e cs" and "unat (is_length s) < 2 ^ 29" and "is_encoding s < priv_intsetValueEncoding v"
  shows "\<exists>s' e' ds. intsetUpgradeAndAdd junk s v = Some s' \<and> is_length s' = is_length s + 1 \<and>
    irep s' e' ds \<and> set (map elem_val ds) = insert v (set (map elem_val cs))"
proof -
  obtain e' where e': "enc_ok e'" "e < e'" "priv_intsetValueEncoding v = of_nat e'" "fits e' v" "\<not> fits e v"
    using wide_notin(2) [OF assms(1,3)] by blast
  have e: "enc_ok e" "all_len e cs" and n: "length cs = unat (is_length s)"
    using assms(1) by (auto simp: irep_def rep_def)
  let ?us = "map (\<lambda>x. le_enc e' (elem_val x)) cs"
  let ?ds = "if v <s 0 then le_enc e' v # ?us else ?us @ [le_enc e' v]"
  obtain s' where s': "intsetUpgradeAndAdd junk s v = Some s'" "is_length s' = is_length s + 1" "rep s' e' ?ds"
    using upgrade_rep [OF assms(1,2) e'(1,2,3), of junk] by (auto simp: Let_def)
  have "irep s' e' ?ds"
    using s' upgrade_sorted [OF assms(1) e'(1,2,4,5)] n assms(2) by (simp add: irep_def unat_Suc)
  moreover have "elem_val (le_enc e' (elem_val x)) = elem_val x" if "x \<in> set cs" for x
  proof (rule elem_val_le_enc [OF e'(1)])
    show "fits e' (elem_val x)"
      using elem_val_fits [of x] fits_mono [of e "elem_val x" e'] e e'(2) that by (simp add: all_len_def)
  qed
  then have "set (map elem_val ?ds) = insert v (set (map elem_val cs))"
    using elem_val_le_enc [OF e'(1,4)] by (auto simp: image_image)
  ultimately show ?thesis using s' by blast
qed

lemma inserted_irep:
  assumes "irep s e cs" and "rep s' e (take p cs @ le_enc e v # drop p cs)" and "fits e v"
    and "search_post (vals cs) (sint v) (False, p)" and "unat (is_length s') = Suc (unat (is_length s))"
  shows "irep s' e (take p cs @ le_enc e v # drop p cs)"
    and "set (map elem_val (take p cs @ le_enc e v # drop p cs)) = insert v (set (map elem_val cs))"
proof -
  have e: "enc_ok e" "length cs = unat (is_length s)" "sorted_wrt (<) (vals cs)"
    using assms(1) by (auto simp: irep_def rep_def)
  have p: "p \<le> length cs" "below (vals cs) (sint v) (int p)" "over (vals cs) (sint v) (int p - 1)"
    using assms(4) by (auto simp: search_post_def)
  have ev: "elem_val (le_enc e v) = v"
    using elem_val_le_enc [OF e(1) assms(3)] .
  have "vals (take p cs @ le_enc e v # drop p cs) = take p (vals cs) @ sint v # drop p (vals cs)"
    by (simp add: take_map drop_map ev)
  then have "sorted_wrt (<) (vals (take p cs @ le_enc e v # drop p cs))"
    using sorted_insert [OF e(3) _ p(2,3)] p(1) by simp
  then show "irep s' e (take p cs @ le_enc e v # drop p cs)"
    using assms(2,5) e p(1) by (simp add: irep_def)
  have "elem_val ` set cs = elem_val ` set (take p cs) \<union> elem_val ` set (drop p cs)"
    by (metis append_take_drop_id image_Un set_append)
  then show "set (map elem_val (take p cs @ le_enc e v # drop p cs)) = insert v (set (map elem_val cs))"
    by (simp add: ev)
qed

lemma rep_set_length: "rep (s\<lparr>is_length := n\<rparr>) e cs = rep s e cs"
  by (simp add: rep_def)

lemma intsetAdd_irep:
  assumes "irep s e cs" and "unat (is_length s) < 2 ^ 29"
  shows "\<exists>s' e' ds. intsetAdd junk s v = Some (s', v \<notin> intset_abs s) \<and> irep s' e' ds \<and>
    set (map elem_val ds) = insert v (set (map elem_val cs)) \<and>
    unat (is_length s') = unat (is_length s) + (if v \<in> intset_abs s then 0 else 1)"
proof (cases "is_encoding s < priv_intsetValueEncoding v")
  case True
  obtain s' e' ds where "intsetUpgradeAndAdd junk s v = Some s'" "is_length s' = is_length s + 1"
      "irep s' e' ds" "set (map elem_val ds) = insert v (set (map elem_val cs))"
    using upgraded_irep [OF assms True, of junk] by blast
  then show ?thesis
    using True wide_notin(1) [OF assms(1) True] assms(2)
    by (intro exI [of _ s'] exI [of _ e'] exI [of _ ds]) (simp add: intsetAdd_def unat_Suc)
next
  case False
  have "unat (is_length s) < 2 ^ 31" using assms(2) by simp
  then obtain found pos where f: "intsetSearch s v = Some (found, pos)"
      "search_post (vals cs) (sint v) (found, unat pos)"
    using intsetSearch_correct [OF assms(1)] by blast
  have mem: "found \<longleftrightarrow> v \<in> intset_abs s"
    using search_post_found [OF f(2)] intset_abs_vals [OF assms(1), of v] by simp
  have av: "intset_abs s = set (map elem_val cs)"
    by (simp add: intset_abs_def irep_inv(2) [OF assms(1)])
  show ?thesis
  proof (cases found)
    case found: True
    then show ?thesis
      using False f mem assms(1) av by (auto simp: intsetAdd_def insert_absorb)
  next
    case nf: False
    then have "unat pos \<le> length cs" using f(2) by (simp add: search_post_def)
    then obtain s' where s': "do { s1 \<leftarrow> (if pos < is_length (intsetResize junk s (is_length s + 1))
        then intsetMoveTail (intsetResize junk s (is_length s + 1)) pos (pos + 1)
        else Some (intsetResize junk s (is_length s + 1)));
      priv_intsetSet s1 (unat pos) v } = Some s'" "is_length s' = is_length s"
      "rep s' e (take (unat pos) cs @ le_enc e v # drop (unat pos) cs)"
      using insert_in_place [OF assms, of pos junk v] by blast
    have "intsetAdd junk s v = do { s' \<leftarrow> do { s1 \<leftarrow> (if pos < is_length (intsetResize junk s (is_length s + 1))
        then intsetMoveTail (intsetResize junk s (is_length s + 1)) pos (pos + 1)
        else Some (intsetResize junk s (is_length s + 1)));
      priv_intsetSet s1 (unat pos) v }; Some (s'\<lparr>is_length := is_length s' + 1\<rparr>, True) }"
      using False nf by (simp add: intsetAdd_def f(1) Let_def)
    then have add: "intsetAdd junk s v = Some (s'\<lparr>is_length := is_length s + 1\<rparr>, True)"
      unfolding s'(1) using s'(2) by simp
    have "rep (s'\<lparr>is_length := is_length s + 1\<rparr>) e (take (unat pos) cs @ le_enc e v # drop (unat pos) cs)"
      using s'(3) by (simp add: rep_set_length)
    note ins = inserted_irep [OF assms(1) this narrow_fits [OF assms(1) False]]
    have len: "unat (is_length (s'\<lparr>is_length := is_length s + 1\<rparr>)) = Suc (unat (is_length s))"
      using assms(2) by (simp add: unat_Suc)
    have post: "search_post (vals cs) (sint v) (False, unat pos)"
      using f(2) nf by simp
    show ?thesis
    proof (intro exI conjI)
      show "intsetAdd junk s v = Some (s'\<lparr>is_length := is_length s + 1\<rparr>, v \<notin> intset_abs s)"
        using add mem nf by simp
      show "unat (is_length (s'\<lparr>is_length := is_length s + 1\<rparr>)) =
          unat (is_length s) + (if v \<in> intset_abs s then 0 else 1)"
        using len mem nf by simp
    qed (fact ins [OF post len])+
  qed
qed

lemma removed_irep:
  assumes "irep s e cs" and "rep s' e (take p cs @ drop (Suc p) cs)" and "p < length cs"
    and "elem_val (cs ! p) = v" and "unat (is_length s') = unat (is_length s) - 1"
  shows "irep s' e (take p cs @ drop (Suc p) cs)"
    and "set (map elem_val (take p cs @ drop (Suc p) cs)) = set (map elem_val cs) - {v}"
proof -
  have e: "length cs = unat (is_length s)" "sorted_wrt (<) (vals cs)"
    using assms(1) by (auto simp: irep_def)
  have split: "cs = take p cs @ cs ! p # drop (Suc p) cs"
    using assms(3) by (simp add: id_take_nth_drop)
  have "vals cs = vals (take p cs) @ sint v # vals (drop (Suc p) cs)"
    using arg_cong [OF split, of "\<lambda>x. vals x"] assms(4) by simp
  then have srt: "sorted_wrt (<) (vals (take p cs) @ sint v # vals (drop (Suc p) cs))"
    using e(2) by simp
  then show "irep s' e (take p cs @ drop (Suc p) cs)"
    using assms(2,3,5) e(1) by (auto simp: irep_def sorted_wrt_append)
  have "v \<notin> set (map elem_val (take p cs @ drop (Suc p) cs))"
    using srt by (force simp: sorted_wrt_append)
  moreover have "set (map elem_val cs) = insert v (set (map elem_val (take p cs @ drop (Suc p) cs)))"
    using arg_cong [OF split, of "\<lambda>x. set (map elem_val x)"] assms(4) by simp
  ultimately show "set (map elem_val (take p cs @ drop (Suc p) cs)) = set (map elem_val cs) - {v}"
    by auto
qed

lemma intsetRemove_irep:
  assumes "irep s e cs" and "unat (is_length s) \<le> 2 ^ 29"
  shows "\<exists>s' ds. intsetRemove junk s v = Some (s', v \<in> intset_abs s) \<and> irep s' e ds \<and>
    set (map elem_val ds) = set (map elem_val cs) - {v} \<and>
    unat (is_length s') = unat (is_length s) - (if v \<in> intset_abs s then 1 else 0)"
proof -
  have av: "intset_abs s = set (map elem_val cs)"
    by (simp add: intset_abs_def irep_inv(2) [OF assms(1)])
  have absent: ?thesis if "intsetRemove junk s v = Some (s, False)" "v \<notin> intset_abs s"
    using that assms(1) av by (intro exI [of _ s] exI [of _ cs]) simp
  show ?thesis
  proof (cases "is_encoding s < priv_intsetValueEncoding v")
    case True
    then show ?thesis
      using absent wide_notin(1) [OF assms(1) True] by (simp add: intsetRemove_def)
  next
    case False
    have "unat (is_length s) < 2 ^ 31" using assms(2) by simp
    then obtain found pos where f: "intsetSearch s v = Some (found, pos)"
        "search_post (vals cs) (sint v) (found, unat pos)"
      using intsetSearch_correct [OF assms(1)] by blast
    have mem: "found \<longleftrightarrow> v \<in> intset_abs s"
      using search_post_found [OF f(2)] intset_abs_vals [OF assms(1), of v] by simp
    show ?thesis
    proof (cases found)
      case nf: False
      then show ?thesis
        using absent mem False f(1) by (simp add: intsetRemove_def)
    next
      case found: True
      then have p: "unat pos < length cs" "elem_val (cs ! unat pos) = v"
        using f(2) by (auto simp: search_post_def dest: sint_inj)
      obtain s' where s': "(if pos < is_length s - 1 then intsetMoveTail s (pos + 1) pos else Some s) = Some s'"
          "rep (intsetResize junk s' (is_length s - 1)) e (take (unat pos) cs @ drop (Suc (unat pos)) cs)"
        using remove_in_place [OF assms p(1)] by blast
      let ?t = "(intsetResize junk s' (is_length s - 1))\<lparr>is_length := is_length s - 1\<rparr>"
      have "intsetRemove junk s v = do { s' \<leftarrow> (if pos < is_length s - 1 then intsetMoveTail s (pos + 1) pos else Some s);
          Some ((intsetResize junk s' (is_length s - 1))\<lparr>is_length := is_length s - 1\<rparr>, True) }"
        using False found by (simp add: intsetRemove_def f(1) Let_def)
      then have rem: "intsetRemove junk s v = Some (?t, True)"
        unfolding s'(1) by simp
      have "length cs = unat (is_length s)" using assms(1) by (simp add: irep_def)
      then have "unat (is_length ?t) = unat (is_length s) - 1"
        using p(1) unat_pred [of "is_length s"] by auto
      then have len: "unat (is_length ?t) = unat (is_length s) - 1" .
      have "rep ?t e (take (unat pos) cs @ drop (Suc (unat pos)) cs)"
        using s'(2) by (simp add: rep_set_length)
      note del = removed_irep [OF assms(1) this p len]
      show ?thesis
      proof (intro exI conjI)
        show "intsetRemove junk s v = Some (?t, v \<in> intset_abs s)"
          using rem mem found by simp
        show "unat (is_length ?t) = unat (is_length s) - (if v \<in> intset_abs s then 1 else 0)"
          using len mem found by simp
      qed (fact del)+
    qed
  qed
qed

lemma card_intset_abs:
  assumes "intset_inv s"
  shows "card (intset_abs s) = unat (is_length s)"
proof -
  have "distinct (map sint (intset_vals s))"
    using assms unfolding intset_inv_def by (simp add: strict_sorted_iff)
  then have "distinct (intset_vals s)" by (simp add: distinct_map)
  then have "card (intset_abs s) = length (intset_vals s)"
    by (simp add: intset_abs_def distinct_card)
  then show ?thesis
    by (simp add: intset_vals_def intset_cells_def)
qed

lemma intsetAdd_inv:
  assumes "intset_inv s" and "unat (is_length s) < 2 ^ 29"
  shows "\<exists>s'. intsetAdd junk s v = Some (s', v \<notin> intset_abs s) \<and> intset_inv s' \<and>
    intset_abs s' = insert v (intset_abs s)"
  using intsetAdd_irep [OF inv_irep [OF assms(1)] assms(2), of junk v]
  by (metis irep_inv intset_abs_def inv_irep assms(1))

lemma intsetRemove_inv:
  assumes "intset_inv s" and "unat (is_length s) \<le> 2 ^ 29"
  shows "\<exists>s'. intsetRemove junk s v = Some (s', v \<in> intset_abs s) \<and> intset_inv s' \<and>
    intset_abs s' = intset_abs s - {v}"
  using intsetRemove_irep [OF inv_irep [OF assms(1)] assms(2), of junk v]
  by (metis irep_inv intset_abs_def inv_irep assms(1))

text \<open>\<open>intsetFind\<close> as an operation of the set contract: the state does not change.\<close>

definition intset_mem :: "intset \<Rightarrow> u64 \<Rightarrow> (intset \<times> bool) option" where
  "intset_mem s v = map_option (Pair s) (intsetFind s v)"

interpretation iset: set_impl intset_inv intset_abs "\<lambda>n. n \<le> 2 ^ 29"
    "intsetAdd junk" "intsetRemove junk" intset_mem
  for junk :: "nat \<Rightarrow> byte"
proof unfold_locales
  fix s v assume i: "intset_inv s"
  show "finite (intset_abs s)" by (simp add: intset_abs_def)
  show "\<exists>s'. intsetAdd junk s v = Some (s', v \<notin> intset_abs s) \<and> intset_inv s' \<and>
      intset_abs s' = insert v (intset_abs s)" if "Suc (card (intset_abs s)) \<le> 2 ^ 29"
    using that intsetAdd_inv [OF i] by (simp add: card_intset_abs [OF i])
  show "\<exists>s'. intsetRemove junk s v = Some (s', v \<in> intset_abs s) \<and> intset_inv s' \<and>
      intset_abs s' = intset_abs s - {v}" if "card (intset_abs s) \<le> 2 ^ 29"
    using that intsetRemove_inv [OF i] by (simp add: card_intset_abs [OF i])
  show "\<exists>s'. intset_mem s v = Some (s', v \<in> intset_abs s) \<and> intset_inv s' \<and> intset_abs s' = intset_abs s"
    if "card (intset_abs s) \<le> 2 ^ 29"
    using that i intsetFind_irep [OF inv_irep [OF i]] by (simp add: card_intset_abs [OF i] intset_mem_def)
qed simp

lemma intsetNew_inv: "intset_inv intsetNew" "intset_abs intsetNew = {}"
  by (simp_all add: intsetNew_def intset_inv_def intset_enc_defs enc_ok_def intset_vals_def
      intset_cells_def intset_abs_def)

text \<open>
  C1: Every sequence of at most \<open>2 ^ 29\<close> calls of \<open>intsetAdd\<close>, \<open>intsetRemove\<close> and \<open>intsetFind\<close>
  on a new intset returns, stays within the buffer, keeps the invariant (a sorted array without
  duplicates in the current encoding) and gives the answers of a set of 64-bit integers, whatever
  the bytes of new memory hold.
\<close>

theorem intset_refines_set:
  assumes "length ops \<le> 2 ^ 29"
  shows "\<exists>s. run_ops (set_step (intsetAdd junk) (intsetRemove junk) intset_mem) ops intsetNew =
      Some (s, snd (run_spec set_spec ops {})) \<and>
    intset_inv s \<and> intset_abs s = fst (run_spec set_spec ops {})"
  using iset.run_refines [of intsetNew ops junk] assms by (simp add: intsetNew_inv)

theorem intset_refines_set_witness:
  "\<exists>s. run_ops (set_step (intsetAdd (\<lambda>_. 0)) (intsetRemove (\<lambda>_. 0)) intset_mem)
      [Op_add 5, Op_add (- 100000), Op_add 5, Op_find (- 100000), Op_remove 5, Op_find 5] intsetNew =
        Some (s, [True, True, False, True, True, False]) \<and> intset_abs s = {- 100000}"
  using intset_refines_set [of "[Op_add 5, Op_add (- 100000), Op_add 5, Op_find (- 100000), Op_remove 5, Op_find 5]"
      "\<lambda>_. 0"] by auto

section \<open>Blobs\<close>

lemma validate_loop:
  assumes "rep s e cs" and "k \<le> length cs"
  shows "intsetValidate_loop s prev [k..<length cs] = Some (sorted_wrt (<) (sint prev # drop k (vals cs)))"
  using assms(2)
proof (induction "length cs - k" arbitrary: k prev)
  case (Suc n)
  then have k: "k < length cs" by simp
  have d: "drop k (vals cs) = sint (elem_val (cs ! k)) # drop (Suc k) (vals cs)"
    using k by (simp flip: Cons_nth_drop_Suc)
  have "sorted_wrt (<) (sint prev # drop k (vals cs)) \<longleftrightarrow>
      sint prev < sint (elem_val (cs ! k)) \<and> sorted_wrt (<) (sint (elem_val (cs ! k)) # drop (Suc k) (vals cs))"
    unfolding d by (auto simp del: drop_map)
  moreover have "intsetValidate_loop s (elem_val (cs ! k)) [Suc k..<length cs] =
      Some (sorted_wrt (<) (sint (elem_val (cs ! k)) # drop (Suc k) (vals cs)))"
    using Suc by simp
  ultimately show ?case
    using k Get_rep [OF assms(1) k] by (simp add: upt_conv_Cons word_sle_eq not_less [symmetric] del: sorted_wrt.simps)
qed simp


lemma intsetGet_vals:
  assumes "intset_inv s"
  shows "intsetGet s pos = Some (if pos < is_length s then Some (intset_vals s ! unat pos) else None)"
proof -
  have "length (intset_cells s) = unat (is_length s)" by (simp add: intset_cells_def)
  then show ?thesis
    using Get_rep [of s "unat (is_encoding s)" "intset_cells s" "unat pos"] inv_irep [OF assms]
    by (auto simp: intsetGet_def intset_vals_def irep_def word_less_nat_alt)
qed



lemma search_smallest:
  assumes "intset_inv s" and "unat (is_length s) < 2 ^ 31" and "0 < unat (is_length s)"
    and "sint v < sint (intset_vals s ! 0)"
  shows "intsetSearch s v = Some (False, 0)"
proof -
  note r = inv_irep [OF assms(1)]
  let ?xs = "vals (intset_cells s)"
  have n: "length (intset_cells s) = unat (is_length s)" by (simp add: intset_cells_def)
  obtain found pos where f: "intsetSearch s v = Some (found, pos)" "search_post ?xs (sint v) (found, unat pos)"
    using intsetSearch_correct [OF r assms(2)] by blast
  have lt: "sint v < ?xs ! 0"
    using assms(3,4) n by (simp add: intset_vals_def)
  have "v \<notin> intset_abs s"
  proof
    assume "v \<in> intset_abs s"
    then have "sint v \<in> set ?xs" using intset_abs_vals [OF r] by simp
    then obtain i where i: "i < length ?xs" "?xs ! i = sint v" by (auto simp: in_set_conv_nth)
    have "sorted_wrt (<) ?xs" using r by (simp add: irep_def)
    then have "?xs ! 0 \<le> ?xs ! i"
      using i(1) sorted_wrt_nth_less [of "(<)" ?xs 0 i] by (cases "i = 0") auto
    then show False using i(2) lt by simp
  qed
  then have "\<not> found"
    using search_post_found [OF f(2)] intset_abs_vals [OF r] by simp
  moreover have "pos = 0"
  proof (rule ccontr)
    assume "pos \<noteq> 0"
    then have "?xs ! 0 < sint v"
      using f(2) \<open>\<not> found\<close> assms(3) n by (auto simp: search_post_def below_def unat_gt_0)
    then show False using lt by simp
  qed
  ultimately show ?thesis using f(1) by simp
qed

text \<open>
  C11: The 32-bit byte count of \<open>intsetMoveTail\<close> wraps around. Adding a value below the minimum
  of a set of exactly \<open>2 ^ 29\<close> 64-bit elements moves no bytes at all: the new value overwrites
  the minimum, and the new last element is uninitialised memory.
\<close>

theorem intsetAdd_wraps:
  assumes "intset_inv s" and "is_encoding s = INTSET_ENC_INT64" and "is_length s = 2 ^ 29"
    and "sint v < sint (intset_vals s ! 0)"
  shows "intsetAdd junk s v = Some (\<lparr>is_encoding = INTSET_ENC_INT64, is_length = 2 ^ 29 + 1,
    is_contents = le_enc 8 v @ drop 8 (is_contents s) @ map junk [2 ^ 32..<2 ^ 32 + 8]\<rparr>, True)"
proof -
  have len: "length (is_contents s) = 2 ^ 32"
    using assms(1-3) by (simp add: intset_inv_def intset_enc_defs)
  have enc: "\<not> is_encoding s < priv_intsetValueEncoding v"
    by (simp add: assms(2) priv_intsetValueEncoding_def intset_enc_defs)
  have search: "intsetSearch s v = Some (False, 0)"
    using search_smallest [OF assms(1)] assms(3,4) by simp
  have rz: "intsetResize junk s (is_length s + 1) =
      s\<lparr>is_contents := is_contents s @ map junk [2 ^ 32..<2 ^ 32 + 8]\<rparr>"
    using len by (simp add: intsetResize_def assms(2,3) intset_enc_defs zrealloc_def)
  have move: "intsetMoveTail (s\<lparr>is_contents := c\<rparr>) 0 1 = Some (s\<lparr>is_contents := c\<rparr>)"
    if "8 \<le> length c" for c
    using that by (simp add: intsetMoveTail_def assms(2,3) intset_enc_defs rdn_def wrn_def)
  show ?thesis
    using enc search len unfolding intsetAdd_def rz
    by (simp add: search rz move assms(2,3) priv_intsetSet_def wrn_def)
qed

text \<open>The set \<open>{0, ..., n - 1}\<close> in 64-bit encoding.\<close>

definition iota_set :: "nat \<Rightarrow> intset" where
  "iota_set n = \<lparr>is_encoding = INTSET_ENC_INT64, is_length = of_nat n,
     is_contents = concat (map (\<lambda>i. le_enc 8 (of_nat i :: u64)) [0..<n])\<rparr>"

lemma iota_set_irep:
  assumes "n < 2 ^ 32"
  shows "irep (iota_set n) 8 (map (\<lambda>i. le_enc 8 (of_nat i :: u64)) [0..<n])"
proof -
  have v: "sint (of_nat i :: u64) = int i" if "i < n" for i
    using that assms by (simp add: signed_of_nat signed_take_bit_int_eq_self)
  have "elem_val (le_enc 8 (w :: u64)) = w" for w
    by (simp add: elem_val_def le_dec_enc)
  then have "vals (map (\<lambda>i. le_enc 8 (of_nat i :: u64)) [0..<n]) = map int [0..<n]"
    using v by simp
  then show ?thesis
    using assms
    by (simp add: irep_def rep_def enc_ok_def iota_set_def intset_enc_defs all_len_def unat_of_nat
        sorted_wrt_map sorted_wrt_upt del: map_map)
qed

theorem intsetAdd_wraps_witness:
  "intset_inv (iota_set (2 ^ 29)) \<and>
   (\<exists>s'. intsetAdd (\<lambda>_. 0) (iota_set (2 ^ 29)) (- 1) = Some (s', True) \<and>
     take 16 (is_contents s') = le_enc 8 (- 1 :: u64) @ le_enc 8 (1 :: u64))"
proof -
  let ?n = "2 ^ 29 :: nat"
  let ?cs = "map (\<lambda>i. le_enc 8 (of_nat i :: u64)) [0..<?n]"
  have r: "irep (iota_set ?n) 8 ?cs"
    by (rule iota_set_irep) simp
  note i = irep_inv [OF r]
  have "?cs ! 1 = le_enc 8 (1 :: u64)" by (subst nth_map) simp_all
  moreover have "rdn (concat ?cs) (8 * 1) 8 = Some (?cs ! 1)"
    by (rule rdn_concat_1) (auto simp: all_len_def)
  ultimately have "take 8 (drop 8 (is_contents (iota_set ?n))) = le_enc 8 (1 :: u64)"
    by (simp only: iota_set_def intset.simps rdn_def split: if_splits) auto
  moreover have "sint (- 1 :: u64) < sint (intset_vals (iota_set ?n) ! 0)"
    unfolding i(2) by (subst nth_map, simp)+ (simp add: elem_val_def le_dec_enc)
  moreover have "length (is_contents (iota_set ?n)) = 2 ^ 32"
    using i(1) by (simp add: intset_inv_def) (simp add: iota_set_def intset_enc_defs)
  ultimately show ?thesis
    using intsetAdd_wraps [OF i(1), of "- 1" "\<lambda>_. 0"] i(1) by (simp add: iota_set_def)
qed

end
