(* ===== verification/Redis_Dict.thy ===== *)
theory Redis_Dict
  imports Redis_Prelude "HOL-Library.Multiset"
begin

text \<open>
  The hash table of \<open>dict.c\<close>: two tables of chained buckets with incremental rehashing from
  the first to the second, and the stateless scan cursor. A bucket is the list of its entries
  in chain order, a \<open>NULL\<close> table is the empty list with exponent -1, a pointer to an entry is its
  place (table, bucket, position). Bucket access is bounds checked; \<open>None\<close> is a crash: an access
  outside a table or a failed assertion. Keys and values are HOL values, so the duplication
  functions of the type are the identity and the destructors have no effect; the hash and
  comparison functions and \<open>expandAllowed\<close> are function pointers of the C code and remain
  arguments (\<open>dictType\<close>). The global \<open>dict_can_resize\<close> is the argument \<open>rz\<close>.
\<close>

section \<open>Definitions\<close>

subsection \<open>Types\<close>

datatype dictResizeEnable = DICT_RESIZE_ENABLE | DICT_RESIZE_AVOID | DICT_RESIZE_FORBID

definition dict_force_resize_ratio :: u64 where
  "dict_force_resize_ratio = 5"

text \<open>\<open>expandAllowed\<close> gets the additional memory and the two operands of the load ratio.\<close>

record 'k dictType =
  hashFunction :: "'k \<Rightarrow> u64"
  keyCompare :: "'k \<Rightarrow> 'k \<Rightarrow> bool"
  expandAllowed :: "(u64 \<Rightarrow> u64 \<Rightarrow> u64 \<Rightarrow> bool) option"

type_synonym ('k, 'v) chain = "('k \<times> 'v) list"

record ('k, 'v) ht =
  ht_table :: "('k, 'v) chain list"
  ht_used :: u64
  ht_size_exp :: int

record ('k, 'v) dict =
  ht0 :: "('k, 'v) ht"
  ht1 :: "('k, 'v) ht"
  rehashidx :: int
  pauserehash :: int

type_synonym dref = "nat \<times> nat \<times> nat"

definition DICTHT_SIZE :: "int \<Rightarrow> u64" where
  "DICTHT_SIZE ex = (if ex = -1 then 0 else push_bit (nat ex) 1)"

definition DICTHT_SIZE_MASK :: "int \<Rightarrow> u64" where
  "DICTHT_SIZE_MASK ex = (if ex = -1 then 0 else DICTHT_SIZE ex - 1)"

definition DICT_HT_INITIAL_EXP :: int where
  "DICT_HT_INITIAL_EXP = 2"

definition DICT_HT_INITIAL_SIZE :: u64 where
  "DICT_HT_INITIAL_SIZE = push_bit (nat DICT_HT_INITIAL_EXP) 1"

definition dictSlots :: "('k, 'v) dict \<Rightarrow> u64" where
  "dictSlots d = DICTHT_SIZE (ht_size_exp (ht0 d)) + DICTHT_SIZE (ht_size_exp (ht1 d))"

definition dictSize :: "('k, 'v) dict \<Rightarrow> u64" where
  "dictSize d = ht_used (ht0 d) + ht_used (ht1 d)"

definition dictIsRehashing :: "('k, 'v) dict \<Rightarrow> bool" where
  "dictIsRehashing d \<longleftrightarrow> rehashidx d \<noteq> -1"

definition dictPauseRehashing :: "('k, 'v) dict \<Rightarrow> ('k, 'v) dict" where
  "dictPauseRehashing d = d\<lparr>pauserehash := pauserehash d + 1\<rparr>"

definition dictResumeRehashing :: "('k, 'v) dict \<Rightarrow> ('k, 'v) dict" where
  "dictResumeRehashing d = d\<lparr>pauserehash := pauserehash d - 1\<rparr>"

definition get_ht :: "('k, 'v) dict \<Rightarrow> nat \<Rightarrow> ('k, 'v) ht" where
  "get_ht d i = (if i = 0 then ht0 d else ht1 d)"

definition set_ht :: "('k, 'v) dict \<Rightarrow> nat \<Rightarrow> ('k, 'v) ht \<Rightarrow> ('k, 'v) dict" where
  "set_ht d i t = (if i = 0 then d\<lparr>ht0 := t\<rparr> else d\<lparr>ht1 := t\<rparr>)"

definition bucket :: "('k, 'v) ht \<Rightarrow> nat \<Rightarrow> ('k, 'v) chain option" where
  "bucket t i = (if i < length (ht_table t) then Some (ht_table t ! i) else None)"

definition set_bucket :: "('k, 'v) ht \<Rightarrow> nat \<Rightarrow> ('k, 'v) chain \<Rightarrow> ('k, 'v) ht" where
  "set_bucket t i c = t\<lparr>ht_table := (ht_table t)[i := c]\<rparr>"

subsection \<open>Creation and growth\<close>

definition ht_reset :: "('k, 'v) ht" where
  "ht_reset = \<lparr>ht_table = [], ht_used = 0, ht_size_exp = -1\<rparr>"

definition priv_dictReset :: "('k, 'v) dict \<Rightarrow> nat \<Rightarrow> ('k, 'v) dict" where
  "priv_dictReset d i = set_ht d i ht_reset"

definition dictCreate :: "('k, 'v) dict" where
  "dictCreate = \<lparr>ht0 = ht_reset, ht1 = ht_reset, rehashidx = -1, pauserehash = 0\<rparr>"

text \<open>\<open>__builtin_clzl\<close> on a non-zero 64-bit word.\<close>

fun clz_loop :: "nat \<Rightarrow> u64 \<Rightarrow> nat" where
  "clz_loop 0 w = 64"
| "clz_loop (Suc k) w = (if bit w k then 63 - k else clz_loop k w)"

definition clzl :: "u64 \<Rightarrow> nat" where
  "clzl w = clz_loop 64 w"

definition priv_dictNextExp :: "u64 \<Rightarrow> int" where
  "priv_dictNextExp sz =
     (if sz \<le> DICT_HT_INITIAL_SIZE then DICT_HT_INITIAL_EXP
      else if 0x7FFFFFFFFFFFFFFF \<le> sz then 63
      else 64 - int (clzl (sz - 1)))"

text \<open>
  \<open>malloc_failed\<close> is \<open>None\<close> for a \<open>NULL\<close> argument; otherwise it says whether \<open>ztrycalloc\<close>
  fails for the given number of bytes. The result is the dictionary, whether it was expanded,
  and the value stored in \<open>*malloc_failed\<close>.
\<close>

definition priv_dictExpand ::
    "('k, 'v) dict \<Rightarrow> u64 \<Rightarrow> (u64 \<Rightarrow> bool) option \<Rightarrow> ('k, 'v) dict \<times> bool \<times> bool" where
  "priv_dictExpand d sz malloc_failed =
     (if dictIsRehashing d \<or> sz < ht_used (ht0 d) then (d, False, False)
      else
        let new_exp = priv_dictNextExp sz;
            newsize = push_bit (nat new_exp) 1
        in if newsize < sz \<or> newsize * 8 < newsize then (d, False, False)
           else if new_exp = ht_size_exp (ht0 d) then (d, False, False)
           else if (case malloc_failed of None \<Rightarrow> False | Some f \<Rightarrow> f (newsize * 8)) then (d, False, True)
           else
             let new = \<lparr>ht_table = replicate (unat newsize) [], ht_used = 0, ht_size_exp = new_exp\<rparr>
             in if ht_table (ht0 d) = [] then (d\<lparr>ht0 := new\<rparr>, True, False)
                else (d\<lparr>ht1 := new, rehashidx := 0\<rparr>, True, False))"

definition dictExpand :: "('k, 'v) dict \<Rightarrow> u64 \<Rightarrow> ('k, 'v) dict \<times> bool" where
  "dictExpand d sz = (let (d, ok, _) = priv_dictExpand d sz None in (d, ok))"

definition dictTryExpand :: "('k, 'v) dict \<Rightarrow> u64 \<Rightarrow> (u64 \<Rightarrow> bool) \<Rightarrow> ('k, 'v) dict \<times> bool" where
  "dictTryExpand d sz fails = (let (d, _, failed) = priv_dictExpand d sz (Some fails) in (d, \<not> failed))"

definition dictResize :: "dictResizeEnable \<Rightarrow> ('k, 'v) dict \<Rightarrow> ('k, 'v) dict \<times> bool" where
  "dictResize rz d =
     (if rz \<noteq> DICT_RESIZE_ENABLE \<or> dictIsRehashing d then (d, False)
      else
        let minimal = ht_used (ht0 d);
            minimal = (if minimal < DICT_HT_INITIAL_SIZE then DICT_HT_INITIAL_SIZE else minimal)
        in dictExpand d minimal)"

subsection \<open>Incremental rehashing\<close>

text \<open>
  Skipping empty buckets: the new \<open>rehashidx\<close>, the remaining \<open>empty_visits\<close> and whether they
  ran out.
\<close>

function skip_empty :: "('k, 'v) chain list \<Rightarrow> nat \<Rightarrow> int \<Rightarrow> (nat \<times> int \<times> bool) option" where
  "skip_empty tab i visits =
     (if length tab \<le> i then None
      else if tab ! i \<noteq> [] then Some (i, visits, False)
      else if visits - 1 = 0 then Some (i + 1, visits - 1, True)
      else skip_empty tab (i + 1) (visits - 1))"
  by auto
termination by (relation "measure (\<lambda>(tab, i, visits). length tab - i)") auto

declare skip_empty.simps [simp del]

text \<open>Moving the entries of one bucket, each to the front of its new bucket.\<close>

fun move_chain :: "'k dictType \<Rightarrow> ('k, 'v) chain \<Rightarrow> ('k, 'v) ht \<Rightarrow> ('k, 'v) ht \<Rightarrow>
    (('k, 'v) ht \<times> ('k, 'v) ht) option" where
  "move_chain ty [] t0 t1 = Some (t0, t1)"
| "move_chain ty (de # rest) t0 t1 =
     (let h = unat (hashFunction ty (fst de) AND DICTHT_SIZE_MASK (ht_size_exp t1)) in
      do {
        c \<leftarrow> bucket t1 h;
        let t1 = set_bucket t1 h (de # c);
        move_chain ty rest (t0\<lparr>ht_used := ht_used t0 - 1\<rparr>) (t1\<lparr>ht_used := ht_used t1 + 1\<rparr>)
      })"

text \<open>The outer loop; \<open>True\<close> in the result is the early \<open>return 1\<close>.\<close>

fun rehash_loop :: "'k dictType \<Rightarrow> nat \<Rightarrow> int \<Rightarrow> ('k, 'v) dict \<Rightarrow> (('k, 'v) dict \<times> bool) option" where
  "rehash_loop ty 0 visits d = Some (d, False)"
| "rehash_loop ty (Suc n) visits d =
     (if ht_used (ht0 d) = 0 then Some (d, False)
      else if \<not> word_of_int (rehashidx d) < DICTHT_SIZE (ht_size_exp (ht0 d)) then None
      else do {
        (i, visits, out) \<leftarrow> skip_empty (ht_table (ht0 d)) (nat (rehashidx d)) visits;
        if out then Some (d\<lparr>rehashidx := int i\<rparr>, True)
        else do {
          de \<leftarrow> bucket (ht0 d) i;
          (t0, t1) \<leftarrow> move_chain ty de (ht0 d) (ht1 d);
          rehash_loop ty n visits
            (d\<lparr>ht0 := set_bucket t0 i [], ht1 := t1, rehashidx := int i + 1\<rparr>)
        }
      })"

definition dictRehash :: "'k dictType \<Rightarrow> dictResizeEnable \<Rightarrow> ('k, 'v) dict \<Rightarrow> nat \<Rightarrow> (('k, 'v) dict \<times> bool) option" where
  "dictRehash ty rz d n =
     (let s0 = DICTHT_SIZE (ht_size_exp (ht0 d));
          s1 = DICTHT_SIZE (ht_size_exp (ht1 d))
      in if rz = DICT_RESIZE_FORBID \<or> \<not> dictIsRehashing d then Some (d, False)
         else if rz = DICT_RESIZE_AVOID \<and>
             (s0 < s1 \<and> s1 div s0 < dict_force_resize_ratio \<or> s1 < s0 \<and> s0 div s1 < dict_force_resize_ratio)
         then Some (d, False)
         else do {
           (d, early) \<leftarrow> rehash_loop ty n (int n * 10) d;
           if early then Some (d, True)
           else if ht_used (ht0 d) = 0 then
             Some ((priv_dictReset (d\<lparr>ht0 := ht1 d\<rparr>) 1)\<lparr>rehashidx := -1\<rparr>, False)
           else Some (d, True)
         })"

definition priv_dictRehashStep :: "'k dictType \<Rightarrow> dictResizeEnable \<Rightarrow> ('k, 'v) dict \<Rightarrow> ('k, 'v) dict option" where
  "priv_dictRehashStep ty rz d =
     (if pauserehash d = 0 then map_option fst (dictRehash ty rz d 1) else Some d)"

text \<open>
  \<open>dictRehashMilliseconds\<close>: the argument lists, for each round, whether the clock has passed
  the limit after it; the loop also ends when the list does.
\<close>

fun rehash_ms_loop :: "'k dictType \<Rightarrow> dictResizeEnable \<Rightarrow> bool list \<Rightarrow> int \<Rightarrow> ('k, 'v) dict \<Rightarrow>
    (('k, 'v) dict \<times> int) option" where
  "rehash_ms_loop ty rz clock rehashes d =
     do {
       (d, more) \<leftarrow> dictRehash ty rz d 100;
       if \<not> more then Some (d, rehashes)
       else case clock of
         [] \<Rightarrow> Some (d, rehashes + 100)
       | late # clock \<Rightarrow>
           if late then Some (d, rehashes + 100) else rehash_ms_loop ty rz clock (rehashes + 100) d
     }"

definition dictRehashMilliseconds :: "'k dictType \<Rightarrow> dictResizeEnable \<Rightarrow> bool list \<Rightarrow> ('k, 'v) dict \<Rightarrow>
    (('k, 'v) dict \<times> int) option" where
  "dictRehashMilliseconds ty rz clock d =
     (if 0 < pauserehash d then Some (d, 0) else rehash_ms_loop ty rz clock 0 d)"

subsection \<open>Adding, finding, deleting\<close>

definition dictTypeExpandAllowed :: "'k dictType \<Rightarrow> ('k, 'v) dict \<Rightarrow> bool" where
  "dictTypeExpandAllowed ty d =
     (case expandAllowed ty of
        None \<Rightarrow> True
      | Some f \<Rightarrow> f (DICTHT_SIZE (priv_dictNextExp (ht_used (ht0 d) + 1)) * 8)
                   (ht_used (ht0 d)) (DICTHT_SIZE (ht_size_exp (ht0 d))))"

definition priv_dictExpandIfNeeded ::
    "'k dictType \<Rightarrow> dictResizeEnable \<Rightarrow> ('k, 'v) dict \<Rightarrow> ('k, 'v) dict \<times> bool" where
  "priv_dictExpandIfNeeded ty rz d =
     (let sz = DICTHT_SIZE (ht_size_exp (ht0 d)); used = ht_used (ht0 d) in
      if dictIsRehashing d then (d, True)
      else if sz = 0 then dictExpand d DICT_HT_INITIAL_SIZE
      else if rz = DICT_RESIZE_ENABLE \<and> sz \<le> used \<or>
              rz \<noteq> DICT_RESIZE_FORBID \<and> dict_force_resize_ratio < used div sz then
        (if \<not> dictTypeExpandAllowed ty d then (d, True) else dictExpand d (used + 1))
      else (d, True))"

text \<open>The position of a key in a chain.\<close>

fun chain_find :: "'k dictType \<Rightarrow> 'k \<Rightarrow> ('k, 'v) chain \<Rightarrow> nat option" where
  "chain_find ty key [] = None"
| "chain_find ty key (he # rest) =
     (if keyCompare ty key (fst he) then Some 0 else map_option Suc (chain_find ty key rest))"

text \<open>
  The loop over the two tables that lookup, insertion and deletion share: the place of the
  key, if any, and the bucket index in the last table visited.
\<close>

definition search_tables :: "'k dictType \<Rightarrow> ('k, 'v) dict \<Rightarrow> 'k \<Rightarrow> u64 \<Rightarrow> (dref option \<times> nat) option" where
  "search_tables ty d key hash =
     (let idx = unat (hash AND DICTHT_SIZE_MASK (ht_size_exp (ht0 d))) in
      do {
        he \<leftarrow> bucket (ht0 d) idx;
        case chain_find ty key he of
          Some p \<Rightarrow> Some (Some (0, idx, p), idx)
        | None \<Rightarrow>
            if \<not> dictIsRehashing d then Some (None, idx)
            else
              let idx = unat (hash AND DICTHT_SIZE_MASK (ht_size_exp (ht1 d))) in
              do {
                he \<leftarrow> bucket (ht1 d) idx;
                case chain_find ty key he of
                  Some p \<Rightarrow> Some (Some (1, idx, p), idx)
                | None \<Rightarrow> Some (None, idx)
              }
      })"

text \<open>\<open>Inl\<close> is the result -1 with \<open>*existing\<close>, \<open>Inr\<close> an index.\<close>

definition priv_dictKeyIndex :: "'k dictType \<Rightarrow> dictResizeEnable \<Rightarrow> ('k, 'v) dict \<Rightarrow> 'k \<Rightarrow> u64 \<Rightarrow>
    (('k, 'v) dict \<times> (dref option + nat)) option" where
  "priv_dictKeyIndex ty rz d key hash =
     (let (d, ok) = priv_dictExpandIfNeeded ty rz d in
      if \<not> ok then Some (d, Inl None)
      else do {
        (found, idx) \<leftarrow> search_tables ty d key hash;
        case found of Some r \<Rightarrow> Some (d, Inl (Some r)) | None \<Rightarrow> Some (d, Inr idx)
      })"

text \<open>The value field of a new entry is uninitialised memory, the argument \<open>v0\<close>.\<close>

definition dictAddRaw :: "'k dictType \<Rightarrow> dictResizeEnable \<Rightarrow> 'v \<Rightarrow> ('k, 'v) dict \<Rightarrow> 'k \<Rightarrow>
    (('k, 'v) dict \<times> (dref option + dref)) option" where
  "dictAddRaw ty rz v0 d key =
     do {
       d \<leftarrow> (if dictIsRehashing d then priv_dictRehashStep ty rz d else Some d);
       (d, res) \<leftarrow> priv_dictKeyIndex ty rz d key (hashFunction ty key);
       case res of
         Inl existing \<Rightarrow> Some (d, Inl existing)
       | Inr index \<Rightarrow>
           let htidx = (if dictIsRehashing d then 1 else 0); t = get_ht d htidx in
           do {
             c \<leftarrow> bucket t index;
             let t = set_bucket t index ((key, v0) # c);
             Some (set_ht d htidx (t\<lparr>ht_used := ht_used t + 1\<rparr>), Inr (htidx, index, 0))
           }
     }"

definition dictSetVal :: "('k, 'v) dict \<Rightarrow> dref \<Rightarrow> 'v \<Rightarrow> ('k, 'v) dict option" where
  "dictSetVal d r v =
     (case r of (t, i, p) \<Rightarrow> do {
        c \<leftarrow> bucket (get_ht d t) i;
        if p < length c then Some (set_ht d t (set_bucket (get_ht d t) i (c[p := (fst (c ! p), v)])))
        else None
      })"

definition entry_at :: "('k, 'v) dict \<Rightarrow> dref \<Rightarrow> ('k \<times> 'v) option" where
  "entry_at d r =
     (case r of (t, i, p) \<Rightarrow> do {
        c \<leftarrow> bucket (get_ht d t) i;
        if p < length c then Some (c ! p) else None
      })"

definition dictAdd :: "'k dictType \<Rightarrow> dictResizeEnable \<Rightarrow> 'v \<Rightarrow> ('k, 'v) dict \<Rightarrow> 'k \<Rightarrow> 'v \<Rightarrow>
    (('k, 'v) dict \<times> bool) option" where
  "dictAdd ty rz v0 d key val =
     do {
       (d, res) \<leftarrow> dictAddRaw ty rz v0 d key;
       case res of
         Inl _ \<Rightarrow> Some (d, False)
       | Inr entry \<Rightarrow> do { d \<leftarrow> dictSetVal d entry val; Some (d, True) }
     }"

text \<open>
  \<open>dictReplace\<close> dereferences \<open>existing\<close> when nothing was added, also when it is \<open>NULL\<close> because
  the table could not be expanded.
\<close>

definition dictReplace :: "'k dictType \<Rightarrow> dictResizeEnable \<Rightarrow> 'v \<Rightarrow> ('k, 'v) dict \<Rightarrow> 'k \<Rightarrow> 'v \<Rightarrow>
    (('k, 'v) dict \<times> bool) option" where
  "dictReplace ty rz v0 d key val =
     do {
       (d, res) \<leftarrow> dictAddRaw ty rz v0 d key;
       case res of
         Inr entry \<Rightarrow> do { d \<leftarrow> dictSetVal d entry val; Some (d, True) }
       | Inl None \<Rightarrow> None
       | Inl (Some existing) \<Rightarrow> do { d \<leftarrow> dictSetVal d existing val; Some (d, False) }
     }"

definition dictAddOrFind :: "'k dictType \<Rightarrow> dictResizeEnable \<Rightarrow> 'v \<Rightarrow> ('k, 'v) dict \<Rightarrow> 'k \<Rightarrow>
    (('k, 'v) dict \<times> dref option) option" where
  "dictAddOrFind ty rz v0 d key =
     do {
       (d, res) \<leftarrow> dictAddRaw ty rz v0 d key;
       Some (d, case res of Inr entry \<Rightarrow> Some entry | Inl existing \<Rightarrow> existing)
     }"

text \<open>Deletion gives back the unlinked entry; freeing it has no effect on the model.\<close>

definition dictGenericDelete :: "'k dictType \<Rightarrow> dictResizeEnable \<Rightarrow> ('k, 'v) dict \<Rightarrow> 'k \<Rightarrow>
    (('k, 'v) dict \<times> ('k \<times> 'v) option) option" where
  "dictGenericDelete ty rz d key =
     (if dictSize d = 0 then Some (d, None)
      else do {
        d \<leftarrow> (if dictIsRehashing d then priv_dictRehashStep ty rz d else Some d);
        (found, _) \<leftarrow> search_tables ty d key (hashFunction ty key);
        case found of
          None \<Rightarrow> Some (d, None)
        | Some (t, i, p) \<Rightarrow>
            do {
              c \<leftarrow> bucket (get_ht d t) i;
              let ht = set_bucket (get_ht d t) i (take p c @ drop (Suc p) c);
              Some (set_ht d t (ht\<lparr>ht_used := ht_used ht - 1\<rparr>), Some (c ! p))
            }
      })"

definition dictDelete :: "'k dictType \<Rightarrow> dictResizeEnable \<Rightarrow> ('k, 'v) dict \<Rightarrow> 'k \<Rightarrow> (('k, 'v) dict \<times> bool) option" where
  "dictDelete ty rz d key = map_option (\<lambda>(d, e). (d, e \<noteq> None)) (dictGenericDelete ty rz d key)"

definition dictUnlink :: "'k dictType \<Rightarrow> dictResizeEnable \<Rightarrow> ('k, 'v) dict \<Rightarrow> 'k \<Rightarrow>
    (('k, 'v) dict \<times> ('k \<times> 'v) option) option" where
  "dictUnlink ty rz d key = dictGenericDelete ty rz d key"

definition dictFind :: "'k dictType \<Rightarrow> dictResizeEnable \<Rightarrow> ('k, 'v) dict \<Rightarrow> 'k \<Rightarrow>
    (('k, 'v) dict \<times> dref option) option" where
  "dictFind ty rz d key =
     (if dictSize d = 0 then Some (d, None)
      else do {
        d \<leftarrow> (if dictIsRehashing d then priv_dictRehashStep ty rz d else Some d);
        (found, _) \<leftarrow> search_tables ty d key (hashFunction ty key);
        Some (d, found)
      })"

definition dictFetchValue :: "'k dictType \<Rightarrow> dictResizeEnable \<Rightarrow> ('k, 'v) dict \<Rightarrow> 'k \<Rightarrow>
    (('k, 'v) dict \<times> 'v option) option" where
  "dictFetchValue ty rz d key =
     do {
       (d, he) \<leftarrow> dictFind ty rz d key;
       case he of
         None \<Rightarrow> Some (d, None)
       | Some r \<Rightarrow> do { e \<leftarrow> entry_at d r; Some (d, Some (snd e)) }
     }"

text \<open>Clearing frees the entries bucket by bucket while \<open>used\<close> is positive, then resets.\<close>

fun clear_loop :: "('k, 'v) chain list \<Rightarrow> u64 \<Rightarrow> u64" where
  "clear_loop [] used = used"
| "clear_loop (c # tab) used = (if used = 0 then used else clear_loop tab (used - of_nat (length c)))"

definition priv_dictClear :: "('k, 'v) dict \<Rightarrow> nat \<Rightarrow> ('k, 'v) dict" where
  "priv_dictClear d i =
     (let t = get_ht d i; d = set_ht d i (t\<lparr>ht_used := clear_loop (ht_table t) (ht_used t)\<rparr>)
      in priv_dictReset d i)"

definition dictEmpty :: "('k, 'v) dict \<Rightarrow> ('k, 'v) dict" where
  "dictEmpty d = (priv_dictClear (priv_dictClear d 0) 1)\<lparr>rehashidx := -1, pauserehash := 0\<rparr>"

subsection \<open>Iteration\<close>

text \<open>The fingerprint mixes the addresses of the tables with their sizes and counts.\<close>

definition fingerprint_mix :: "u64 \<Rightarrow> u64 \<Rightarrow> u64" where
  "fingerprint_mix hash x =
     (let hash = hash + x;
          hash = NOT hash + push_bit 21 hash;
          hash = hash XOR drop_bit 24 hash;
          hash = (hash + push_bit 3 hash) + push_bit 8 hash;
          hash = hash XOR drop_bit 14 hash;
          hash = (hash + push_bit 2 hash) + push_bit 4 hash;
          hash = hash XOR drop_bit 28 hash
      in hash + push_bit 31 hash)"

definition dictFingerprint :: "u64 \<Rightarrow> u64 \<Rightarrow> ('k, 'v) dict \<Rightarrow> u64" where
  "dictFingerprint addr0 addr1 d =
     foldl fingerprint_mix 0
       [addr0, word_of_int (ht_size_exp (ht0 d)), ht_used (ht0 d),
        addr1, word_of_int (ht_size_exp (ht1 d)), ht_used (ht1 d)]"

text \<open>
  An iterator holds the entry returned last and, for \<open>nextEntry\<close>, the rest of its chain. The
  fingerprint of an unsafe iterator is a function of the dictionary here (\<open>fp\<close>).
\<close>

record ('k, 'v) dictIterator =
  it_table :: nat
  it_index :: int
  it_safe :: bool
  it_entry :: "('k \<times> 'v) option"
  it_next :: "('k, 'v) chain"
  it_fingerprint :: u64

definition dictGetIterator :: "('k, 'v) dictIterator" where
  "dictGetIterator = \<lparr>it_table = 0, it_index = -1, it_safe = False, it_entry = None, it_next = [], it_fingerprint = 0\<rparr>"

definition dictGetSafeIterator :: "('k, 'v) dictIterator" where
  "dictGetSafeIterator = dictGetIterator\<lparr>it_safe := True\<rparr>"

text \<open>Entering a chain at its first entry, or the \<open>NULL\<close> of an empty bucket or chain end.\<close>

definition it_enter :: "('k, 'v) dictIterator \<Rightarrow> ('k, 'v) chain \<Rightarrow> ('k, 'v) dictIterator" where
  "it_enter it c = (case c of [] \<Rightarrow> it\<lparr>it_entry := None\<rparr> | e # rest \<Rightarrow> it\<lparr>it_entry := Some e, it_next := rest\<rparr>)"

definition it_start :: "(('k, 'v) dict \<Rightarrow> u64) \<Rightarrow> ('k, 'v) dict \<Rightarrow> ('k, 'v) dictIterator \<Rightarrow>
    ('k, 'v) dict \<times> ('k, 'v) dictIterator" where
  "it_start fp d it =
     (if it_index it = -1 \<and> it_table it = 0 then
        if it_safe it then (dictPauseRehashing d, it) else (d, it\<lparr>it_fingerprint := fp d\<rparr>)
      else (d, it))"

partial_function (option) dictNext :: "(('k, 'v) dict \<Rightarrow> u64) \<Rightarrow> ('k, 'v) dict \<Rightarrow> ('k, 'v) dictIterator \<Rightarrow>
    (('k, 'v) dict \<times> ('k, 'v) dictIterator \<times> ('k \<times> 'v) option) option" where
  "dictNext fp d it =
     (if it_entry it = None then
        let (d, it) = it_start fp d it;
            it = it\<lparr>it_index := it_index it + 1\<rparr>
        in case (if uint (DICTHT_SIZE (ht_size_exp (get_ht d (it_table it)))) \<le> it_index it then
                   if dictIsRehashing d \<and> it_table it = 0 then Some (it\<lparr>it_table := 1, it_index := 0\<rparr>) else None
                 else Some it) of
             None \<Rightarrow> Some (d, it, None)
           | Some it \<Rightarrow> do {
               c \<leftarrow> bucket (get_ht d (it_table it)) (nat (it_index it));
               let it = it_enter it c;
               if it_entry it \<noteq> None then Some (d, it, it_entry it) else dictNext fp d it
             }
      else
        let it = it_enter it (it_next it) in
        if it_entry it \<noteq> None then Some (d, it, it_entry it) else dictNext fp d it)"

text \<open>Releasing an iterator: an unsafe one asserts that the fingerprint did not change.\<close>

definition dictReleaseIterator :: "(('k, 'v) dict \<Rightarrow> u64) \<Rightarrow> ('k, 'v) dict \<Rightarrow> ('k, 'v) dictIterator \<Rightarrow>
    ('k, 'v) dict option" where
  "dictReleaseIterator fp d it =
     (if it_index it = -1 \<and> it_table it = 0 then Some d
      else if it_safe it then Some (dictResumeRehashing d)
      else if it_fingerprint it = fp d then Some d else None)"

subsection \<open>Random entries\<close>

text \<open>The random numbers are a sequence \<open>rnd\<close>; the loops take them from position \<open>k\<close> on.\<close>

partial_function (option) random_bucket :: "(u64 \<Rightarrow> ('k, 'v) chain option) \<Rightarrow> (nat \<Rightarrow> u64) \<Rightarrow> nat \<Rightarrow>
    (('k, 'v) chain \<times> nat) option" where
  "random_bucket look rnd k =
     do {
       he \<leftarrow> look (rnd k);
       if he \<noteq> [] then Some (he, k + 1) else random_bucket look rnd (k + 1)
     }"

definition dictGetRandomKey :: "'k dictType \<Rightarrow> dictResizeEnable \<Rightarrow> (nat \<Rightarrow> u64) \<Rightarrow> ('k, 'v) dict \<Rightarrow>
    (('k, 'v) dict \<times> ('k \<times> 'v) option) option" where
  "dictGetRandomKey ty rz rnd d =
     (if dictSize d = 0 then Some (d, None)
      else do {
        d \<leftarrow> (if dictIsRehashing d then priv_dictRehashStep ty rz d else Some d);
        (he, k) \<leftarrow>
          (if dictIsRehashing d then
             let s0 = DICTHT_SIZE (ht_size_exp (ht0 d)) in
             random_bucket (\<lambda>r.
               let h = word_of_int (rehashidx d) + r mod (dictSlots d - word_of_int (rehashidx d)) in
               if s0 \<le> h then bucket (ht1 d) (unat (h - s0)) else bucket (ht0 d) (unat h)) rnd 0
           else
             let m = DICTHT_SIZE_MASK (ht_size_exp (ht0 d)) in
             random_bucket (\<lambda>r. bucket (ht0 d) (unat (r AND m))) rnd 0);
        Some (d, Some (he ! (unat (rnd k) mod length he)))
      })"

subsection \<open>The scan cursor\<close>

function rev_loop :: "nat \<Rightarrow> u64 \<Rightarrow> u64 \<Rightarrow> u64" where
  "rev_loop s msk v =
     (let s = s div 2 in
      if s = 0 then v
      else
        let msk = msk XOR push_bit s msk;
            v = (drop_bit s v AND msk) OR (push_bit s v AND NOT msk)
        in rev_loop s msk v)"
  by auto
termination by (relation "measure (\<lambda>(s, msk, v). s)") auto

declare rev_loop.simps [simp del]

definition rev_ul :: "u64 \<Rightarrow> u64" where
  "rev_ul v = rev_loop 64 (NOT 0) v"

definition rev_incr :: "u64 \<Rightarrow> u64 \<Rightarrow> u64" where
  "rev_incr m v = rev_ul (rev_ul (v OR NOT m) + 1)"

partial_function (option) scan_expansions ::
    "('k, 'v) ht \<Rightarrow> u64 \<Rightarrow> u64 \<Rightarrow> u64 \<Rightarrow> (u64 \<times> ('k, 'v) chain) option" where
  "scan_expansions t1 m0 m1 v =
     do {
       de \<leftarrow> bucket t1 (unat (v AND m1));
       let v = rev_incr m1 v;
       if v AND (m0 XOR m1) \<noteq> 0
       then do { (v, es) \<leftarrow> scan_expansions t1 m0 m1 v; Some (v, de @ es) }
       else Some (v, de)
     }"

text \<open>One call of \<open>dictScan\<close>: the new cursor and the entries given to the callback, in order.\<close>

definition dictScan :: "('k, 'v) dict \<Rightarrow> u64 \<Rightarrow> (u64 \<times> ('k, 'v) chain) option" where
  "dictScan d v =
     (if dictSize d = 0 then Some (0, [])
      else if \<not> dictIsRehashing d then
        let m0 = DICTHT_SIZE_MASK (ht_size_exp (ht0 d)) in
        do { de \<leftarrow> bucket (ht0 d) (unat (v AND m0)); Some (rev_incr m0 v, de) }
      else
        let (t0, t1) = (if DICTHT_SIZE (ht_size_exp (ht1 d)) < DICTHT_SIZE (ht_size_exp (ht0 d))
                        then (ht1 d, ht0 d) else (ht0 d, ht1 d));
            m0 = DICTHT_SIZE_MASK (ht_size_exp t0);
            m1 = DICTHT_SIZE_MASK (ht_size_exp t1)
        in do {
          de \<leftarrow> bucket t0 (unat (v AND m0));
          (v, es) \<leftarrow> scan_expansions t1 m0 m1 v;
          Some (v, de @ es)
        })"

section \<open>The invariant\<close>

definition dict_entries :: "('k, 'v) dict \<Rightarrow> ('k, 'v) chain" where
  "dict_entries d = concat (ht_table (ht0 d)) @ concat (ht_table (ht1 d))"

definition dict_map :: "('k, 'v) dict \<Rightarrow> 'k \<Rightarrow> 'v option" where
  "dict_map d = map_of (dict_entries d)"

definition slot :: "'k dictType \<Rightarrow> int \<Rightarrow> 'k \<Rightarrow> nat" where
  "slot ty ex k = unat (hashFunction ty k AND DICTHT_SIZE_MASK ex)"

definition ht_ok :: "'k dictType \<Rightarrow> ('k, 'v) ht \<Rightarrow> bool" where
  "ht_ok ty t \<longleftrightarrow>
     ht_used t = of_nat (length (concat (ht_table t))) \<and>
     (if ht_size_exp t = -1 then ht_table t = []
      else 2 \<le> ht_size_exp t \<and> ht_size_exp t \<le> 60 \<and> length (ht_table t) = 2 ^ nat (ht_size_exp t) \<and>
        (\<forall>i < length (ht_table t). \<forall>e \<in> set (ht_table t ! i). slot ty (ht_size_exp t) (fst e) = i))"

definition dict_inv :: "'k dictType \<Rightarrow> ('k, 'v) dict \<Rightarrow> bool" where
  "dict_inv ty d \<longleftrightarrow>
     ht_ok ty (ht0 d) \<and> ht_ok ty (ht1 d) \<and>
     distinct (map fst (dict_entries d)) \<and> length (dict_entries d) \<le> 2 ^ 60 \<and>
     (if rehashidx d = -1 then ht_size_exp (ht1 d) = -1
      else ht_size_exp (ht0 d) \<noteq> -1 \<and> ht_size_exp (ht1 d) \<noteq> -1 \<and>
        0 \<le> rehashidx d \<and> rehashidx d \<le> int (length (ht_table (ht0 d))) \<and>
        (\<forall>i < nat (rehashidx d). ht_table (ht0 d) ! i = []))"

definition keys_by_equality :: "'k dictType \<Rightarrow> bool" where
  "keys_by_equality ty \<longleftrightarrow> (\<forall>a b. keyCompare ty a b \<longleftrightarrow> a = b)"

lemma unat_exp: "n < 64 \<Longrightarrow> unat (2 ^ n :: u64) = 2 ^ n"
proof -
  assume "n < 64"
  then have "(2 :: nat) ^ n < 2 ^ 64" using power_strict_increasing [of n 64 "2 :: nat"] by simp
  then show ?thesis
    using unat_of_nat [where 'a = 64, of "2 ^ n"] by (simp add: take_bit_nat_eq_self)
qed

lemma SIZE_word: "0 \<le> ex \<Longrightarrow> ex \<le> 63 \<Longrightarrow> unat (DICTHT_SIZE ex) = 2 ^ nat ex"
  by (simp add: DICTHT_SIZE_def unat_exp)

lemma MASK_mask: "0 \<le> ex \<Longrightarrow> DICTHT_SIZE_MASK ex = mask (nat ex)"
  by (simp add: DICTHT_SIZE_MASK_def DICTHT_SIZE_def mask_eq_exp_minus_1)

lemma slot_less:
  assumes "0 \<le> ex" and "ex \<le> 63"
  shows "slot ty ex k < 2 ^ nat ex"
proof -
  have "slot ty ex k = take_bit (nat ex) (unat (hashFunction ty k))"
    using assms(1) by (simp add: slot_def MASK_mask unsigned_take_bit_eq flip: take_bit_eq_mask)
  then show ?thesis by (simp add: take_bit_nat_less_exp)
qed

lemma mset_concat_update:
  "i < length xs \<Longrightarrow> mset (concat (xs[i := c])) + mset (xs ! i) = mset (concat xs) + mset c"
  by (induction xs arbitrary: i) (auto split: nat.splits simp: ac_simps)

lemma mset_concat_Cons:
  "i < length xs \<Longrightarrow> mset (concat (xs[i := e # xs ! i])) = add_mset e (mset (concat xs))"
  using mset_concat_update [of i xs "e # xs ! i"] by simp

lemma length_concat_mset: "length (concat xs) = size (mset (concat xs))"
  by simp

text \<open>Facts on the two tables that only depend on the entries as a multiset.\<close>

lemma dict_map_mset:
  assumes "distinct (map fst (dict_entries d))" and "mset (dict_entries d') = mset (dict_entries d)"
  shows "distinct (map fst (dict_entries d'))" and "dict_map d' = dict_map d"
    and "length (dict_entries d') = length (dict_entries d)"
proof -
  have "mset (map fst (dict_entries d')) = mset (map fst (dict_entries d))"
    using assms(2) by simp
  then show d': "distinct (map fst (dict_entries d'))"
    using assms(1) mset_eq_imp_distinct_iff by blast
  show "dict_map d' = dict_map d"
    unfolding dict_map_def using map_of_eqI [of "dict_entries d'" "dict_entries d"]
    by (metis assms d' map_of_inject_set mset_eq_setD)
  show "length (dict_entries d') = length (dict_entries d)"
    using assms(2) by (metis size_mset)
qed

section \<open>Rehashing\<close>

lemma bucket_slot:
  assumes "ht_ok ty t" and "ht_size_exp t \<noteq> -1"
  shows "slot ty (ht_size_exp t) k < length (ht_table t)"
    and "bucket t (slot ty (ht_size_exp t) k) = Some (ht_table t ! slot ty (ht_size_exp t) k)"
proof -
  show l: "slot ty (ht_size_exp t) k < length (ht_table t)"
    using assms slot_less [of "ht_size_exp t" ty k] by (simp add: ht_ok_def)
  then show "bucket t (slot ty (ht_size_exp t) k) = Some (ht_table t ! slot ty (ht_size_exp t) k)"
    by (simp add: bucket_def)
qed

lemma insert_ok:
  assumes "ht_ok ty t" and "ht_size_exp t \<noteq> -1" and "i = slot ty (ht_size_exp t) (fst e)"
  defines "t' \<equiv> (set_bucket t i (e # ht_table t ! i))\<lparr>ht_used := ht_used t + 1\<rparr>"
  shows "ht_ok ty t'" and "ht_size_exp t' = ht_size_exp t"
    and "mset (concat (ht_table t')) = add_mset e (mset (concat (ht_table t)))"
    and "length (ht_table t') = length (ht_table t)"
proof -
  have i: "i < length (ht_table t)"
    using bucket_slot(1) [OF assms(1,2)] assms(3) by simp
  show ex: "ht_size_exp t' = ht_size_exp t" and len: "length (ht_table t') = length (ht_table t)"
    by (simp_all add: t'_def set_bucket_def)
  show m: "mset (concat (ht_table t')) = add_mset e (mset (concat (ht_table t)))"
    using i by (simp add: t'_def set_bucket_def mset_concat_Cons)
  have "length (concat (ht_table t')) = Suc (length (concat (ht_table t)))"
    using arg_cong [OF m, of size] by (simp del: length_concat)
  then show "ht_ok ty t'"
    using assms(1-3) i len ex
    by (auto simp: ht_ok_def t'_def set_bucket_def nth_list_update simp del: length_concat)
qed

lemma move_chain_ok:
  assumes "ht_ok ty t1" and "ht_size_exp t1 \<noteq> -1"
  shows "\<exists>t1'. move_chain ty c t0 t1 = Some (t0\<lparr>ht_used := ht_used t0 - of_nat (length c)\<rparr>, t1') \<and>
    ht_ok ty t1' \<and> ht_size_exp t1' = ht_size_exp t1 \<and>
    mset (concat (ht_table t1')) = mset c + mset (concat (ht_table t1))"
  using assms
proof (induction c arbitrary: t0 t1)
  case (Cons e c)
  let ?i = "slot ty (ht_size_exp t1) (fst e)"
  let ?t = "(set_bucket t1 ?i (e # ht_table t1 ! ?i))\<lparr>ht_used := ht_used t1 + 1\<rparr>"
  note ins = insert_ok [OF Cons.prems refl]
  have "ht_size_exp ?t \<noteq> -1" using ins(2) Cons.prems(2) by simp
  from Cons.IH [OF ins(1) this, of "t0\<lparr>ht_used := ht_used t0 - 1\<rparr>"] obtain t1' where
    "move_chain ty c (t0\<lparr>ht_used := ht_used t0 - 1\<rparr>) ?t =
       Some (t0\<lparr>ht_used := ht_used t0 - 1 - of_nat (length c)\<rparr>, t1')"
    "ht_ok ty t1'" "ht_size_exp t1' = ht_size_exp ?t"
    "mset (concat (ht_table t1')) = mset c + mset (concat (ht_table ?t))"
    by auto
  then show ?case
    using bucket_slot(2) [OF Cons.prems] ins(2,3)
    by (simp add: slot_def set_bucket_def algebra_simps)
qed simp

lemma skip_empty_ok:
  assumes "k < length tab" and "tab ! k \<noteq> []" and "i \<le> k"
  shows "\<exists>j visits' out. skip_empty tab i visits = Some (j, visits', out) \<and> i \<le> j \<and> j \<le> k \<and>
    (\<forall>l. i \<le> l \<longrightarrow> l < j \<longrightarrow> tab ! l = []) \<and> (\<not> out \<longrightarrow> tab ! j \<noteq> []) \<and> (out \<longrightarrow> i < j)"
  using assms
proof (induction tab i visits rule: skip_empty.induct)
  case (1 tab i visits)
  have i: "i < length tab" using "1.prems" by simp
  consider "tab ! i \<noteq> []" | "tab ! i = []" "visits - 1 = 0" | "tab ! i = []" "visits - 1 \<noteq> 0"
    by blast
  then show ?case
  proof cases
    case 1
    then show ?thesis using i "1.prems"(3) by (auto simp: skip_empty.simps [of tab i])
  next
    case 2
    then have "i \<noteq> k" using "1.prems"(2) by auto
    then show ?thesis
      using 2 i "1.prems"(3) by (auto simp: skip_empty.simps [of tab i] less_Suc_eq)
  next
    case 3
    then have "i \<noteq> k" using "1.prems"(2) by auto
    then have "i + 1 \<le> k" using "1.prems"(3) by simp
    moreover have "\<not> length tab \<le> i" "\<not> tab ! i \<noteq> []" using i 3 by auto
    ultimately obtain j visits' out where j: "skip_empty tab (i + 1) (visits - 1) = Some (j, visits', out)"
        "i + 1 \<le> j" "j \<le> k" "\<And>l. i + 1 \<le> l \<Longrightarrow> l < j \<Longrightarrow> tab ! l = []" "\<not> out \<longrightarrow> tab ! j \<noteq> []"
      using "1.IH" 3 "1.prems" by blast
    have "tab ! l = []" if "i \<le> l" "l < j" for l
      using that 3(1) j(4) [of l] by (cases "l = i") auto
    then show ?thesis
      using 3 i j by (subst skip_empty.simps) auto
  qed
qed

lemma remove_bucket_ok:
  assumes "ht_ok ty t" and "ht_size_exp t \<noteq> -1" and "i < length (ht_table t)"
  defines "t' \<equiv> set_bucket (t\<lparr>ht_used := ht_used t - of_nat (length (ht_table t ! i))\<rparr>) i []"
  shows "ht_ok ty t'" and "mset (concat (ht_table t')) + mset (ht_table t ! i) = mset (concat (ht_table t))"
proof -
  show m: "mset (concat (ht_table t')) + mset (ht_table t ! i) = mset (concat (ht_table t))"
    using mset_concat_update [OF assms(3), of "[]"] by (simp add: t'_def set_bucket_def)
  have "length (concat (ht_table t')) + length (ht_table t ! i) = length (concat (ht_table t))"
    using arg_cong [OF m, of size] by (simp del: length_concat)
  then have "of_nat (length (concat (ht_table t))) - of_nat (length (ht_table t ! i)) =
      (of_nat (length (concat (ht_table t'))) :: u64)"
    by (metis add_diff_cancel_right' of_nat_add)
  then show "ht_ok ty t'"
    using assms(1-3) by (auto simp: ht_ok_def t'_def set_bucket_def nth_list_update simp del: length_concat)
qed

lemma rehash_move:
  assumes "dict_inv ty d" and "rehashidx d \<noteq> -1" and "nat (rehashidx d) \<le> i" and "i < length (ht_table (ht0 d))"
    and "\<And>l. nat (rehashidx d) \<le> l \<Longrightarrow> l < i \<Longrightarrow> ht_table (ht0 d) ! l = []"
  shows "\<exists>t0 t1. move_chain ty (ht_table (ht0 d) ! i) (ht0 d) (ht1 d) = Some (t0, t1) \<and>
    (let d' = d\<lparr>ht0 := set_bucket t0 i [], ht1 := t1, rehashidx := int i + 1\<rparr> in
     dict_inv ty d' \<and> mset (dict_entries d') = mset (dict_entries d) \<and>
     length (ht_table (ht0 d')) = length (ht_table (ht0 d)) \<and>
     ht_size_exp (ht0 d') = ht_size_exp (ht0 d) \<and> ht_size_exp (ht1 d') = ht_size_exp (ht1 d))"
proof -
  have inv: "ht_ok ty (ht0 d)" "ht_ok ty (ht1 d)" "ht_size_exp (ht0 d) \<noteq> -1" "ht_size_exp (ht1 d) \<noteq> -1"
      "0 \<le> rehashidx d" "distinct (map fst (dict_entries d))" "length (dict_entries d) \<le> 2 ^ 60"
      "\<And>l. l < nat (rehashidx d) \<Longrightarrow> ht_table (ht0 d) ! l = []"
    using assms(1,2) unfolding dict_inv_def by auto
  let ?c = "ht_table (ht0 d) ! i"
  define t0 where "t0 = (ht0 d)\<lparr>ht_used := ht_used (ht0 d) - of_nat (length ?c)\<rparr>"
  obtain t1 where t1: "move_chain ty ?c (ht0 d) (ht1 d) = Some (t0, t1)"
      "ht_ok ty t1" "ht_size_exp t1 = ht_size_exp (ht1 d)"
      "mset (concat (ht_table t1)) = mset ?c + mset (concat (ht_table (ht1 d)))"
    using move_chain_ok [OF inv(2,4), of ?c "ht0 d"] unfolding t0_def by blast
  let ?d = "d\<lparr>ht0 := set_bucket t0 i [], ht1 := t1, rehashidx := int i + 1\<rparr>"
  note t0 = remove_bucket_ok [OF inv(1,3) assms(4), folded t0_def]
  have ms: "mset (dict_entries ?d) = mset (dict_entries d)"
    using t0(2) t1(4) by (simp add: dict_entries_def)
  have "ht_table (set_bucket t0 i []) ! l = []" if "l < nat (int i + 1)" for l
    using that assms(4,5) inv(8) [of l] by (cases "l < nat (rehashidx d)")
      (auto simp: set_bucket_def t0_def nth_list_update not_less less_Suc_eq nat_add_distrib)
  then have "dict_inv ty ?d"
    using t0(1) t1(2,3) inv assms(4) dict_map_mset [OF inv(6) ms]
    unfolding dict_inv_def by (auto simp: set_bucket_def t0_def nat_le_iff)
  then show ?thesis
    using t1 ms by (simp add: Let_def set_bucket_def t0_def)
qed

lemma idx_less_SIZE:
  assumes "0 \<le> r" and "nat r < 2 ^ nat ex" and "0 \<le> ex" and "ex \<le> 63"
  shows "word_of_int r < DICTHT_SIZE ex"
proof -
  have "(2 :: nat) ^ nat ex < 2 ^ 64"
    using power_strict_increasing [of "nat ex" 64 "2 :: nat"] assms(3,4) by simp
  then have "nat r < 2 ^ 64" using assms(2) by linarith
  then have "unat (word_of_int r :: u64) = nat r"
    using assms(1) unat_of_nat [where 'a = 64, of "nat r"] by (simp add: take_bit_nat_eq_self)
  then show ?thesis
    using assms(2-4) by (simp add: word_less_nat_alt SIZE_word)
qed

lemma rehash_loop_ok:
  assumes "dict_inv ty d" and "rehashidx d \<noteq> -1"
  shows "\<exists>d' early. rehash_loop ty n visits d = Some (d', early) \<and> dict_inv ty d' \<and> rehashidx d' \<noteq> -1 \<and>
    mset (dict_entries d') = mset (dict_entries d) \<and> rehashidx d \<le> rehashidx d' \<and>
    length (ht_table (ht0 d')) = length (ht_table (ht0 d)) \<and>
    (0 < n \<and> ht_used (ht0 d) \<noteq> 0 \<longrightarrow> rehashidx d < rehashidx d') \<and> pauserehash d' = pauserehash d"
  using assms
proof (induction n arbitrary: visits d)
  case (Suc n)
  show ?case
  proof (cases "ht_used (ht0 d) = 0")
    case True
    then show ?thesis using Suc.prems by auto
  next
    case False
    let ?tab = "ht_table (ht0 d)" and ?r = "nat (rehashidx d)"
    have inv: "ht_ok ty (ht0 d)" "ht_size_exp (ht0 d) \<noteq> -1" "0 \<le> rehashidx d"
        "\<And>l. l < ?r \<Longrightarrow> ?tab ! l = []"
      using Suc.prems unfolding dict_inv_def by auto
    have "concat ?tab \<noteq> []"
    proof
      assume "concat ?tab = []"
      then have "ht_used (ht0 d) = 0" using inv(1) by (simp add: ht_ok_def del: concat_eq_Nil_conv)
      then show False using False by simp
    qed
    then obtain k where k: "k < length ?tab" "?tab ! k \<noteq> []"
      by (auto simp: in_set_conv_nth)
    have rk: "?r \<le> k" using k inv(4) by (metis not_le)
    obtain j visits' out where j: "skip_empty ?tab ?r visits = Some (j, visits', out)" "?r \<le> j" "j \<le> k"
        "\<And>l. ?r \<le> l \<Longrightarrow> l < j \<Longrightarrow> ?tab ! l = []" "out \<longrightarrow> ?r < j"
      using skip_empty_ok [OF k rk] by blast
    have guard: "word_of_int (rehashidx d) < DICTHT_SIZE (ht_size_exp (ht0 d))"
    proof (rule idx_less_SIZE [OF inv(3)])
      have "length ?tab = 2 ^ nat (ht_size_exp (ht0 d))" using inv(1,2) by (simp add: ht_ok_def)
      then show "?r < 2 ^ nat (ht_size_exp (ht0 d))" using le_less_trans [OF rk k(1)] by (simp only:)
    qed (use inv(1,2) in \<open>simp_all add: ht_ok_def\<close>)
    show ?thesis
    proof (cases out)
      case True
      have "?tab ! l = []" if "l < j" for l
        using that inv(4) j(4) by (cases "l < ?r") auto
      then have "dict_inv ty (d\<lparr>rehashidx := int j\<rparr>)"
        using Suc.prems j(3) k(1) unfolding dict_inv_def by (auto simp: dict_entries_def)
      then show ?thesis
        using False guard j True inv(3) by (auto simp: dict_entries_def)
    next
      case nout: False
      have jl: "j < length ?tab" using j(3) k(1) by simp
      obtain t0 t1 where m: "move_chain ty (?tab ! j) (ht0 d) (ht1 d) = Some (t0, t1)"
        and d': "dict_inv ty (d\<lparr>ht0 := set_bucket t0 j [], ht1 := t1, rehashidx := int j + 1\<rparr>)"
          "mset (dict_entries (d\<lparr>ht0 := set_bucket t0 j [], ht1 := t1, rehashidx := int j + 1\<rparr>)) = mset (dict_entries d)"
          "length (ht_table (set_bucket t0 j [])) = length ?tab"
        using rehash_move [OF Suc.prems j(2) jl j(4)] by (auto simp: Let_def)
      let ?d = "d\<lparr>ht0 := set_bucket t0 j [], ht1 := t1, rehashidx := int j + 1\<rparr>"
      have b: "bucket (ht0 d) j = Some (?tab ! j)" using jl by (simp add: bucket_def)
      have step: "rehash_loop ty (Suc n) visits d = rehash_loop ty n visits' ?d"
        using False guard j(1) nout m b by simp
      have "rehashidx ?d \<noteq> -1" by simp
      from Suc.IH [OF d'(1) this, of visits'] show ?thesis
        unfolding step using d'(2,3) j(2) inv(3) by auto
    qed
  qed
qed auto

lemma rehash_loop_done: "ht_used (ht0 d) = 0 \<Longrightarrow> rehash_loop ty n visits d = Some (d, False)"
  by (cases n) auto

lemma used_entries:
  assumes "ht_ok ty t" and "length (concat (ht_table t)) < 2 ^ 64"
  shows "unat (ht_used t) = length (concat (ht_table t))"
  using assms unat_of_nat [where 'a = 64, of "length (concat (ht_table t))"]
  by (simp add: ht_ok_def take_bit_nat_eq_self)

lemma dict_inv_length:
  assumes "dict_inv ty d"
  shows "length (concat (ht_table (ht0 d))) + length (concat (ht_table (ht1 d))) \<le> 2 ^ 60"
  using assms by (simp add: dict_inv_def dict_entries_def)

lemma ht_reset_ok: "ht_ok ty ht_reset" "ht_size_exp ht_reset = -1" "ht_table ht_reset = []"
  by (simp_all add: ht_ok_def ht_reset_def)

definition rehash_done :: "('k, 'v) dict \<Rightarrow> ('k, 'v) dict" where
  "rehash_done d = (priv_dictReset (d\<lparr>ht0 := ht1 d\<rparr>) 1)\<lparr>rehashidx := -1\<rparr>"

lemma rehash_done_ok:
  assumes "dict_inv ty d" and "rehashidx d \<noteq> -1" and "ht_used (ht0 d) = 0"
  shows "dict_inv ty (rehash_done d)" and "dict_entries (rehash_done d) = dict_entries d"
    and "rehashidx (rehash_done d) = -1" and "ht_size_exp (ht0 (rehash_done d)) \<noteq> -1"
    and "pauserehash (rehash_done d) = pauserehash d"
proof -
  have "length (concat (ht_table (ht0 d))) = 0"
    using used_entries [of ty "ht0 d"] dict_inv_length [OF assms(1)] assms(1,3) by (simp add: dict_inv_def)
  then have "concat (ht_table (ht0 d)) = []" by (simp only: length_0_conv)
  then show e: "dict_entries (rehash_done d) = dict_entries d"
    by (simp add: dict_entries_def rehash_done_def priv_dictReset_def set_ht_def ht_reset_ok del: concat_eq_Nil_conv)
  show "dict_inv ty (rehash_done d)"
    using assms(1,2) unfolding dict_inv_def e
    by (auto simp: rehash_done_def priv_dictReset_def set_ht_def ht_reset_ok)
  show "rehashidx (rehash_done d) = -1" "ht_size_exp (ht0 (rehash_done d)) \<noteq> -1"
      "pauserehash (rehash_done d) = pauserehash d"
    using assms(1,2) by (auto simp: rehash_done_def priv_dictReset_def set_ht_def dict_inv_def)
qed

text \<open>
  Every call of \<open>dictRehash\<close> keeps the entries; a call that has work to do advances
  \<open>rehashidx\<close> or finishes.
\<close>

lemma dictRehash_ok:
  assumes "dict_inv ty d"
  shows "\<exists>d' more. dictRehash ty rz d n = Some (d', more) \<and> dict_inv ty d' \<and>
    mset (dict_entries d') = mset (dict_entries d) \<and> pauserehash d' = pauserehash d \<and>
    (ht_size_exp (ht0 d) \<noteq> -1 \<longrightarrow> ht_size_exp (ht0 d') \<noteq> -1) \<and>
    (rehashidx d = -1 \<longrightarrow> d' = d \<and> \<not> more) \<and>
    (more \<longrightarrow> rehashidx d' \<noteq> -1 \<and> length (ht_table (ht0 d')) = length (ht_table (ht0 d)) \<and>
      (0 < n \<longrightarrow> rehashidx d < rehashidx d')) \<and>
    (rz = DICT_RESIZE_ENABLE \<and> \<not> more \<longrightarrow> rehashidx d' = -1)"
proof (cases "rehashidx d = -1")
  case True
  then show ?thesis using assms by (auto simp: dictRehash_def dictIsRehashing_def)
next
  case False
  obtain d1 early where d1: "rehash_loop ty n (int n * 10) d = Some (d1, early)" "dict_inv ty d1" "rehashidx d1 \<noteq> -1"
      "mset (dict_entries d1) = mset (dict_entries d)" "pauserehash d1 = pauserehash d"
      "length (ht_table (ht0 d1)) = length (ht_table (ht0 d))"
      "0 < n \<and> ht_used (ht0 d) \<noteq> 0 \<longrightarrow> rehashidx d < rehashidx d1"
    using rehash_loop_ok [OF assms False] by blast
  have ex: "ht_size_exp (ht0 d1) \<noteq> -1"
    using d1(2,3) by (auto simp: dict_inv_def)
  have run: "dictRehash ty rz d n = Some (d, False) \<and> rz \<noteq> DICT_RESIZE_ENABLE \<or>
      dictRehash ty rz d n = (if early then Some (d1, True)
        else if ht_used (ht0 d1) = 0 then Some (rehash_done d1, False) else Some (d1, True))"
    using False d1(1) by (cases rz) (auto simp: dictRehash_def dictIsRehashing_def rehash_done_def Let_def)
  then consider "dictRehash ty rz d n = Some (d, False)" "rz \<noteq> DICT_RESIZE_ENABLE"
    | "dictRehash ty rz d n = Some (rehash_done d1, False)" "ht_used (ht0 d1) = 0"
    | "dictRehash ty rz d n = Some (d1, True)" "early \<or> ht_used (ht0 d1) \<noteq> 0"
    by (auto split: if_splits)
  then show ?thesis
  proof cases
    case 1
    then show ?thesis using assms False by auto
  next
    case 2
    then show ?thesis using rehash_done_ok [OF d1(2,3)] d1(4,5) False by auto
  next
    case 3
    then have "ht_used (ht0 d) \<noteq> 0"
      using d1(1) rehash_loop_done [of d ty n "int n * 10"] by auto
    then show ?thesis using 3 d1 ex False by auto
  qed
qed

section \<open>Growth\<close>

lemma clz_loop_bounds:
  assumes "take_bit k w = w" and "w \<noteq> (0 :: u64)" and "k \<le> 64"
  shows "clz_loop k w < 64 \<and> 2 ^ (63 - clz_loop k w) \<le> unat w \<and> unat w < 2 ^ (64 - clz_loop k w) \<and> 64 - k \<le> clz_loop k w"
  using assms
proof (induction k)
  case (Suc k)
  show ?case
  proof (cases "bit w k")
    case True
    have "unat w < 2 ^ Suc k"
      using Suc.prems(1) by (metis take_bit_nat_less_exp unsigned_take_bit_eq)
    moreover have "2 ^ k \<le> unat w"
    proof (rule ccontr)
      assume "\<not> 2 ^ k \<le> unat w"
      then have "take_bit k (unat w) = unat w" by (simp add: take_bit_nat_eq_self)
      then have "\<not> bit (unat w) k" by (metis bit_take_bit_iff less_irrefl)
      then show False using True by (simp add: bit_unsigned_iff bit_imp_le_length)
    qed
    moreover have "63 - (63 - k) = k" "64 - (63 - k) = Suc k" "63 - k < 64" "64 - Suc k \<le> 63 - k"
      using Suc.prems(3) by linarith+
    moreover have "clz_loop (Suc k) w = 63 - k" using True by simp
    ultimately show ?thesis by (simp only: simp_thms)
  next
    case False
    have "take_bit k w = w"
    proof (rule bit_word_eqI)
      fix n
      have "bit w n = bit (take_bit (Suc k) w) n" by (simp only: Suc.prems(1))
      then show "bit (take_bit k w) n = bit w n"
        using False by (auto simp: bit_take_bit_iff less_Suc_eq)
    qed
    then show ?thesis
      using Suc.IH Suc.prems(2,3) False by auto
  qed
qed simp

lemma clzl_bounds:
  assumes "w \<noteq> 0"
  shows "clzl w < 64" and "2 ^ (63 - clzl w) \<le> unat w" and "unat w < 2 ^ (64 - clzl w)"
  using clz_loop_bounds [of 64 w] assms by (simp_all add: clzl_def take_bit_word_eq_self)

text \<open>The exponent of the next power of two.\<close>

lemma NextExp_bounds:
  shows "2 \<le> priv_dictNextExp sz" and "priv_dictNextExp sz \<le> 63"
    and "unat sz \<le> 2 ^ 63 \<Longrightarrow> unat sz \<le> 2 ^ nat (priv_dictNextExp sz)"
    and "unat sz \<le> 2 ^ 60 \<Longrightarrow> priv_dictNextExp sz \<le> 60"
proof -
  have "2 \<le> priv_dictNextExp sz \<and> priv_dictNextExp sz \<le> 63 \<and>
    (unat sz \<le> 2 ^ 63 \<longrightarrow> unat sz \<le> 2 ^ nat (priv_dictNextExp sz)) \<and>
    (unat sz \<le> 2 ^ 60 \<longrightarrow> priv_dictNextExp sz \<le> 60)"
  proof (cases "4 < unat sz \<and> unat sz < 2 ^ 63 - 1")
    case False
    then consider "unat sz \<le> 4" | "2 ^ 63 - 1 \<le> unat sz" by linarith
    then show ?thesis
    proof cases
      case 1
      then have "priv_dictNextExp sz = 2"
        by (simp add: priv_dictNextExp_def DICT_HT_INITIAL_SIZE_def DICT_HT_INITIAL_EXP_def word_le_nat_alt)
      then show ?thesis using 1 by simp
    next
      case 2
      then have "priv_dictNextExp sz = 63"
        by (simp add: priv_dictNextExp_def DICT_HT_INITIAL_SIZE_def DICT_HT_INITIAL_EXP_def word_le_nat_alt)
      then show ?thesis using 2 by simp
    qed
  next
    case True
    let ?w = "sz - 1" and ?c = "clzl (sz - 1)"
    have u: "unat ?w = unat sz - 1"
      using True unat_pred [of sz] by auto
    then have "?w \<noteq> 0" using True by auto
    note b = clzl_bounds [OF this]
    have e: "priv_dictNextExp sz = 64 - int ?c"
      using True by (simp add: priv_dictNextExp_def DICT_HT_INITIAL_SIZE_def DICT_HT_INITIAL_EXP_def word_le_nat_alt)
    have n: "nat (64 - int ?c) = 64 - ?c" by simp
    have up: "?c \<noteq> 0"
    proof
      assume "?c = 0"
      then show False using b(2) u True by auto
    qed
    have lo: "2 \<le> 64 - ?c"
    proof (rule ccontr)
      assume "\<not> 2 \<le> 64 - ?c"
      then have "(2 :: nat) ^ (64 - ?c) \<le> 2 ^ 1" by (intro power_increasing) auto
      then show False using b(3) u True by auto
    qed
    have "64 - ?c \<le> 60" if "unat sz \<le> 2 ^ 60"
    proof (rule ccontr)
      assume "\<not> 64 - ?c \<le> 60"
      then have "(2 :: nat) ^ 60 \<le> 2 ^ (63 - ?c)" by (intro power_increasing) auto
      then show False using b(2) u that True by auto
    qed
    moreover have "unat sz \<le> 2 ^ (64 - ?c)" using b(3) u by linarith
    moreover have "2 \<le> 64 - int ?c" "64 - int ?c \<le> 63" using up lo b(1) by linarith+
    ultimately show ?thesis
      unfolding e n by (intro conjI impI) linarith+
  qed
  then show "2 \<le> priv_dictNextExp sz" and "priv_dictNextExp sz \<le> 63"
    and "unat sz \<le> 2 ^ 63 \<Longrightarrow> unat sz \<le> 2 ^ nat (priv_dictNextExp sz)"
    and "unat sz \<le> 2 ^ 60 \<Longrightarrow> priv_dictNextExp sz \<le> 60"
    by auto
qed

lemma overflow_check:
  assumes "\<not> push_bit (nat ex) (1 :: u64) * 8 < push_bit (nat ex) 1" and "0 \<le> ex" and "ex \<le> 63"
  shows "ex \<le> 60"
proof (rule ccontr)
  assume "\<not> ex \<le> 60"
  then have "ex = 61 \<or> ex = 62 \<or> ex = 63" using assms(2,3) by auto
  then show False using assms(1) by (auto simp: word_less_nat_alt)
qed

lemma no_overflow:
  assumes "0 \<le> ex" and "ex \<le> 60"
  shows "\<not> push_bit (nat ex) (1 :: u64) * 8 < push_bit (nat ex) 1"
proof -
  have "push_bit (nat ex) (1 :: u64) * 8 = 2 ^ (nat ex + 3)"
    by (simp add: power_add)
  moreover have "unat (2 ^ nat ex :: u64) \<le> unat (2 ^ (nat ex + 3) :: u64)"
    using assms by (subst (1 2) unat_exp) (auto intro: power_increasing)
  ultimately show ?thesis
    by (simp add: word_less_nat_alt not_less)
qed

lemma new_table_ok:
  assumes "2 \<le> ex" and "ex \<le> 60"
  shows "ht_ok ty \<lparr>ht_table = replicate (unat (push_bit (nat ex) (1 :: u64))) [], ht_used = 0, ht_size_exp = ex\<rparr>"
    and "concat (replicate n []) = []"
  using assms unat_exp [of "nat ex"] by (simp_all add: ht_ok_def)

lemma priv_dictExpand_ok:
  fixes d :: "('k, 'v) dict"
  assumes "dict_inv ty d" and "priv_dictExpand d sz mf = (d', ok, failed)"
  shows "dict_inv ty d'" and "dict_entries d' = dict_entries d" and "\<not> ok \<Longrightarrow> d' = d"
    and "pauserehash d' = pauserehash d" and "ok \<Longrightarrow> ht_size_exp (ht0 d') \<noteq> -1"
proof -
  have "dict_inv ty d' \<and> dict_entries d' = dict_entries d \<and> (\<not> ok \<longrightarrow> d' = d) \<and>
    pauserehash d' = pauserehash d \<and> (ok \<longrightarrow> ht_size_exp (ht0 d') \<noteq> -1)"
  proof (cases ok)
    case False
    then have "d' = d"
      using assms(2) by (auto simp: priv_dictExpand_def Let_def split: if_splits option.splits)
    then show ?thesis using False assms(1) by simp
  next
    case ok: True
    let ?ex = "priv_dictNextExp sz"
    let ?new = "\<lparr>ht_table = replicate (unat (push_bit (nat ?ex) (1 :: u64))) [], ht_used = 0, ht_size_exp = ?ex\<rparr> :: ('k, 'v) ht"
    have nr: "rehashidx d = -1" and ov: "\<not> push_bit (nat ?ex) (1 :: u64) * 8 < push_bit (nat ?ex) 1"
      and d': "d' = (if ht_table (ht0 d) = [] then d\<lparr>ht0 := ?new\<rparr> else d\<lparr>ht1 := ?new, rehashidx := 0\<rparr>)"
      using ok assms(2)
      by (auto simp: priv_dictExpand_def Let_def dictIsRehashing_def split: if_splits option.splits)
    have ex: "2 \<le> ?ex" "?ex \<le> 60"
      using NextExp_bounds(1,2) [of sz] overflow_check [OF ov] by auto
    have new: "ht_ok ty ?new" by (rule new_table_ok(1) [OF ex])
    have h1: "ht_size_exp (ht1 d) = -1" "ht_table (ht1 d) = []" "ht_ok ty (ht0 d)"
      using assms(1) nr by (auto simp: dict_inv_def ht_ok_def)
    have e: "dict_entries d' = dict_entries d"
      using h1(2) by (simp add: d' dict_entries_def new_table_ok(2))
    show ?thesis
    proof (cases "ht_table (ht0 d) = []")
      case True
      then show ?thesis
        using assms(1) new ex nr ok unfolding e dict_inv_def by (simp add: d')
    next
      case False
      then have "ht_size_exp (ht0 d) \<noteq> -1" using h1(3) by (auto simp: ht_ok_def)
      then show ?thesis
        using assms(1) False new ex nr ok unfolding e dict_inv_def by (simp add: d')
    qed
  qed
  then show "dict_inv ty d'" and "dict_entries d' = dict_entries d" and "\<not> ok \<Longrightarrow> d' = d"
    and "pauserehash d' = pauserehash d" and "ok \<Longrightarrow> ht_size_exp (ht0 d') \<noteq> -1"
    by auto
qed

lemma dictExpand_grows:
  fixes d :: "('k, 'v) dict"
  assumes "dict_inv ty d" and "rehashidx d = -1" and "unat sz \<le> 2 ^ 60"
    and "ht_used (ht0 d) \<le> sz" and "ht_size_exp (ht0 d) \<noteq> priv_dictNextExp sz"
  shows "\<exists>d'. dictExpand d sz = (d', True)"
proof -
  let ?ex = "priv_dictNextExp sz"
  have ex: "2 \<le> ?ex" "?ex \<le> 60" "unat sz \<le> 2 ^ nat ?ex"
    using NextExp_bounds [of sz] assms(3) by auto
  have "\<not> push_bit (nat ?ex) 1 < sz"
    using ex by (simp add: word_less_nat_alt unat_exp not_less)
  then show ?thesis
    using assms no_overflow [of ?ex] ex
    by (auto simp: dictExpand_def priv_dictExpand_def Let_def dictIsRehashing_def not_less)
qed

lemma dictExpandIfNeeded_ok:
  fixes d :: "('k, 'v) dict"
  assumes "dict_inv ty d" and "length (dict_entries d) < 2 ^ 60"
  shows "\<exists>d'. priv_dictExpandIfNeeded ty rz d = (d', True) \<and> dict_inv ty d' \<and>
    dict_entries d' = dict_entries d \<and> ht_size_exp (ht0 d') \<noteq> -1 \<and> pauserehash d' = pauserehash d"
proof -
  let ?sz = "DICTHT_SIZE (ht_size_exp (ht0 d))" and ?used = "ht_used (ht0 d)"
  have h0: "ht_ok ty (ht0 d)" using assms(1) by (simp add: dict_inv_def)
  have grow: ?thesis if g: "priv_dictExpandIfNeeded ty rz d = dictExpand d sz" "dictExpand d sz = (d', True)" for sz d'
  proof -
    obtain f where "priv_dictExpand d sz None = (d', True, f)"
      using g(2) by (auto simp: dictExpand_def split: prod.splits)
    from priv_dictExpand_ok [OF assms(1) this] g show ?thesis by auto
  qed
  have stay: ?thesis if "priv_dictExpandIfNeeded ty rz d = (d, True)" "ht_size_exp (ht0 d) \<noteq> -1"
    using that assms(1) by auto
  show ?thesis
  proof (cases "rehashidx d = -1")
    case False
    then show ?thesis
      using stay assms(1) by (auto simp: priv_dictExpandIfNeeded_def dictIsRehashing_def dict_inv_def)
  next
    case nr: True
    show ?thesis
    proof (cases "ht_size_exp (ht0 d) = -1")
      case True
      then have "?used = 0" using h0 by (simp add: ht_ok_def)
      then have "\<exists>d'. dictExpand d DICT_HT_INITIAL_SIZE = (d', True)"
        using dictExpand_grows [OF assms(1) nr, of DICT_HT_INITIAL_SIZE] True
          NextExp_bounds(1) [of DICT_HT_INITIAL_SIZE]
        by (simp add: DICT_HT_INITIAL_SIZE_def DICT_HT_INITIAL_EXP_def)
      then show ?thesis
        using grow True nr by (auto simp: priv_dictExpandIfNeeded_def dictIsRehashing_def DICTHT_SIZE_def)
    next
      case False
      then have ex: "2 \<le> ht_size_exp (ht0 d)" "ht_size_exp (ht0 d) \<le> 60" using h0 by (auto simp: ht_ok_def)
      then have sz: "unat ?sz = 2 ^ nat (ht_size_exp (ht0 d))" by (simp add: SIZE_word)
      then have sz0: "?sz \<noteq> 0" by auto
      have len: "length (concat (ht_table (ht0 d))) < 2 ^ 60"
        using assms(2) by (simp add: dict_entries_def)
      have u: "unat ?used < 2 ^ 60" using used_entries [OF h0] len by simp
      show ?thesis
      proof (cases "(rz = DICT_RESIZE_ENABLE \<and> ?sz \<le> ?used \<or>
          rz \<noteq> DICT_RESIZE_FORBID \<and> dict_force_resize_ratio < ?used div ?sz) \<and> dictTypeExpandAllowed ty d")
        case True
        have full: "?sz \<le> ?used"
        proof (rule ccontr)
          assume "\<not> ?sz \<le> ?used"
          then have "unat (?used div ?sz) = 0" by (simp add: word_le_nat_alt unat_div)
          then show False using True \<open>\<not> ?sz \<le> ?used\<close> by (simp add: word_less_nat_alt)
        qed
        have u1: "unat (?used + 1) = Suc (unat ?used)" using u by (simp add: unat_word_ariths)
        have le: "unat (?used + 1) \<le> 2 ^ nat (priv_dictNextExp (?used + 1))"
          using NextExp_bounds(3) [of "?used + 1"] u u1 by simp
        have "ht_size_exp (ht0 d) \<noteq> priv_dictNextExp (?used + 1)"
        proof
          assume eq: "ht_size_exp (ht0 d) = priv_dictNextExp (?used + 1)"
          have "unat ?sz \<le> unat ?used" using full by (simp only: word_le_nat_alt)
          then show False using le sz u1 unfolding eq [symmetric] by linarith
        qed
        moreover have "?used \<le> ?used + 1" using u1 by (simp add: word_le_nat_alt)
        ultimately have "\<exists>d'. dictExpand d (?used + 1) = (d', True)"
          using dictExpand_grows [OF assms(1) nr, of "?used + 1"] u u1 by simp
        then show ?thesis
          using grow True nr sz0 by (auto simp: priv_dictExpandIfNeeded_def dictIsRehashing_def Let_def)
      next
        case nofull: False
        then show ?thesis
          using stay False nr sz0 by (auto simp: priv_dictExpandIfNeeded_def dictIsRehashing_def Let_def)
      qed
    qed
  qed
qed

section \<open>Lookup, insertion, deletion\<close>

lemma replace_bucket_ok:
  assumes "ht_ok ty t" and "ht_size_exp t \<noteq> -1" and "i < length (ht_table t)"
    and "\<forall>e \<in> set c. slot ty (ht_size_exp t) (fst e) = i"
    and "u + of_nat (length (ht_table t ! i)) = ht_used t + of_nat (length c)"
  defines "t' \<equiv> (set_bucket t i c)\<lparr>ht_used := u\<rparr>"
  shows "ht_ok ty t'"
    and "mset (concat (ht_table t')) + mset (ht_table t ! i) = mset (concat (ht_table t)) + mset c"
proof -
  show m: "mset (concat (ht_table t')) + mset (ht_table t ! i) = mset (concat (ht_table t)) + mset c"
    using mset_concat_update [OF assms(3), of c] by (simp add: t'_def set_bucket_def)
  have "length (concat (ht_table t')) + length (ht_table t ! i) = length (concat (ht_table t)) + length c"
    using arg_cong [OF m, of size] by simp
  then have "(of_nat (length (concat (ht_table t')) + length (ht_table t ! i)) :: u64) =
      of_nat (length (concat (ht_table t)) + length c)"
    by (simp only:)
  moreover have "ht_used t = of_nat (length (concat (ht_table t)))"
    using assms(1) by (simp add: ht_ok_def)
  ultimately have "of_nat (length (concat (ht_table t'))) + of_nat (length (ht_table t ! i)) =
      u + (of_nat (length (ht_table t ! i)) :: u64)"
    using assms(5) by (simp only: of_nat_add)
  then have "u = of_nat (length (concat (ht_table t')))" by simp
  then show "ht_ok ty t'"
    using assms(1-4) by (auto simp: ht_ok_def t'_def set_bucket_def nth_list_update)
qed

lemma dict_replace:
  assumes "dict_inv ty d" and "k \<le> 1" and "ht_size_exp (get_ht d k) \<noteq> -1" and "i < length (ht_table (get_ht d k))"
    and "\<forall>e \<in> set c. slot ty (ht_size_exp (get_ht d k)) (fst e) = i"
    and "u + of_nat (length (ht_table (get_ht d k) ! i)) = ht_used (get_ht d k) + of_nat (length c)"
    and "c \<noteq> [] \<and> k = 0 \<and> rehashidx d \<noteq> -1 \<longrightarrow> ht_table (get_ht d k) ! i \<noteq> []"
  defines "d' \<equiv> set_ht d k ((set_bucket (get_ht d k) i c)\<lparr>ht_used := u\<rparr>)"
  shows "mset (dict_entries d') + mset (ht_table (get_ht d k) ! i) = mset (dict_entries d) + mset c"
    and "distinct (map fst (dict_entries d')) \<Longrightarrow> length (dict_entries d') \<le> 2 ^ 60 \<Longrightarrow> dict_inv ty d'"
    and "rehashidx d' = rehashidx d" and "pauserehash d' = pauserehash d"
    and "bucket (get_ht d' k) i = Some c"
proof -
  have ok: "ht_ok ty (get_ht d k)" using assms(1) by (simp add: dict_inv_def get_ht_def)
  note r = replace_bucket_ok [OF ok assms(3-6)]
  have k: "k = 0 \<or> k = 1" using assms(2) by auto
  show "mset (dict_entries d') + mset (ht_table (get_ht d k) ! i) = mset (dict_entries d) + mset c"
    using r(2) k by (auto simp: dict_entries_def d'_def set_ht_def get_ht_def)
  show "rehashidx d' = rehashidx d" "pauserehash d' = pauserehash d" "bucket (get_ht d' k) i = Some c"
    using assms(4) k by (auto simp: d'_def set_ht_def get_ht_def bucket_def set_bucket_def)
  show "dict_inv ty d'" if "distinct (map fst (dict_entries d'))" "length (dict_entries d') \<le> 2 ^ 60"
    using that assms(1,4,7) r(1) k unfolding dict_inv_def
    by (auto simp: d'_def set_ht_def get_ht_def set_bucket_def nth_list_update split: if_splits)
qed

lemma chain_find_Some:
  "keys_by_equality ty \<Longrightarrow> chain_find ty k c = Some p \<Longrightarrow> p < length c \<and> fst (c ! p) = k"
  by (induction c arbitrary: p) (auto simp: keys_by_equality_def split: if_splits)

lemma chain_find_None:
  "keys_by_equality ty \<Longrightarrow> chain_find ty k c = None \<longleftrightarrow> k \<notin> fst ` set c"
  by (induction c) (auto simp: keys_by_equality_def)

lemma key_in_slot:
  assumes "ht_ok ty t" and "e \<in> set (concat (ht_table t))"
  shows "e \<in> set (ht_table t ! slot ty (ht_size_exp t) (fst e))"
proof -
  obtain i where i: "i < length (ht_table t)" "e \<in> set (ht_table t ! i)"
    using assms(2) by (metis concat_eq_concat_iff in_set_conv_nth set_concat UN_E)
  then show ?thesis using assms(1) by (auto simp: ht_ok_def split: if_splits)
qed

definition place_ok :: "'k dictType \<Rightarrow> ('k, 'v) dict \<Rightarrow> 'k \<Rightarrow> dref \<Rightarrow> bool" where
  "place_ok ty d key r \<longleftrightarrow> (case r of (t, i, p) \<Rightarrow>
     t \<le> 1 \<and> ht_size_exp (get_ht d t) \<noteq> -1 \<and> i = slot ty (ht_size_exp (get_ht d t)) key \<and>
     p < length (ht_table (get_ht d t) ! i) \<and> fst (ht_table (get_ht d t) ! i ! p) = key)"

lemma search_tables_ok:
  assumes "dict_inv ty d" and "keys_by_equality ty" and "ht_size_exp (ht0 d) \<noteq> -1"
  shows "(\<exists>r i. search_tables ty d key (hashFunction ty key) = Some (Some r, i) \<and> place_ok ty d key r) \<or>
    search_tables ty d key (hashFunction ty key) =
      Some (None, slot ty (ht_size_exp (get_ht d (if dictIsRehashing d then 1 else 0))) key) \<and>
    key \<notin> fst ` set (dict_entries d)"
proof -
  have ok: "ht_ok ty (ht0 d)" "ht_ok ty (ht1 d)" using assms(1) by (auto simp: dict_inv_def)
  let ?i0 = "slot ty (ht_size_exp (ht0 d)) key" and ?i1 = "slot ty (ht_size_exp (ht1 d)) key"
  note b0 = bucket_slot(2) [OF ok(1) assms(3), of key]
  have t0: "key \<notin> fst ` set (concat (ht_table (ht0 d)))" if "chain_find ty key (ht_table (ht0 d) ! ?i0) = None"
    using that key_in_slot [OF ok(1)] chain_find_None [OF assms(2)] by force
  have t1: "key \<notin> fst ` set (concat (ht_table (ht1 d)))" if "chain_find ty key (ht_table (ht1 d) ! ?i1) = None"
    using that key_in_slot [OF ok(2)] chain_find_None [OF assms(2)] by force
  show ?thesis
  proof (cases "chain_find ty key (ht_table (ht0 d) ! ?i0)")
    case (Some p)
    then show ?thesis
      using b0 chain_find_Some [OF assms(2) Some] assms(3)
      by (auto simp: search_tables_def place_ok_def get_ht_def Let_def simp flip: slot_def)
  next
    case None
    show ?thesis
    proof (cases "rehashidx d = -1")
      case True
      then have "ht_table (ht1 d) = []" using assms(1) ok(2) by (simp add: dict_inv_def ht_ok_def)
      then show ?thesis
        using b0 None t0 [OF None] True
        by (auto simp: search_tables_def get_ht_def Let_def dictIsRehashing_def dict_entries_def simp flip: slot_def)
    next
      case False
      then have e1: "ht_size_exp (ht1 d) \<noteq> -1" using assms(1) by (simp add: dict_inv_def)
      note b1 = bucket_slot(2) [OF ok(2) e1, of key]
      show ?thesis
      proof (cases "chain_find ty key (ht_table (ht1 d) ! ?i1)")
        case (Some p)
        then show ?thesis
          using b0 b1 None chain_find_Some [OF assms(2) Some] e1 False
          by (auto simp: search_tables_def place_ok_def get_ht_def Let_def dictIsRehashing_def simp flip: slot_def)
      next
        case none1: None
        then show ?thesis
          using b0 b1 None t0 [OF None] t1 [OF none1] False
          by (auto simp: search_tables_def get_ht_def Let_def dictIsRehashing_def dict_entries_def simp flip: slot_def)
      qed
    qed
  qed
qed

text \<open>Adding and removing one entry, on the level of the map.\<close>

lemma map_of_mset_add:
  assumes "distinct (map fst E)" and "mset E' = add_mset (k, v) (mset E)" and "k \<notin> fst ` set E"
  shows "distinct (map fst E')" and "map_of E' = (map_of E)(k \<mapsto> v)" and "length E' = Suc (length E)"
proof -
  have m: "mset E' = mset ((k, v) # E)" using assms(2) by simp
  have "mset (map fst E') = mset (map fst ((k, v) # E))" using m by simp
  then show d: "distinct (map fst E')"
    using assms(1,3) mset_eq_imp_distinct_iff by fastforce
  have "distinct (map fst ((k, v) # E))" using assms(1,3) by simp
  then have "map_of E' = map_of ((k, v) # E)"
    using d m map_of_inject_set mset_eq_setD by blast
  then show "map_of E' = (map_of E)(k \<mapsto> v)" by simp
  show "length E' = Suc (length E)" using arg_cong [OF m, of size] by simp
qed

lemma map_of_mset_remove:
  assumes "distinct (map fst E)" and "add_mset (k, v) (mset E') = mset E"
  shows "distinct (map fst E')" and "map_of E' = (map_of E)(k := None)" and "map_of E k = Some v"
    and "k \<notin> fst ` set E'" and "Suc (length E') = length E"
proof -
  have m: "mset E = mset ((k, v) # E')" using assms(2) by simp
  have "mset (map fst E) = mset (map fst ((k, v) # E'))" using m by simp
  then have d: "distinct (map fst ((k, v) # E'))"
    using assms(1) mset_eq_imp_distinct_iff by blast
  then show "distinct (map fst E')" "k \<notin> fst ` set E'" by auto
  have e: "map_of E = map_of ((k, v) # E')"
    using d assms(1) m map_of_inject_set mset_eq_setD by blast
  then show "map_of E k = Some v" by simp
  show "map_of E' = (map_of E)(k := None)"
    using e \<open>k \<notin> fst ` set E'\<close> by (auto simp: map_of_eq_None_iff)
  show "Suc (length E') = length E" using arg_cong [OF m, of size] by simp
qed

lemma dict_invD:
  assumes "dict_inv ty d"
  shows "ht_ok ty (ht0 d)" and "ht_ok ty (ht1 d)" and "distinct (map fst (dict_entries d))"
    and "length (dict_entries d) \<le> 2 ^ 60"
    and "rehashidx d = -1 \<Longrightarrow> ht_size_exp (ht1 d) = -1"
    and "rehashidx d \<noteq> -1 \<Longrightarrow> ht_size_exp (ht0 d) \<noteq> -1"
    and "rehashidx d \<noteq> -1 \<Longrightarrow> ht_size_exp (ht1 d) \<noteq> -1"
  using assms unfolding dict_inv_def by (simp_all split: if_splits)

lemma ht_ok_null: "ht_ok ty t \<Longrightarrow> ht_size_exp t = -1 \<Longrightarrow> ht_table t = []"
  by (simp add: ht_ok_def)

lemma rehash_step_ok:
  assumes "dict_inv ty d"
  shows "\<exists>d'. (if dictIsRehashing d then priv_dictRehashStep ty rz d else Some d) = Some d' \<and> dict_inv ty d' \<and>
    mset (dict_entries d') = mset (dict_entries d) \<and> (ht_size_exp (ht0 d) \<noteq> -1 \<longrightarrow> ht_size_exp (ht0 d') \<noteq> -1)"
  using dictRehash_ok [OF assms, of rz 1] assms by (auto simp: priv_dictRehashStep_def)

lemma dictSize_entries:
  assumes "dict_inv ty d"
  shows "unat (dictSize d) = length (dict_entries d)"
proof -
  have "ht_ok ty (ht0 d)" "ht_ok ty (ht1 d)" using assms by (auto simp: dict_inv_def)
  then have "dictSize d = of_nat (length (dict_entries d))"
    by (simp add: dictSize_def dict_entries_def ht_ok_def)
  moreover have "length (dict_entries d) < 2 ^ 64" using assms by (simp add: dict_inv_def)
  ultimately show ?thesis
    using unat_of_nat [where 'a = 64, of "length (dict_entries d)"] by (simp add: take_bit_nat_eq_self)
qed

lemma nonempty_table:
  assumes "dict_inv ty d" and "dictSize d \<noteq> 0"
  shows "ht_size_exp (ht0 d) \<noteq> -1"
proof
  assume e0: "ht_size_exp (ht0 d) = -1"
  then have "ht_size_exp (ht1 d) = -1" using dict_invD(5,6) [OF assms(1)] by blast
  then have "ht_table (ht0 d) = []" "ht_table (ht1 d) = []"
    using e0 ht_ok_null dict_invD(1,2) [OF assms(1)] by blast+
  then have "dict_entries d = []" by (simp add: dict_entries_def)
  then show False using dictSize_entries [OF assms(1)] assms(2) by (simp add: unat_eq_zero)
qed

lemma mset_same:
  assumes "dict_inv ty d" and "mset (dict_entries d') = mset (dict_entries d)"
  shows "dict_map d' = dict_map d" and "length (dict_entries d') = length (dict_entries d)"
    and "fst ` set (dict_entries d') = fst ` set (dict_entries d)"
  using dict_map_mset [OF dict_invD(3) [OF assms(1)] assms(2)] mset_eq_setD [OF assms(2)] by simp_all

lemma map_None: "key \<notin> fst ` set (dict_entries d) \<longleftrightarrow> dict_map d key = None"
  by (simp add: dict_map_def map_of_eq_None_iff)

text \<open>The entry at a place found by the search.\<close>

lemma place_entry:
  assumes "dict_inv ty d" and "place_ok ty d key (t, i, p)"
  defines "c \<equiv> ht_table (get_ht d t) ! i"
  shows "bucket (get_ht d t) i = Some c" and "i < length (ht_table (get_ht d t))"
    and "entry_at d (t, i, p) = Some (c ! p)" and "fst (c ! p) = key"
    and "dict_map d key = Some (snd (c ! p))"
proof -
  have ok: "ht_ok ty (get_ht d t)" using assms(1) by (simp add: dict_inv_def get_ht_def)
  have pl: "t \<le> 1" "ht_size_exp (get_ht d t) \<noteq> -1" "i = slot ty (ht_size_exp (get_ht d t)) key"
      "p < length c" "fst (c ! p) = key"
    using assms(2) by (auto simp: place_ok_def c_def)
  show b: "bucket (get_ht d t) i = Some c" and i: "i < length (ht_table (get_ht d t))"
    using bucket_slot [OF ok pl(2), of key] pl(3) by (simp_all add: c_def)
  show "entry_at d (t, i, p) = Some (c ! p)" "fst (c ! p) = key"
    using b pl(4,5) by (simp_all add: entry_at_def)
  have "c ! p \<in> set (concat (ht_table (get_ht d t)))"
    using i pl(4) unfolding c_def by (metis nth_mem set_concat UN_I)
  then have "(key, snd (c ! p)) \<in> set (dict_entries d)"
    using pl(5) by (auto simp: dict_entries_def get_ht_def split: if_splits)
  then show "dict_map d key = Some (snd (c ! p))"
    using assms(1) by (simp add: dict_map_def dict_inv_def)
qed

lemma mset_take_drop:
  "p < length c \<Longrightarrow> mset c = add_mset (c ! p) (mset (take p c @ drop (Suc p) c))"
  by (subst id_take_nth_drop [of p c]) (simp_all add: union_commute)

lemma dictAddRaw_ok:
  assumes "dict_inv ty d" and "keys_by_equality ty" and "length (dict_entries d) < 2 ^ 60"
  shows "(\<exists>d' r v. dictAddRaw ty rz v0 d key = Some (d', Inl (Some r)) \<and> dict_inv ty d' \<and>
      mset (dict_entries d') = mset (dict_entries d) \<and> place_ok ty d' key r \<and> dict_map d key = Some v) \<or>
    (\<exists>d' r. dictAddRaw ty rz v0 d key = Some (d', Inr r) \<and> dict_inv ty d' \<and>
      mset (dict_entries d') = add_mset (key, v0) (mset (dict_entries d)) \<and> place_ok ty d' key r \<and>
      dict_map d key = None)"
proof -
  obtain d1 where d1: "(if dictIsRehashing d then priv_dictRehashStep ty rz d else Some d) = Some d1"
      "dict_inv ty d1" "mset (dict_entries d1) = mset (dict_entries d)"
    using rehash_step_ok [OF assms(1)] by blast
  have "length (dict_entries d1) < 2 ^ 60" using mset_same(2) [OF assms(1) d1(3)] assms(3) by simp
  then obtain d2 where d2: "priv_dictExpandIfNeeded ty rz d1 = (d2, True)" "dict_inv ty d2"
      "dict_entries d2 = dict_entries d1" "ht_size_exp (ht0 d2) \<noteq> -1"
    using dictExpandIfNeeded_ok [OF d1(2)] by blast
  have ms: "mset (dict_entries d2) = mset (dict_entries d)" using d1(3) d2(3) by simp
  note same = mset_same [OF assms(1) ms]
  let ?k = "if dictIsRehashing d2 then 1 else 0 :: nat"
  let ?i = "slot ty (ht_size_exp (get_ht d2 ?k)) key"
  consider r i where "search_tables ty d2 key (hashFunction ty key) = Some (Some r, i)" "place_ok ty d2 key r"
    | "search_tables ty d2 key (hashFunction ty key) = Some (None, ?i)" "key \<notin> fst ` set (dict_entries d2)"
    using search_tables_ok [OF d2(2) assms(2) d2(4), of key] by blast
  then show ?thesis
  proof cases
    case (1 r i)
    then have "dictAddRaw ty rz v0 d key = Some (d2, Inl (Some r))"
      by (simp add: dictAddRaw_def d1(1) priv_dictKeyIndex_def d2(1))
    moreover obtain t j p where "r = (t, j, p)" by (cases r)
    ultimately show ?thesis
      using 1(2) d2(2) ms same(1) place_entry(5) [OF d2(2), of key t j p] by auto
  next
    case 2
    let ?t = "get_ht d2 ?k" and ?c = "ht_table (get_ht d2 ?k) ! ?i"
    have ex: "ht_size_exp ?t \<noteq> -1"
      using d2(2,4) by (auto simp: get_ht_def dictIsRehashing_def dict_inv_def split: if_splits)
    have ok: "ht_ok ty ?t" using d2(2) by (simp add: dict_inv_def get_ht_def)
    let ?d = "set_ht d2 ?k ((set_bucket ?t ?i ((key, v0) # ?c))\<lparr>ht_used := ht_used ?t + 1\<rparr>)"
    have i: "?i < length (ht_table ?t)" using bucket_slot(1) [OF ok ex] by simp
    have sl: "\<forall>e \<in> set ((key, v0) # ?c). slot ty (ht_size_exp ?t) (fst e) = ?i"
      using ok ex i by (simp add: ht_ok_def)
    have *: "?k \<le> 1" "ht_used ?t + 1 + of_nat (length ?c) = ht_used ?t + of_nat (length ((key, v0) # ?c))"
      "(key, v0) # ?c \<noteq> [] \<and> ?k = 0 \<and> rehashidx d2 \<noteq> -1 \<longrightarrow> ?c \<noteq> []"
      by (auto simp: dictIsRehashing_def)
    note r = dict_replace [OF d2(2) *(1) ex i sl *(2,3)]
    have add: "dictAddRaw ty rz v0 d key = Some (?d, Inr (?k, ?i, 0))"
      using 2 bucket_slot(2) [OF ok ex, of key]
      by (simp add: dictAddRaw_def d1(1) priv_dictKeyIndex_def d2(1) set_bucket_def Let_def)
    have me: "mset (dict_entries ?d) = add_mset (key, v0) (mset (dict_entries d2))"
      using r(1) by simp
    have dis: "distinct (map fst (dict_entries d2))" using d2(2) by (simp add: dict_inv_def)
    note mp = map_of_mset_add [OF dis me 2(2)]
    have "dict_inv ty ?d"
      using r(2) mp(1,3) same(2) assms(3) by simp
    moreover have "place_ok ty ?d key (?k, ?i, 0)"
      using ex i by (auto simp: place_ok_def get_ht_def set_ht_def set_bucket_def)
    ultimately show ?thesis
      using add me ms 2(2) same(3) map_None [of key d] by auto
  qed
qed

lemma dictSetVal_ok:
  assumes "dict_inv ty d" and "place_ok ty d key r"
  shows "\<exists>d'. dictSetVal d r v = Some d' \<and> dict_inv ty d' \<and> dict_map d' = (dict_map d)(key \<mapsto> v) \<and>
    length (dict_entries d') = length (dict_entries d)"
proof -
  obtain t i p where r: "r = (t, i, p)" by (cases r)
  note pl = assms(2) [unfolded r]
  let ?c = "ht_table (get_ht d t) ! i"
  let ?c' = "?c[p := (key, v)]"
  note e = place_entry [OF assms(1) pl]
  have q: "t \<le> 1" "ht_size_exp (get_ht d t) \<noteq> -1" "i = slot ty (ht_size_exp (get_ht d t)) key" "p < length ?c"
    using pl by (auto simp: place_ok_def)
  have ok: "ht_ok ty (get_ht d t)" using assms(1) by (simp add: dict_inv_def get_ht_def)
  have sl: "\<forall>e \<in> set ?c'. slot ty (ht_size_exp (get_ht d t)) (fst e) = i"
    using ok q(2,3) e(2) by (auto simp: ht_ok_def dest!: set_update_subset_insert [THEN subsetD])
  let ?d = "set_ht d t ((set_bucket (get_ht d t) i ?c')\<lparr>ht_used := ht_used (get_ht d t)\<rparr>)"
  have rep: "?c' \<noteq> [] \<and> t = 0 \<and> rehashidx d \<noteq> -1 \<longrightarrow> ?c \<noteq> []" by auto
  note rr = dict_replace [OF assms(1) q(1,2) e(2) sl _ rep, of "ht_used (get_ht d t)"]
  let ?cr = "take p ?c @ drop (Suc p) ?c"
  have mc: "mset ?c = add_mset (key, snd (?c ! p)) (mset ?cr)"
    using mset_take_drop [OF q(4)] e(4) by (metis prod.collapse)
  have mc': "mset ?c' = add_mset (key, v) (mset ?cr)"
    using mset_take_drop [of p ?c'] q(4) by simp
  have "(key, snd (?c ! p)) \<in># mset (dict_entries d)"
    using e(5) map_of_SomeD by (fastforce simp: dict_map_def)
  then obtain M where M: "mset (dict_entries d) = add_mset (key, snd (?c ! p)) M"
    by (metis insert_DiffM)
  obtain E where E: "mset E = M" using ex_mset by blast
  have "mset (dict_entries ?d) + mset ?c = mset (dict_entries d) + mset ?c'" by (rule rr(1)) simp
  then have m': "mset (dict_entries ?d) = add_mset (key, v) (mset E)"
    unfolding mc mc' M E by simp
  have m: "add_mset (key, snd (?c ! p)) (mset E) = mset (dict_entries d)" by (simp add: M E)
  have dis: "distinct (map fst (dict_entries d))" using assms(1) by (simp add: dict_inv_def)
  note rm = map_of_mset_remove [OF dis m]
  note ad = map_of_mset_add [OF rm(1) m' rm(4)]
  have "dict_inv ty ?d"
    using rr(2) ad(1,3) rm(5) assms(1) by (simp add: dict_inv_def)
  moreover have "dictSetVal d r v = Some ?d"
    using e q(4) by (simp add: r dictSetVal_def set_bucket_def)
  ultimately show ?thesis
    using ad rm(2,5) by (simp add: dict_map_def)
qed

lemma dictFind_ok:
  assumes "dict_inv ty d" and "keys_by_equality ty"
  shows "\<exists>d' r. dictFind ty rz d key = Some (d', r) \<and> dict_inv ty d' \<and> mset (dict_entries d') = mset (dict_entries d) \<and>
    (case r of None \<Rightarrow> dict_map d key = None | Some r \<Rightarrow> place_ok ty d' key r)"
proof (cases "dictSize d = 0")
  case True
  then have "dict_entries d = []" using dictSize_entries [OF assms(1)] by simp
  then show ?thesis using True assms(1) by (simp add: dictFind_def dict_map_def)
next
  case False
  obtain d1 where d1: "(if dictIsRehashing d then priv_dictRehashStep ty rz d else Some d) = Some d1"
      "dict_inv ty d1" "mset (dict_entries d1) = mset (dict_entries d)" "ht_size_exp (ht0 d1) \<noteq> -1"
    using rehash_step_ok [OF assms(1), of rz] nonempty_table [OF assms(1) False] by blast
  from search_tables_ok [OF d1(2) assms(2) d1(4), of key] show ?thesis
    using False d1 mset_same(3) [OF assms(1) d1(3)] map_None [of key d]
    by (auto simp: dictFind_def)
qed

lemma dictFetchValue_ok:
  assumes "dict_inv ty d" and "keys_by_equality ty"
  shows "\<exists>d'. dictFetchValue ty rz d key = Some (d', dict_map d key) \<and> dict_inv ty d' \<and> dict_map d' = dict_map d"
proof -
  obtain d' r where f: "dictFind ty rz d key = Some (d', r)" "dict_inv ty d'"
      "mset (dict_entries d') = mset (dict_entries d)"
      "case r of None \<Rightarrow> dict_map d key = None | Some r \<Rightarrow> place_ok ty d' key r"
    using dictFind_ok [OF assms] by blast
  note same = mset_same(1) [OF assms(1) f(3)]
  show ?thesis
  proof (cases r)
    case None
    then show ?thesis using f same by (simp add: dictFetchValue_def)
  next
    case (Some p)
    obtain t i j where p: "p = (t, i, j)" by (cases p)
    then show ?thesis
      using f Some same place_entry(3,5) [OF f(2), of key t i j] by (simp add: dictFetchValue_def)
  qed
qed

lemma dictGenericDelete_ok:
  assumes "dict_inv ty d" and "keys_by_equality ty"
  shows "\<exists>d'. dictGenericDelete ty rz d key = Some (d', map_option (Pair key) (dict_map d key)) \<and>
    dict_inv ty d' \<and> dict_map d' = (dict_map d)(key := None)"
proof (cases "dictSize d = 0")
  case True
  then have "dict_entries d = []" using dictSize_entries [OF assms(1)] by simp
  then show ?thesis using True assms(1) by (simp add: dictGenericDelete_def dict_map_def)
next
  case False
  obtain d1 where d1: "(if dictIsRehashing d then priv_dictRehashStep ty rz d else Some d) = Some d1"
      "dict_inv ty d1" "mset (dict_entries d1) = mset (dict_entries d)" "ht_size_exp (ht0 d1) \<noteq> -1"
    using rehash_step_ok [OF assms(1), of rz] nonempty_table [OF assms(1) False] by blast
  note same = mset_same(1) [OF assms(1) d1(3)]
  consider r n where "search_tables ty d1 key (hashFunction ty key) = Some (Some r, n)" "place_ok ty d1 key r"
    | n where "search_tables ty d1 key (hashFunction ty key) = Some (None, n)" "key \<notin> fst ` set (dict_entries d1)"
    using search_tables_ok [OF d1(2) assms(2) d1(4), of key] by blast
  then show ?thesis
  proof cases
    case 2
    then have "dict_map d key = None" using same map_None [of key d1] by simp
    then show ?thesis
      using 2(1) False d1(1,2) same by (auto simp: dictGenericDelete_def)
  next
    case (1 r n)
    obtain t i p where r: "r = (t, i, p)" by (cases r)
    note pl = 1(2) [unfolded r]
    let ?t = "get_ht d1 t"
    let ?c = "ht_table ?t ! i"
    let ?c' = "take p ?c @ drop (Suc p) ?c"
    note e = place_entry [OF d1(2) pl]
    have q: "t \<le> 1" "ht_size_exp ?t \<noteq> -1" "p < length ?c"
      using pl by (auto simp: place_ok_def)
    have ok: "ht_ok ty ?t" using d1(2) by (simp add: dict_inv_def get_ht_def)
    have sl: "\<forall>e \<in> set ?c'. slot ty (ht_size_exp ?t) (fst e) = i"
    proof
      fix x assume "x \<in> set ?c'"
      then have "x \<in> set ?c" by (auto dest: in_set_takeD in_set_dropD)
      then show "slot ty (ht_size_exp ?t) (fst x) = i" using ok q(2) e(2) by (simp add: ht_ok_def)
    qed
    have len: "length ?c = Suc (length ?c')" using q(3) by simp
    have used: "ht_used ?t - 1 + of_nat (length ?c) = ht_used ?t + of_nat (length ?c')"
      unfolding len by simp
    have ne: "?c' \<noteq> [] \<and> t = 0 \<and> rehashidx d1 \<noteq> -1 \<longrightarrow> ?c \<noteq> []" using q(3) by auto
    let ?d = "set_ht d1 t ((set_bucket ?t i ?c')\<lparr>ht_used := ht_used ?t - 1\<rparr>)"
    note rr = dict_replace [OF d1(2) q(1,2) e(2) sl used ne]
    have cp: "(key, snd (?c ! p)) = ?c ! p" using e(4) by (simp add: prod_eq_iff)
    have "mset ?c = add_mset (key, snd (?c ! p)) (mset ?c')"
      unfolding cp by (rule mset_take_drop [OF q(3)])
    then have m: "add_mset (key, snd (?c ! p)) (mset (dict_entries ?d)) = mset (dict_entries d1)"
      using rr(1) by simp
    note rm = map_of_mset_remove [OF dict_invD(3) [OF d1(2)] m]
    have "dict_inv ty ?d"
      using rr(2) rm(1,5) dict_invD(4) [OF d1(2)] by simp
    moreover have "dictGenericDelete ty rz d key = Some (?d, Some (?c ! p))"
      using 1(1) False d1(1) e(1) by (simp add: r dictGenericDelete_def set_bucket_def)
    ultimately show ?thesis
      using rm(2) same e(5) cp unfolding dict_map_def by auto
  qed
qed

text \<open>The value \<open>dictUnlink\<close> and \<open>dictDelete\<close> remove, as the map contract reports it.\<close>

definition dict_unlink_value :: "'k dictType \<Rightarrow> dictResizeEnable \<Rightarrow> ('k, 'v) dict \<Rightarrow> 'k \<Rightarrow>
    (('k, 'v) dict \<times> 'v option) option" where
  "dict_unlink_value ty rz d key = map_option (\<lambda>(d, e). (d, map_option snd e)) (dictUnlink ty rz d key)"

lemma dictAdd_ok:
  assumes "dict_inv ty d" and "keys_by_equality ty" and "length (dict_entries d) < 2 ^ 60"
  shows "\<exists>d'. dictAdd ty rz v0 d key v = Some (d', dict_map d key = None) \<and> dict_inv ty d' \<and>
    dict_map d' = (if dict_map d key = None then (dict_map d)(key \<mapsto> v) else dict_map d)"
  using dictAddRaw_ok [OF assms, of rz v0 key]
proof (elim disjE exE conjE)
  fix d1 r w
  assume a: "dictAddRaw ty rz v0 d key = Some (d1, Inl (Some r))" "dict_inv ty d1"
    "mset (dict_entries d1) = mset (dict_entries d)" "dict_map d key = Some w"
  then show ?thesis using mset_same(1) [OF assms(1) a(3)] by (simp add: dictAdd_def)
next
  fix d1 r
  assume a: "dictAddRaw ty rz v0 d key = Some (d1, Inr r)" "dict_inv ty d1"
    "mset (dict_entries d1) = add_mset (key, v0) (mset (dict_entries d))" "place_ok ty d1 key r" "dict_map d key = None"
  have "dict_map d1 = (dict_map d)(key \<mapsto> v0)"
    using map_of_mset_add(2) [OF dict_invD(3) [OF assms(1)] a(3)] a(5) map_None [of key d] by (simp add: dict_map_def)
  then show ?thesis
    using a dictSetVal_ok [OF a(2,4), of v] by (auto simp: dictAdd_def)
qed

lemma dictReplace_ok:
  assumes "dict_inv ty d" and "keys_by_equality ty" and "length (dict_entries d) < 2 ^ 60"
  shows "\<exists>d'. dictReplace ty rz v0 d key v = Some (d', dict_map d key = None) \<and> dict_inv ty d' \<and>
    dict_map d' = (dict_map d)(key \<mapsto> v)"
  using dictAddRaw_ok [OF assms, of rz v0 key]
proof (elim disjE exE conjE)
  fix d1 r w
  assume a: "dictAddRaw ty rz v0 d key = Some (d1, Inl (Some r))" "dict_inv ty d1"
    "mset (dict_entries d1) = mset (dict_entries d)" "place_ok ty d1 key r" "dict_map d key = Some w"
  then show ?thesis
    using dictSetVal_ok [OF a(2,4), of v] mset_same(1) [OF assms(1) a(3)] by (auto simp: dictReplace_def)
next
  fix d1 r
  assume a: "dictAddRaw ty rz v0 d key = Some (d1, Inr r)" "dict_inv ty d1"
    "mset (dict_entries d1) = add_mset (key, v0) (mset (dict_entries d))" "place_ok ty d1 key r" "dict_map d key = None"
  have "dict_map d1 = (dict_map d)(key \<mapsto> v0)"
    using map_of_mset_add(2) [OF dict_invD(3) [OF assms(1)] a(3)] a(5) map_None [of key d] by (simp add: dict_map_def)
  then show ?thesis
    using a dictSetVal_ok [OF a(2,4), of v] by (auto simp: dictReplace_def)
qed

lemma card_dict_map:
  assumes "dict_inv ty d"
  shows "card (dom (dict_map d)) = length (dict_entries d)" and "finite (dom (dict_map d))"
proof -
  have "dom (dict_map d) = set (map fst (dict_entries d))"
    by (simp add: dict_map_def dom_map_of_conv_image_fst)
  then show "card (dom (dict_map d)) = length (dict_entries d)"
    using dict_invD(3) [OF assms] by (metis distinct_card length_map)
  show "finite (dom (dict_map d))" by (simp add: dict_map_def finite_dom_map_of)
qed

text \<open>A dictionary together with its type; the type decides the invariant.\<close>

definition dict_good :: "'k dictType \<Rightarrow> ('k, 'v) dict \<Rightarrow> bool" where
  "dict_good ty d \<longleftrightarrow> keys_by_equality ty \<and> dict_inv ty d"

interpretation dmap: map_impl "dict_good ty" dict_map "2 ^ 60" "dictAdd ty rz v0" "dictReplace ty rz v0"
    "dict_unlink_value ty rz" "dictFetchValue ty rz"
  for ty :: "'k dictType" and rz :: dictResizeEnable and v0 :: 'v
proof
  fix d :: "('k, 'v) dict" and k v
  assume "dict_good ty d"
  then have g: "dict_inv ty d" "keys_by_equality ty" by (auto simp: dict_good_def)
  note c = card_dict_map [OF g(1)]
  show "finite (dom (dict_map d))" by (rule c)
  show "\<exists>d'. dictAdd ty rz v0 d k v = Some (d', dict_map d k = None) \<and> dict_good ty d' \<and>
      dict_map d' = (if dict_map d k = None then (dict_map d)(k \<mapsto> v) else dict_map d)"
    if "card (dom (dict_map d)) < 2 ^ 60"
    using dictAdd_ok [OF g, of rz v0 k v] that g(2) unfolding c(1) dict_good_def by blast
  show "\<exists>d'. dictReplace ty rz v0 d k v = Some (d', dict_map d k = None) \<and> dict_good ty d' \<and>
      dict_map d' = (dict_map d)(k \<mapsto> v)"
    if "card (dom (dict_map d)) < 2 ^ 60"
    using dictReplace_ok [OF g, of rz v0 k v] that g(2) unfolding c(1) dict_good_def by blast
  show "\<exists>d'. dict_unlink_value ty rz d k = Some (d', dict_map d k) \<and> dict_good ty d' \<and>
      dict_map d' = (dict_map d)(k := None)"
    using dictGenericDelete_ok [OF g, of rz k] g(2)
    by (auto simp: dict_unlink_value_def dictUnlink_def dict_good_def option.map_comp comp_def option.map_ident)
  show "\<exists>d'. dictFetchValue ty rz d k = Some (d', dict_map d k) \<and> dict_good ty d' \<and> dict_map d' = dict_map d"
    using dictFetchValue_ok [OF g, of rz k] g(2) unfolding dict_good_def by blast
qed

lemma dictCreate_good:
  assumes "keys_by_equality ty"
  shows "dict_good ty dictCreate" and "dict_map dictCreate = Map.empty"
  using assms by (simp_all add: dict_good_def dict_inv_def dictCreate_def dict_entries_def dict_map_def ht_reset_ok)

text \<open>
  C13: Every sequence of at most \<open>2 ^ 60\<close> calls of \<open>dictAdd\<close>, \<open>dictReplace\<close>, \<open>dictUnlink\<close> and
  \<open>dictFetchValue\<close> on a new dictionary returns without leaving the tables and gives the answers
  of a finite map, for every hash function, every resize policy and every \<open>expandAllowed\<close>,
  through table growth and incremental rehashing. The dictionary stays well-formed: every
  entry is in the bucket of its hash, keys are unique, the counters are exact, and the buckets
  of the old table below \<open>rehashidx\<close> are empty.
\<close>

theorem dict_refines_map:
  assumes "keys_by_equality ty" and "length ops \<le> 2 ^ 60"
  shows "\<exists>d. run_ops (map_step (dictAdd ty rz v0) (dictReplace ty rz v0) (dict_unlink_value ty rz) (dictFetchValue ty rz))
      ops dictCreate = Some (d, snd (run_spec map_spec ops Map.empty)) \<and>
    dict_inv ty d \<and> dict_map d = fst (run_spec map_spec ops Map.empty)"
proof -
  have "card (dom (dict_map dictCreate)) + length ops \<le> 2 ^ 60"
    using assms(2) unfolding dictCreate_good(2) [OF assms(1)] by simp
  from dmap.run_refines [OF dictCreate_good(1) [OF assms(1)] this, of rz v0] show ?thesis
    unfolding dictCreate_good(2) [OF assms(1)] dict_good_def by blast
qed

text \<open>A dictionary type with a poor hash function, for the witnesses.\<close>

definition nat_type :: "nat dictType" where
  "nat_type = \<lparr>hashFunction = of_nat, keyCompare = (=), expandAllowed = None\<rparr>"

lemma nat_type_eq: "keys_by_equality nat_type"
  by (simp add: keys_by_equality_def nat_type_def)

theorem dict_refines_map_witness:
  "\<exists>d. run_ops (map_step (dictAdd nat_type DICT_RESIZE_ENABLE 0) (dictReplace nat_type DICT_RESIZE_ENABLE 0)
      (dict_unlink_value nat_type DICT_RESIZE_ENABLE) (dictFetchValue nat_type DICT_RESIZE_ENABLE))
      [Map_add 1 (10 :: nat), Map_add 1 11, Map_replace 1 12, Map_fetch 1, Map_delete 1, Map_fetch 1] dictCreate =
    Some (d, [Changed True, Changed False, Changed False, Found (Some 12), Found (Some 12), Found None])"
  using dict_refines_map [OF nat_type_eq, of "[Map_add 1 (10 :: nat), Map_add 1 11, Map_replace 1 12, Map_fetch 1, Map_delete 1, Map_fetch 1]"
      DICT_RESIZE_ENABLE 0] by auto

end
