(* ===== verification/Redis_Dict_Scan.thy ===== *)
theory Redis_Dict_Scan
  imports Redis_Dict
begin

text \<open>
  Iteration over the hash table of \<open>dict.c\<close>: the stateless cursor of \<open>dictScan\<close>. The bit
  reversal \<open>rev\<close> makes the cursor a position in the reversed order of the hash values; every
  table size divides that order into blocks, and a call reports all keys from the cursor to
  the end of its block. This gives the guarantee of SCAN across resizing.
\<close>

section \<open>The reversed cursor\<close>

lemma rev_step_bit:
  assumes "n < 64"
  shows "bit ((drop_bit s v AND m) OR (push_bit s v AND NOT m) :: u64) n =
    (if bit m n then bit v (n + s) else s \<le> n \<and> bit v (n - s))"
  using assms by (auto simp: bit_simps add.commute [of n] dest: bit_imp_le_length)

text \<open>
  One round of the reversal swaps neighbouring blocks of \<open>s\<close> bits. \<open>flip_blocks s n\<close> is the
  position bit \<open>n\<close> comes from when the blocks of \<open>s\<close> bits have been reversed as a whole.
\<close>

definition flip_blocks :: "nat \<Rightarrow> nat \<Rightarrow> nat" where
  "flip_blocks s n = (63 - n) div s * s + n mod s"

definition flip_check :: "nat \<Rightarrow> nat \<Rightarrow> bool" where
  "flip_check s n \<longleftrightarrow>
     (even (n div (2 * s)) \<noteq> (s \<le> n \<and> even ((n - s) div (2 * s)))) = even (n div s) \<and>
     (if even (n div s) then n + s < 64 \<and> flip_blocks (2 * s) (n + s) = flip_blocks s n
      else s \<le> n \<and> flip_blocks (2 * s) (n - s) = flip_blocks s n)"

lemma flip_checked: "list_all (\<lambda>s. list_all (flip_check s) [0..<64]) [32, 16, 8, 4, 2, 1]"
  by code_simp

lemma rev_step:
  assumes "s \<in> set [32, 16, 8, 4, 2, 1]"
    and m: "\<And>n. n < 64 \<Longrightarrow> bit (m :: u64) n = even (n div (2 * s))"
    and v: "\<And>n. n < 64 \<Longrightarrow> bit (v :: u64) n = bit w (flip_blocks (2 * s) n)"
    and n: "n < 64"
  shows "bit (m XOR push_bit s m) n = even (n div s)"
    and "bit ((drop_bit s v AND (m XOR push_bit s m)) OR (push_bit s v AND NOT (m XOR push_bit s m))) n =
      bit w (flip_blocks s n)"
proof -
  have "flip_check s n"
    using flip_checked assms(1) n by (auto simp: list_all_iff)
  then have c: "(even (n div (2 * s)) \<noteq> (s \<le> n \<and> even ((n - s) div (2 * s)))) = even (n div s)"
      "even (n div s) \<Longrightarrow> n + s < 64 \<and> flip_blocks (2 * s) (n + s) = flip_blocks s n"
      "odd (n div s) \<Longrightarrow> s \<le> n \<and> flip_blocks (2 * s) (n - s) = flip_blocks s n"
    by (auto simp: flip_check_def split: if_splits)
  have "bit (m XOR push_bit s m) n = (even (n div (2 * s)) \<noteq> (s \<le> n \<and> even ((n - s) div (2 * s))))"
    using n m by (auto simp: bit_simps)
  then show e: "bit (m XOR push_bit s m) n = even (n div s)" using c(1) by simp
  show "bit ((drop_bit s v AND (m XOR push_bit s m)) OR (push_bit s v AND NOT (m XOR push_bit s m))) n =
      bit w (flip_blocks s n)"
    unfolding rev_step_bit [OF n] e using c(2,3) v [of "n + s"] v [of "n - s"] n by auto
qed

lemma rev_loop_bit:
  assumes "S \<in> set [64, 32, 16, 8, 4, 2, 1]"
    and "\<And>n. n < 64 \<Longrightarrow> bit (m :: u64) n = even (n div S)"
    and "\<And>n. n < 64 \<Longrightarrow> bit (v :: u64) n = bit w (flip_blocks S n)"
    and "n < 64"
  shows "bit (rev_loop S m v) n = bit w (63 - n)"
  using assms
proof (induction S m v rule: rev_loop.induct)
  case (1 S m v)
  let ?s = "S div 2"
  show ?case
  proof (cases "?s = 0")
    case True
    then have "S = 1" using "1.prems"(1) by auto
    then show ?thesis
      using "1.prems"(3,4) by (simp add: rev_loop.simps [of "Suc 0"] flip_blocks_def)
  next
    case False
    then have s: "?s \<in> set [32, 16, 8, 4, 2, 1]" and S: "2 * ?s = S" using "1.prems"(1) by auto
    then have s': "?s \<in> set [64, 32, 16, 8, 4, 2, 1]" by auto
    let ?m = "m XOR push_bit ?s m"
    let ?v = "(drop_bit ?s v AND ?m) OR (push_bit ?s v AND NOT ?m)"
    have st: "bit ?m n = even (n div ?s)" "bit ?v n = bit w (flip_blocks ?s n)" if "n < 64" for n
      using rev_step [OF s, of m v w n] "1.prems"(2,3) that unfolding S by auto
    have "bit (rev_loop ?s ?m ?v) n = bit w (63 - n)"
      using "1.IH" [OF refl False refl refl s' st "1.prems"(4)] by simp
    then show ?thesis
      using False by (subst rev_loop.simps) (simp add: Let_def)
  qed
qed

lemma bit_rev_ul: "n < 64 \<Longrightarrow> bit (rev_ul v) n = bit v (63 - n)"
  unfolding rev_ul_def by (rule rev_loop_bit) (auto simp: flip_blocks_def)

text \<open>\<open>rev_ul\<close> reverses the bits, so it is an involution.\<close>

lemma rev_ul_rev_ul: "rev_ul (rev_ul v) = v"
  by (rule bit_word_eqI) (simp add: bit_rev_ul)

text \<open>
  The cursor read from its most significant end, as a number. A table of size \<open>2 ^ k\<close> divides the
  numbers into blocks of length \<open>2 ^ (64 - k)\<close>; the keys of a bucket are those of a block.
\<close>

definition cursor_pos :: "u64 \<Rightarrow> nat" where
  "cursor_pos v = unat (rev_ul v)"

lemma cursor_pos_less: "cursor_pos v < 2 ^ 64"
  unfolding cursor_pos_def using unsigned_less [of "rev_ul v"] by simp

lemma cursor_pos_zero: "cursor_pos v = 0 \<longleftrightarrow> v = 0"
proof -
  have "rev_ul 0 = 0" by (rule bit_word_eqI) (simp add: bit_rev_ul)
  then show ?thesis using rev_ul_rev_ul [of v] by (auto simp: cursor_pos_def unat_eq_zero)
qed

lemma drop_bit_rev:
  assumes "k \<le> 64"
  shows "drop_bit (64 - k) (rev_ul a) = drop_bit (64 - k) (rev_ul b) \<longleftrightarrow> a AND mask k = b AND mask k"
proof -
  have "bit (drop_bit (64 - k) (rev_ul x)) i = (i < k \<and> bit x (k - 1 - i))" if "i < 64" for x i
  proof (cases "i < k")
    case True
    then have "64 - k + i < 64" "63 - (64 - k + i) = k - 1 - i" using assms by linarith+
    then show ?thesis using True by (simp add: bit_drop_bit_eq bit_rev_ul)
  next
    case False
    then have "64 \<le> 64 - k + i" using assms by linarith
    then show ?thesis using False bit_imp_le_length [of "rev_ul x" "64 - k + i"] by (auto simp: bit_drop_bit_eq)
  qed
  note * = this
  show ?thesis
  proof
    assume eq: "drop_bit (64 - k) (rev_ul a) = drop_bit (64 - k) (rev_ul b)"
    show "a AND mask k = b AND mask k"
    proof (rule bit_word_eqI)
      fix i assume "i < LENGTH(64)"
      then have "bit a i = bit b i" if "i < k"
        using *[of "k - 1 - i" a] *[of "k - 1 - i" b] that assms eq by simp
      then show "bit (a AND mask k) i = bit (b AND mask k) i"
        by (auto simp: bit_simps)
    qed
  next
    assume eq: "a AND mask k = b AND mask k"
    show "drop_bit (64 - k) (rev_ul a) = drop_bit (64 - k) (rev_ul b)"
    proof (rule bit_word_eqI)
      fix i assume i: "i < LENGTH(64)"
      have "bit a (k - 1 - i) = bit b (k - 1 - i)" if "i < k"
        using arg_cong [OF eq, of "\<lambda>x. bit x (k - 1 - i)"] that assms by (auto simp: bit_simps)
      then show "bit (drop_bit (64 - k) (rev_ul a)) i = bit (drop_bit (64 - k) (rev_ul b)) i"
        using *[of i a] *[of i b] i by auto
    qed
  qed
qed

lemma same_block:
  assumes "k \<le> 64"
  shows "a AND mask k = b AND mask k \<longleftrightarrow> cursor_pos a div 2 ^ (64 - k) = cursor_pos b div 2 ^ (64 - k)"
proof -
  have "drop_bit (64 - k) (rev_ul a) = drop_bit (64 - k) (rev_ul b) \<longleftrightarrow>
      unat (drop_bit (64 - k) (rev_ul a)) = unat (drop_bit (64 - k) (rev_ul b))"
    by (simp add: word_unat_eq_iff)
  moreover have "unat (drop_bit j x) = unat x div 2 ^ j" for j and x :: u64
  proof -
    have "unat (drop_bit j x) = drop_bit j (unat x)"
      by (rule bit_eqI) (auto simp: bit_simps dest: bit_imp_le_length)
    then show ?thesis by (simp only: drop_bit_eq_div [of j "unat x"])
  qed
  ultimately show ?thesis
    unfolding drop_bit_rev [OF assms, symmetric] cursor_pos_def by (simp only:)
qed

text \<open>Incrementing the reversed cursor moves to the start of the next block, or wraps to 0.\<close>

lemma rev_ul_or_not_mask:
  assumes "k \<le> 64"
  shows "rev_ul (v OR NOT (mask k)) = rev_ul v OR mask (64 - k)"
  using assms by (intro bit_word_eqI) (auto simp: bit_simps bit_rev_ul)

lemma or_mask_nat: "n OR mask j = n div 2 ^ j * 2 ^ j + (2 ^ j - 1)" for n :: nat
proof -
  have d: "drop_bit j (n OR mask j) = drop_bit j n" by (rule bit_eqI) (auto simp: bit_simps)
  have t: "take_bit j (n OR mask j) = mask j" by (rule bit_eqI) (auto simp: bit_simps)
  have "n OR mask j = push_bit j (drop_bit j n) + mask j"
    using bits_ident [of j "n OR mask j"] unfolding d t by simp
  then show ?thesis
    by (simp add: push_bit_eq_mult drop_bit_eq_div mask_eq_exp_minus_1)
qed

lemma unat_or_mask:
  assumes "j \<le> 64"
  shows "unat (c OR mask j :: u64) = unat c div 2 ^ j * 2 ^ j + (2 ^ j - 1)"
proof -
  have "unat (c OR mask j :: u64) = unat c OR mask j"
    using assms by (intro bit_eqI) (auto simp: bit_simps dest: bit_imp_le_length)
  then show ?thesis by (simp only: or_mask_nat)
qed

lemma cursor_incr:
  assumes "0 < k" and "k \<le> 64"
  shows "cursor_pos (rev_incr (mask k) v) = (cursor_pos v div 2 ^ (64 - k) + 1) * 2 ^ (64 - k) mod 2 ^ 64"
proof -
  have "cursor_pos (rev_incr (mask k) v) = unat ((rev_ul v OR mask (64 - k)) + 1)"
    using assms by (simp add: cursor_pos_def rev_incr_def rev_ul_rev_ul rev_ul_or_not_mask)
  also have "\<dots> = (unat (rev_ul v OR mask (64 - k)) + 1) mod 2 ^ 64"
    by (simp add: unat_word_ariths)
  also have "unat (rev_ul v OR mask (64 - k)) + 1 = (cursor_pos v div 2 ^ (64 - k) + 1) * 2 ^ (64 - k)"
    unfolding cursor_pos_def by (subst unat_or_mask) (simp_all add: algebra_simps)
  finally show ?thesis .
qed

section \<open>One call of \<open>dictScan\<close>\<close>

lemma next_block_le:
  fixes C q E :: nat
  assumes "q dvd E" and "C < E"
  shows "(C div q + 1) * q \<le> E"
proof -
  obtain m where m: "E = q * m" using assms(1) by auto
  then have "C div q < m" using assms(2) by (simp add: div_less_iff_less_mult mult.commute split: if_splits)
      (metis assms(2) less_mult_imp_div_less m mult.commute)
  then have "(C div q + 1) * q \<le> m * q" by (intro mult_le_mono1) simp
  then show ?thesis by (simp add: m mult.commute)
qed

lemma next_block_gt:
  fixes C q :: nat
  assumes "0 < q"
  shows "C < (C div q + 1) * q"
  using dividend_less_div_times [OF assms, of C] by simp

lemma same_div:
  fixes C x q :: nat
  assumes "C \<le> x" and "x < (C div q + 1) * q"
  shows "x div q = C div q"
  using div_le_mono [OF assms(1), of q] less_mult_imp_div_less [OF assms(2)] by simp

lemma cursor_pos_and_mask:
  assumes "k \<le> 64"
  shows "cursor_pos (v AND mask k) = cursor_pos v div 2 ^ (64 - k) * 2 ^ (64 - k)"
proof -
  have "unat (rev_ul (v AND mask k)) = push_bit (64 - k) (drop_bit (64 - k) (unat (rev_ul v)))"
  proof (rule bit_eqI)
    fix n
    have "bit (rev_ul (v AND mask k)) n \<longleftrightarrow> 64 - k \<le> n \<and> bit (rev_ul v) n"
    proof (cases "n < 64")
      case True
      then have "63 - n < k \<longleftrightarrow> 64 - k \<le> n" using assms by linarith
      then show ?thesis using True by (auto simp: bit_rev_ul bit_simps)
    next
      case False
      then show ?thesis by (auto dest: bit_imp_le_length)
    qed
    moreover have "64 - k + (n - (64 - k)) = n" if "64 - k \<le> n" using that by simp
    ultimately show "bit (unat (rev_ul (v AND mask k))) n =
        bit (push_bit (64 - k) (drop_bit (64 - k) (unat (rev_ul v)))) n"
      by (auto simp: bit_push_bit_iff bit_drop_bit_eq bit_unsigned_iff dest: bit_imp_le_length)
  qed
  then show ?thesis
    unfolding cursor_pos_def by (simp only: push_bit_eq_mult drop_bit_eq_div)
qed

lemma cursor_pos_inj: "cursor_pos a = cursor_pos b \<longleftrightarrow> a = b"
  using rev_ul_rev_ul by (metis cursor_pos_def word_unat_eq_iff)

lemma mask_difference:
  fixes v :: u64
  assumes "k0 \<le> k1" and "k1 \<le> 64" and "2 ^ (64 - k1) dvd cursor_pos v"
  shows "v AND (mask k0 XOR mask k1) = 0 \<longleftrightarrow> 2 ^ (64 - k0) dvd cursor_pos v"
proof -
  have "v AND (mask k0 XOR mask k1) = 0 \<longleftrightarrow> v AND mask k0 = v AND mask k1"
    by (auto simp: bit_eq_iff bit_simps)
  also have "\<dots> \<longleftrightarrow> cursor_pos (v AND mask k0) = cursor_pos (v AND mask k1)"
    by (simp only: cursor_pos_inj)
  also have "\<dots> \<longleftrightarrow> cursor_pos v div 2 ^ (64 - k0) * 2 ^ (64 - k0) = cursor_pos v"
    using assms by (simp add: cursor_pos_and_mask)
  also have "\<dots> \<longleftrightarrow> 2 ^ (64 - k0) dvd cursor_pos v"
    by (metis dvd_div_mult_self dvd_triv_right)
  finally show ?thesis .
qed

text \<open>The bucket at a cursor holds exactly the keys of the block of the cursor.\<close>

lemma bucket_at_cursor:
  assumes "ht_ok ty t" and "ht_size_exp t \<noteq> -1"
  defines "q \<equiv> 2 ^ (64 - nat (ht_size_exp t))"
  shows "\<exists>c. bucket t (unat (v AND DICTHT_SIZE_MASK (ht_size_exp t))) = Some c \<and>
    set c \<subseteq> set (concat (ht_table t)) \<and>
    (\<forall>e \<in> set (concat (ht_table t)).
       cursor_pos (hashFunction ty (fst e)) div q = cursor_pos v div q \<longrightarrow> e \<in> set c)"
proof -
  let ?k = "nat (ht_size_exp t)"
  have ex: "0 \<le> ht_size_exp t" "?k \<le> 64" "length (ht_table t) = 2 ^ ?k" "?k < 64"
    using assms(1,2) by (auto simp: ht_ok_def)
  note mk = MASK_mask [OF ex(1)]
  let ?i = "unat (v AND mask ?k)"
  have "?i < 2 ^ ?k"
    by (metis take_bit_eq_mask take_bit_nat_less_exp unsigned_take_bit_eq)
  then have i: "?i < length (ht_table t)" using ex(3) by simp
  show ?thesis
  proof (intro exI conjI ballI impI)
    show "bucket t (unat (v AND DICTHT_SIZE_MASK (ht_size_exp t))) = Some (ht_table t ! ?i)"
      using i by (simp add: bucket_def mk)
    show "set (ht_table t ! ?i) \<subseteq> set (concat (ht_table t))" using nth_mem [OF i] by (auto simp: set_concat)
    fix e assume e: "e \<in> set (concat (ht_table t))"
      "cursor_pos (hashFunction ty (fst e)) div q = cursor_pos v div q"
    then have "hashFunction ty (fst e) AND mask ?k = v AND mask ?k"
      using same_block [OF ex(2)] by (simp add: q_def)
    then have "slot ty (ht_size_exp t) (fst e) = ?i" by (simp add: slot_def mk)
    then show "e \<in> set (ht_table t ! ?i)" using key_in_slot [OF assms(1) e(1)] by simp
  qed
qed

lemma scan_expansions_ok:
  assumes "ht_ok ty t1" and "ht_size_exp t1 \<noteq> -1" and "0 < k0" and "k0 \<le> nat (ht_size_exp t1)"
  defines "q0 \<equiv> 2 ^ (64 - k0)"
  shows "\<exists>v' es. scan_expansions t1 (mask k0) (DICTHT_SIZE_MASK (ht_size_exp t1)) v = Some (v', es) \<and>
    cursor_pos v' = (cursor_pos v div q0 + 1) * q0 mod 2 ^ 64 \<and> set es \<subseteq> set (concat (ht_table t1)) \<and>
    (\<forall>e \<in> set (concat (ht_table t1)). cursor_pos v \<le> cursor_pos (hashFunction ty (fst e)) \<longrightarrow>
       cursor_pos (hashFunction ty (fst e)) < (cursor_pos v div q0 + 1) * q0 \<longrightarrow> e \<in> set es)"
proof (induction "(cursor_pos v div q0 + 1) * q0 - cursor_pos v" arbitrary: v rule: less_induct)
  case (less v)
  define k1 where "k1 = nat (ht_size_exp t1)"
  have k1: "0 < k1" "k1 \<le> 64" "k0 \<le> k1" "0 \<le> ht_size_exp t1"
    using assms(1,2,4) by (auto simp: ht_ok_def k1_def)
  define q1 where "q1 = (2 :: nat) ^ (64 - k1)"
  have q: "0 < q0" "0 < q1" "q1 dvd q0" "q0 dvd 2 ^ 64"
    using k1 le_imp_power_dvd [of "64 - k0" 64 "2 :: nat"]
    by (auto simp: q0_def q1_def intro!: le_imp_power_dvd)
  define C where "C = cursor_pos v"
  define E where "E = (C div q0 + 1) * q0"
  define C1 where "C1 = (C div q1 + 1) * q1"
  have E: "C < E" "q0 dvd E" "E \<le> 2 ^ 64"
    using next_block_gt [OF q(1), of C] next_block_le [OF q(4), of C] cursor_pos_less [of v]
    by (auto simp: E_def C_def)
  have C1: "C < C1" "C1 \<le> E"
    using next_block_gt [OF q(2), of C] next_block_le [OF dvd_trans [OF q(3) E(2)] E(1)]
    by (auto simp: C1_def)
  have m1: "DICTHT_SIZE_MASK (ht_size_exp t1) = mask k1" using MASK_mask [OF k1(4)] by (simp add: k1_def)
  define v1 where "v1 = rev_incr (mask k1) v"
  have v1: "cursor_pos v1 = C1 mod 2 ^ 64"
    unfolding v1_def C1_def C_def q1_def by (rule cursor_incr [OF k1(1,2)])
  obtain c where c: "bucket t1 (unat (v AND mask k1)) = Some c" "set c \<subseteq> set (concat (ht_table t1))"
      "\<And>e. e \<in> set (concat (ht_table t1)) \<Longrightarrow>
        cursor_pos (hashFunction ty (fst e)) div q1 = C div q1 \<Longrightarrow> e \<in> set c"
    using bucket_at_cursor [OF assms(1,2), of v] unfolding m1 by (auto simp: q1_def k1_def C_def)
  have blk: "x div q1 = C div q1" if "C \<le> x" "x < C1" for x
    using that unfolding C1_def by (rule same_div)
  have d1: "q1 dvd cursor_pos v1"
    unfolding v1 by (rule dvd_mod [OF _ dvd_trans [OF q(3,4)]]) (simp add: C1_def)
  have cond: "v1 AND (mask k0 XOR mask k1) = 0 \<longleftrightarrow> q0 dvd C1 mod 2 ^ 64"
    using mask_difference [OF k1(3,2), of v1] d1 unfolding q0_def q1_def v1 by simp
  show ?case
  proof (cases "C1 = E")
    case True
    then have "v1 AND (mask k0 XOR mask k1) = 0"
      using cond dvd_mod [OF E(2) q(4)] by simp
    then have "scan_expansions t1 (mask k0) (mask k1) v = Some (v1, c)"
      using c(1) by (subst scan_expansions.simps) (simp add: v1_def)
    then show ?thesis
      using c v1 blk True unfolding m1 by (auto simp: E_def C_def)
  next
    case False
    then have lt: "C1 < E" using C1(2) by simp
    then have C1m: "C1 mod 2 ^ 64 = C1" using E(3) by simp
    have blk0: "C1 div q0 = C div q0"
      using lt C1(1) unfolding E_def by (intro same_div) simp_all
    have "\<not> q0 dvd C1"
    proof
      assume "q0 dvd C1"
      then have "C1 = C div q0 * q0" using blk0 by (metis dvd_div_mult_self)
      then show False using C1(1) by (metis div_times_less_eq_dividend not_le)
    qed
    then have go: "v1 AND (mask k0 XOR mask k1) \<noteq> 0" using cond C1m by simp
    have pos1: "cursor_pos v1 = C1" using v1 C1m by simp
    have "(cursor_pos v1 div q0 + 1) * q0 - cursor_pos v1 < (cursor_pos v div q0 + 1) * q0 - cursor_pos v"
      unfolding pos1 blk0 using C1(1) E(1) by (simp add: C_def E_def)
    from less [OF this] obtain v' es where r:
        "scan_expansions t1 (mask k0) (mask k1) v1 = Some (v', es)"
        "cursor_pos v' = E mod 2 ^ 64" "set es \<subseteq> set (concat (ht_table t1))"
        "\<And>e. e \<in> set (concat (ht_table t1)) \<Longrightarrow> C1 \<le> cursor_pos (hashFunction ty (fst e)) \<Longrightarrow>
          cursor_pos (hashFunction ty (fst e)) < E \<Longrightarrow> e \<in> set es"
      unfolding m1 pos1 blk0 E_def by blast
    have "scan_expansions t1 (mask k0) (mask k1) v = Some (v', c @ es)"
      using c(1) go r(1) by (subst scan_expansions.simps) (simp add: v1_def)
    moreover have "e \<in> set (c @ es)" if "e \<in> set (concat (ht_table t1))"
        "C \<le> cursor_pos (hashFunction ty (fst e))" "cursor_pos (hashFunction ty (fst e)) < E" for e
    proof (cases "cursor_pos (hashFunction ty (fst e)) < C1")
      case True
      then show ?thesis using c(3) [OF that(1) blk [OF that(2) True]] by simp
    next
      case False
      then show ?thesis using r(4) [OF that(1) _ that(3)] by simp
    qed
    ultimately show ?thesis
      unfolding m1 C_def [symmetric] E_def [symmetric]
      using c(2) r(2,3) by (intro exI conjI ballI impI) (assumption | simp only: set_append Un_subset_iff | blast)+
  qed
qed

section \<open>Iterations\<close>

definition scan_bits :: "('k, 'v) dict \<Rightarrow> nat" where
  "scan_bits d = nat (if dictIsRehashing d then min (ht_size_exp (ht0 d)) (ht_size_exp (ht1 d)) else ht_size_exp (ht0 d))"

lemma two_tables_scan:
  assumes "ht_ok ty t0" and "ht_ok ty t1" and "ht_size_exp t0 \<noteq> -1" and "ht_size_exp t1 \<noteq> -1"
    and "ht_size_exp t0 \<le> ht_size_exp t1"
  defines "q \<equiv> 2 ^ (64 - nat (ht_size_exp t0))"
  shows "\<exists>v' es. do {
      de \<leftarrow> bucket t0 (unat (v AND DICTHT_SIZE_MASK (ht_size_exp t0)));
      (v, es) \<leftarrow> scan_expansions t1 (DICTHT_SIZE_MASK (ht_size_exp t0)) (DICTHT_SIZE_MASK (ht_size_exp t1)) v;
      Some (v, de @ es) } = Some (v', es) \<and>
    cursor_pos v' = (cursor_pos v div q + 1) * q mod 2 ^ 64 \<and>
    set es \<subseteq> set (concat (ht_table t0)) \<union> set (concat (ht_table t1)) \<and>
    (\<forall>e \<in> set (concat (ht_table t0)) \<union> set (concat (ht_table t1)). cursor_pos v \<le> cursor_pos (hashFunction ty (fst e)) \<longrightarrow>
       cursor_pos (hashFunction ty (fst e)) < (cursor_pos v div q + 1) * q \<longrightarrow> e \<in> set es)"
proof -
  let ?k = "nat (ht_size_exp t0)"
  have k: "0 \<le> ht_size_exp t0" "0 < ?k" "?k \<le> nat (ht_size_exp t1)"
    using assms(1,3,5) by (auto simp: ht_ok_def)
  note m0 = MASK_mask [OF k(1)]
  obtain c where c: "bucket t0 (unat (v AND mask ?k)) = Some c" "set c \<subseteq> set (concat (ht_table t0))"
      "\<And>e. e \<in> set (concat (ht_table t0)) \<Longrightarrow> cursor_pos (hashFunction ty (fst e)) div q = cursor_pos v div q \<Longrightarrow> e \<in> set c"
    using bucket_at_cursor [OF assms(1,3), of v] unfolding m0 q_def by blast
  obtain v' es where s: "scan_expansions t1 (mask ?k) (DICTHT_SIZE_MASK (ht_size_exp t1)) v = Some (v', es)"
      "cursor_pos v' = (cursor_pos v div q + 1) * q mod 2 ^ 64" "set es \<subseteq> set (concat (ht_table t1))"
      "\<And>e. e \<in> set (concat (ht_table t1)) \<Longrightarrow> cursor_pos v \<le> cursor_pos (hashFunction ty (fst e)) \<Longrightarrow>
         cursor_pos (hashFunction ty (fst e)) < (cursor_pos v div q + 1) * q \<Longrightarrow> e \<in> set es"
    using scan_expansions_ok [OF assms(2,4) k(2,3), of v] unfolding q_def by blast
  show ?thesis
  proof (intro exI conjI ballI impI)
    show "do { de \<leftarrow> bucket t0 (unat (v AND DICTHT_SIZE_MASK (ht_size_exp t0)));
      (v, es) \<leftarrow> scan_expansions t1 (DICTHT_SIZE_MASK (ht_size_exp t0)) (DICTHT_SIZE_MASK (ht_size_exp t1)) v;
      Some (v, de @ es) } = Some (v', c @ es)"
      using c(1) s(1) by (simp add: m0)
    show "set (c @ es) \<subseteq> set (concat (ht_table t0)) \<union> set (concat (ht_table t1))"
      using c(2) s(3) by (simp only: set_append) blast
    fix e
    assume "e \<in> set (concat (ht_table t0)) \<union> set (concat (ht_table t1))"
      and p: "cursor_pos v \<le> cursor_pos (hashFunction ty (fst e))"
        "cursor_pos (hashFunction ty (fst e)) < (cursor_pos v div q + 1) * q"
    then consider "e \<in> set (concat (ht_table t0))" | "e \<in> set (concat (ht_table t1))" by blast
    then show "e \<in> set (c @ es)"
      using c(3) [of e] s(4) [of e] p same_div [OF p] by cases simp_all
  qed (rule s(2))
qed

lemma dictScan_step:
  assumes "dict_inv ty d" and "dict_entries d \<noteq> []"
  defines "q \<equiv> 2 ^ (64 - scan_bits d)"
  shows "\<exists>v' es. dictScan d v = Some (v', es) \<and> cursor_pos v' = (cursor_pos v div q + 1) * q mod 2 ^ 64 \<and>
    set es \<subseteq> set (dict_entries d) \<and>
    (\<forall>e \<in> set (dict_entries d). cursor_pos v \<le> cursor_pos (hashFunction ty (fst e)) \<longrightarrow>
       cursor_pos (hashFunction ty (fst e)) < (cursor_pos v div q + 1) * q \<longrightarrow> e \<in> set es)"
    and "2 \<le> scan_bits d" and "scan_bits d \<le> 60"
proof -
  have sz: "dictSize d \<noteq> 0" using dictSize_entries [OF assms(1)] assms(2) by auto
  note e0 = nonempty_table [OF assms(1) sz]
  note ok = dict_invD [OF assms(1)]
  have b0: "2 \<le> ht_size_exp (ht0 d)" "ht_size_exp (ht0 d) \<le> 60" using ok(1) e0 by (auto simp: ht_ok_def)
  have "(\<exists>v' es. dictScan d v = Some (v', es) \<and> cursor_pos v' = (cursor_pos v div q + 1) * q mod 2 ^ 64 \<and>
    set es \<subseteq> set (dict_entries d) \<and>
    (\<forall>e \<in> set (dict_entries d). cursor_pos v \<le> cursor_pos (hashFunction ty (fst e)) \<longrightarrow>
       cursor_pos (hashFunction ty (fst e)) < (cursor_pos v div q + 1) * q \<longrightarrow> e \<in> set es)) \<and>
    2 \<le> scan_bits d \<and> scan_bits d \<le> 60"
  proof (cases "rehashidx d = -1")
    case True
    have t1: "ht_table (ht1 d) = []" using ht_ok_null [OF ok(2) ok(5) [OF True]] .
    have sb: "scan_bits d = nat (ht_size_exp (ht0 d))" using True by (simp add: scan_bits_def dictIsRehashing_def)
    have k: "0 \<le> ht_size_exp (ht0 d)" "0 < nat (ht_size_exp (ht0 d))" "nat (ht_size_exp (ht0 d)) \<le> 64"
      using b0 by auto
    obtain c where c: "bucket (ht0 d) (unat (v AND mask (nat (ht_size_exp (ht0 d))))) = Some c"
        "set c \<subseteq> set (concat (ht_table (ht0 d)))"
        "\<And>e. e \<in> set (concat (ht_table (ht0 d))) \<Longrightarrow>
          cursor_pos (hashFunction ty (fst e)) div q = cursor_pos v div q \<Longrightarrow> e \<in> set c"
      using bucket_at_cursor [OF ok(1) e0, of v] unfolding MASK_mask [OF k(1)] q_def sb by blast
    have "dictScan d v = Some (rev_incr (mask (nat (ht_size_exp (ht0 d)))) v, c)"
      using True sz c(1) by (simp add: dictScan_def dictIsRehashing_def MASK_mask [OF k(1)])
    moreover have de: "dict_entries d = concat (ht_table (ht0 d))" by (simp add: dict_entries_def t1)
    moreover have "e \<in> set c" if "e \<in> set (concat (ht_table (ht0 d)))"
        "cursor_pos v \<le> cursor_pos (hashFunction ty (fst e))"
        "cursor_pos (hashFunction ty (fst e)) < (cursor_pos v div q + 1) * q" for e
      by (rule c(3) [OF that(1) same_div [OF that(2,3)]])
    moreover have "2 \<le> scan_bits d" "scan_bits d \<le> 60" using b0 unfolding sb by auto
    ultimately show ?thesis
      using cursor_incr [OF k(2,3), of v] c(2) unfolding q_def sb de by blast
  next
    case False
    note e1 = ok(7) [OF False]
    have b1: "2 \<le> ht_size_exp (ht1 d)" "ht_size_exp (ht1 d) \<le> 60" using ok(2) e1 by (auto simp: ht_ok_def)
    have cmp: "DICTHT_SIZE (ht_size_exp (ht1 d)) < DICTHT_SIZE (ht_size_exp (ht0 d)) \<longleftrightarrow>
        ht_size_exp (ht1 d) < ht_size_exp (ht0 d)"
      using b0 b1 by (simp add: word_less_nat_alt SIZE_word)
    have u: "set (dict_entries d) = set (concat (ht_table (ht0 d))) \<union> set (concat (ht_table (ht1 d)))"
      by (simp add: dict_entries_def)
    show ?thesis
    proof (cases "ht_size_exp (ht1 d) < ht_size_exp (ht0 d)")
      case True
      have sb: "scan_bits d = nat (ht_size_exp (ht1 d))" using True False by (simp add: scan_bits_def dictIsRehashing_def)
      have "2 \<le> scan_bits d \<and> scan_bits d \<le> 60" using b1 unfolding sb by auto
      then show ?thesis
        using two_tables_scan [OF ok(2,1) e1 e0, of v] True False sz unfolding q_def sb u
        by (simp add: dictScan_def dictIsRehashing_def cmp Un_commute Let_def)
    next
      case le: False
      have sb: "scan_bits d = nat (ht_size_exp (ht0 d))" using le False by (simp add: scan_bits_def dictIsRehashing_def)
      have "2 \<le> scan_bits d \<and> scan_bits d \<le> 60" using b0 unfolding sb by auto
      then show ?thesis
        using two_tables_scan [OF ok(1,2) e0 e1, of v] le False sz unfolding q_def sb u
        by (simp add: dictScan_def dictIsRehashing_def cmp Let_def)
    qed
  qed
  then show "\<exists>v' es. dictScan d v = Some (v', es) \<and> cursor_pos v' = (cursor_pos v div q + 1) * q mod 2 ^ 64 \<and>
    set es \<subseteq> set (dict_entries d) \<and>
    (\<forall>e \<in> set (dict_entries d). cursor_pos v \<le> cursor_pos (hashFunction ty (fst e)) \<longrightarrow>
       cursor_pos (hashFunction ty (fst e)) < (cursor_pos v div q + 1) * q \<longrightarrow> e \<in> set es)"
    and "2 \<le> scan_bits d" and "scan_bits d \<le> 60" by simp_all
qed

text \<open>
  A full iteration: the cursor goes from call to call while the dictionary changes in between;
  the list holds the dictionary as each call finds it.
\<close>

fun scan_run :: "('k, 'v) dict list \<Rightarrow> u64 \<Rightarrow> (u64 \<times> ('k, 'v) chain) option" where
  "scan_run [] v = Some (v, [])"
| "scan_run (d # ds) v =
     do { (v, es) \<leftarrow> dictScan d v; (v, fs) \<leftarrow> scan_run ds v; Some (v, es @ fs) }"

lemma scan_run_covers:
  assumes "\<forall>d \<in> set ds. dict_inv ty d \<and> key \<in> dom (dict_map d)" and "scan_run ds v = Some (v', es)"
    and "cursor_pos v \<le> cursor_pos (hashFunction ty key)" and "ds \<noteq> []"
  shows "key \<in> fst ` set es \<or> cursor_pos v' \<le> cursor_pos (hashFunction ty key) \<and> v' \<noteq> 0"
  using assms
proof (induction ds arbitrary: v es)
  case (Cons d ds)
  let ?R = "cursor_pos (hashFunction ty key)" and ?q = "2 ^ (64 - scan_bits d) :: nat"
  have d: "dict_inv ty d" "key \<in> dom (dict_map d)" using Cons.prems(1) by auto
  then obtain val where val: "(key, val) \<in> set (dict_entries d)"
    by (auto simp: dict_map_def dest: map_of_SomeD)
  then have "dict_entries d \<noteq> []" by auto
  note st = dictScan_step [OF d(1) this]
  obtain v1 es1 where s1: "dictScan d v = Some (v1, es1)"
      "cursor_pos v1 = (cursor_pos v div ?q + 1) * ?q mod 2 ^ 64"
      "\<And>e. e \<in> set (dict_entries d) \<Longrightarrow> cursor_pos v \<le> cursor_pos (hashFunction ty (fst e)) \<Longrightarrow>
       cursor_pos (hashFunction ty (fst e)) < (cursor_pos v div ?q + 1) * ?q \<Longrightarrow> e \<in> set es1"
    using st(1) [of v] by blast
  obtain fs where fs: "scan_run ds v1 = Some (v', fs)" "es = es1 @ fs"
    using Cons.prems(2) s1(1) by (auto split: bind_splits)
  show ?case
  proof (cases "?R < (cursor_pos v div ?q + 1) * ?q")
    case True
    then have "(key, val) \<in> set es1" using s1(3) [OF val] Cons.prems(3) by simp
    then show ?thesis using fs(2) by force
  next
    case False
    then have le: "(cursor_pos v div ?q + 1) * ?q \<le> ?R" by simp
    then have "(cursor_pos v div ?q + 1) * ?q < 2 ^ 64"
      using cursor_pos_less [of "hashFunction ty key"] by linarith
    then have c1: "cursor_pos v1 = (cursor_pos v div ?q + 1) * ?q" using s1(2) by simp
    then have v1: "cursor_pos v1 \<le> ?R" "v1 \<noteq> 0" using le cursor_pos_zero [of v1] by auto
    show ?thesis
    proof (cases "ds = []")
      case True
      then show ?thesis using fs v1 by simp
    next
      case ne: False
      then show ?thesis using Cons.IH [OF _ fs(1) v1(1)] Cons.prems(1) fs(2) by auto
    qed
  qed
qed simp

lemma scan_run_append:
  "scan_run (ds @ fs) v = do { (v, es) \<leftarrow> scan_run ds v; (v, gs) \<leftarrow> scan_run fs v; Some (v, es @ gs) }"
  by (induction ds arbitrary: v) (auto split: bind_splits)

lemma scan_run_steps:
  assumes "dict_inv ty d" and "dict_entries d \<noteq> []" and "n \<le> 2 ^ scan_bits d"
  shows "\<exists>v es. scan_run (replicate n d) 0 = Some (v, es) \<and> set es \<subseteq> set (dict_entries d) \<and>
    cursor_pos v = n * 2 ^ (64 - scan_bits d) mod 2 ^ 64"
  using assms(3)
proof (induction n)
  case 0
  show ?case by (simp add: cursor_pos_zero)
next
  case (Suc n)
  let ?q = "2 ^ (64 - scan_bits d) :: nat"
  note st = dictScan_step [OF assms(1,2)]
  have "2 ^ scan_bits d * ?q = 2 ^ 64" using st(3) by (simp flip: power_add)
  moreover have "n * ?q < 2 ^ scan_bits d * ?q" using Suc.prems by simp
  ultimately have lt: "n * ?q < 2 ^ 64" by simp
  obtain v es where v: "scan_run (replicate n d) 0 = Some (v, es)" "set es \<subseteq> set (dict_entries d)"
      "cursor_pos v = n * ?q"
    using Suc lt by auto
  obtain v' fs where v': "dictScan d v = Some (v', fs)" "set fs \<subseteq> set (dict_entries d)"
      "cursor_pos v' = (cursor_pos v div ?q + 1) * ?q mod 2 ^ 64"
    using st(1) [of v] by blast
  have "scan_run (replicate (Suc n) d) 0 = Some (v', es @ fs)"
    using v(1) v'(1) unfolding replicate_Suc [folded replicate_append_same] 
    by (simp add: scan_run_append flip: replicate_append_same)
  then show ?case
    using v(2,3) v'(2,3) by simp
qed

text \<open>
  C14: The guarantee of SCAN. Whatever happens to the dictionary between the calls (insertions,
  deletions, growth, shrinking, steps of rehashing), a key that is present at every call of an
  iteration which starts with cursor 0 and ends when cursor 0 is returned has been reported.
\<close>

theorem dictScan_complete:
  assumes "\<forall>d \<in> set ds. dict_inv ty d \<and> key \<in> dom (dict_map d)" and "ds \<noteq> []"
    and "scan_run ds 0 = Some (0, es)"
  shows "key \<in> fst ` set es"
proof -
  have "cursor_pos 0 \<le> cursor_pos (hashFunction ty key)" using cursor_pos_zero [of 0] by simp
  from scan_run_covers [OF assms(1,3) this assms(2)] show ?thesis by simp
qed


definition wit_d1 :: "(nat, nat) dict" where
  "wit_d1 = \<lparr>ht0 = \<lparr>ht_table = [[(4, 0)], [(1, 0)], [], [(7, 0)]], ht_used = 3, ht_size_exp = 2\<rparr>, ht1 = ht_reset,
     rehashidx = -1, pauserehash = 0\<rparr>"

definition wit_d2 :: "(nat, nat) dict" where
  "wit_d2 = \<lparr>ht0 = \<lparr>ht_table = [[], [(1, 0)], [], [(7, 0)]], ht_used = 2, ht_size_exp = 2\<rparr>,
     ht1 = \<lparr>ht_table = [[], [], [], [], [(4, 0)], [], [], []], ht_used = 1, ht_size_exp = 3\<rparr>,
     rehashidx = 1, pauserehash = 0\<rparr>"

lemma all_nth_enumerate:
  "(\<forall>i < length xs. P i (xs ! i)) \<longleftrightarrow> (\<forall>(i, x) \<in> set (enumerate 0 xs). P i x)"
  by (auto simp: in_set_enumerate_eq)

lemma ht_ok_enumerate:
  "ht_ok ty t \<longleftrightarrow>
     ht_used t = of_nat (length (concat (ht_table t))) \<and>
     (if ht_size_exp t = -1 then ht_table t = []
      else 2 \<le> ht_size_exp t \<and> ht_size_exp t \<le> 60 \<and> length (ht_table t) = 2 ^ nat (ht_size_exp t) \<and>
        (\<forall>(i, c) \<in> set (enumerate 0 (ht_table t)). \<forall>e \<in> set c. slot ty (ht_size_exp t) (fst e) = i))"
  using all_nth_enumerate [of "ht_table t" "\<lambda>i c. \<forall>e \<in> set c. slot ty (ht_size_exp t) (fst e) = i"]
  by (simp add: ht_ok_def)

lemma wit_inv: "dict_inv nat_type wit_d1" "dict_inv nat_type wit_d2"
  by (simp_all add: dict_inv_def wit_d1_def wit_d2_def ht_ok_enumerate ht_reset_def dict_entries_def nat_type_def slot_def
     DICTHT_SIZE_MASK_def DICTHT_SIZE_def)

lemma rev_ul_exp: "i < 64 \<Longrightarrow> rev_ul (2 ^ i) = 2 ^ (63 - i)"
  by (rule bit_word_eqI) (auto simp: bit_rev_ul bit_exp_iff)

lemma rev_ul_or: "rev_ul (a OR b) = rev_ul a OR rev_ul b"
  by (rule bit_word_eqI) (auto simp: bit_rev_ul bit_or_iff)

lemma small_cursors:
  "cursor_pos 0 = 0" "cursor_pos 1 = 2 ^ 63" "cursor_pos 2 = 2 ^ 62" "cursor_pos 3 = 2 ^ 63 + 2 ^ 62"
  "cursor_pos 5 = 2 ^ 63 + 2 ^ 61" "cursor_pos 7 = 2 ^ 63 + 2 ^ 62 + 2 ^ 61"
  using rev_ul_exp [of 0] rev_ul_exp [of 1] rev_ul_exp [of 2]
    rev_ul_or [of 1 2] rev_ul_or [of 1 4] rev_ul_or [of 3 4] cursor_pos_zero [of 0]
  by (simp_all add: cursor_pos_def)

lemma rev_incr_eq:
  assumes "cursor_pos w = (cursor_pos v div 2 ^ (64 - k) + 1) * 2 ^ (64 - k) mod 2 ^ 64" and "0 < k" and "k \<le> 64"
  shows "rev_incr (mask k) v = w"
  using cursor_incr [OF assms(2,3), of v] assms(1) cursor_pos_inj by metis

lemma small_incr:
  "rev_incr 3 0 = 2" "rev_incr 3 2 = 1" "rev_incr 7 1 = 5" "rev_incr 7 5 = 3" "rev_incr 7 3 = 7" "rev_incr 7 7 = 0"
  using rev_incr_eq [of 2 0 2] rev_incr_eq [of 1 2 2] rev_incr_eq [of 5 1 3] rev_incr_eq [of 3 5 3]
    rev_incr_eq [of 7 3 3] rev_incr_eq [of 0 7 3]
  by (simp_all add: small_cursors mask_eq_exp_minus_1)

lemma wit_run: "scan_run [wit_d1, wit_d1, wit_d2, wit_d2] 0 = Some (0, [(4, 0), (1, 0), (7, 0)])"
  by (simp add: dictScan_def dictSize_def dictIsRehashing_def wit_d1_def wit_d2_def ht_reset_def bucket_def
      DICTHT_SIZE_MASK_def DICTHT_SIZE_def small_incr scan_expansions.simps)

theorem dictScan_complete_witness:
  "4 \<in> fst ` set [(4, 0 :: nat), (1, 0), (7 :: nat, 0)] \<and>
   scan_run [wit_d1, wit_d1, wit_d2, wit_d2] 0 = Some (0, [(4, 0), (1, 0), (7, 0)])"
proof -
  have "\<forall>d \<in> set [wit_d1, wit_d1, wit_d2, wit_d2]. dict_inv nat_type d \<and> 4 \<in> dom (dict_map d)"
    using wit_inv by (simp add: dict_map_def dict_entries_def) (simp add: wit_d1_def wit_d2_def ht_reset_def dom_def)
  from dictScan_complete [OF this _ wit_run] show ?thesis using wit_run by blast
qed


section \<open>Completing a rehash\<close>

declare rehash_ms_loop.simps [simp del]

lemma rehash_ms_loop_done:
  assumes "dict_inv ty d" and "rehashidx d \<noteq> -1" and "length (ht_table (ht0 d)) \<le> nat (rehashidx d) + length clock"
    and "\<forall>late \<in> set clock. \<not> late"
  shows "\<exists>d' n. rehash_ms_loop ty DICT_RESIZE_ENABLE clock m d = Some (d', n) \<and> dict_inv ty d' \<and>
    rehashidx d' = -1 \<and> mset (dict_entries d') = mset (dict_entries d)"
  using assms
proof (induction clock arbitrary: d m)
  case (Cons late clock)
  obtain d1 more where d1: "dictRehash ty DICT_RESIZE_ENABLE d 100 = Some (d1, more)" "dict_inv ty d1"
      "mset (dict_entries d1) = mset (dict_entries d)"
      "more \<longrightarrow> rehashidx d1 \<noteq> -1 \<and> length (ht_table (ht0 d1)) = length (ht_table (ht0 d)) \<and> rehashidx d < rehashidx d1"
      "\<not> more \<longrightarrow> rehashidx d1 = -1"
    using dictRehash_ok [OF Cons.prems(1), of DICT_RESIZE_ENABLE 100] by auto
  have nn: "0 \<le> rehashidx d" using Cons.prems(1,2) by (auto simp: dict_inv_def)
  show ?case
  proof (cases more)
    case False
    then have "rehash_ms_loop ty DICT_RESIZE_ENABLE (late # clock) m d = Some (d1, m)"
      using d1(1) by (subst rehash_ms_loop.simps) simp
    then show ?thesis using d1(2,3,5) False by simp
  next
    case True
    then have le: "length (ht_table (ht0 d1)) \<le> nat (rehashidx d1) + length clock" and r1: "rehashidx d1 \<noteq> -1"
      using d1(4) Cons.prems(3) nn by auto
    have cl: "\<forall>late \<in> set clock. \<not> late" using Cons.prems(4) by auto
    obtain d' n where h: "rehash_ms_loop ty DICT_RESIZE_ENABLE clock (m + 100) d1 = Some (d', n)" "dict_inv ty d'"
        "rehashidx d' = -1" "mset (dict_entries d') = mset (dict_entries d1)"
      using Cons.IH [OF d1(2) r1 le cl, of "m + 100"] by blast
    have "rehash_ms_loop ty DICT_RESIZE_ENABLE (late # clock) m d = Some (d', n)"
      using d1(1) True Cons.prems(4) h(1) by (subst rehash_ms_loop.simps) simp
    then show ?thesis using h(2-4) d1(3) by simp
  qed
next
  case Nil
  obtain d1 more where d1: "dictRehash ty DICT_RESIZE_ENABLE d 100 = Some (d1, more)" "dict_inv ty d1"
      "mset (dict_entries d1) = mset (dict_entries d)"
      "more \<longrightarrow> rehashidx d1 \<noteq> -1 \<and> length (ht_table (ht0 d1)) = length (ht_table (ht0 d)) \<and> rehashidx d < rehashidx d1"
      "\<not> more \<longrightarrow> rehashidx d1 = -1"
    using dictRehash_ok [OF Nil.prems(1), of DICT_RESIZE_ENABLE 100] by auto
  have "\<not> more"
  proof
    assume more
    then have "rehashidx d1 \<le> int (length (ht_table (ht0 d1)))" using d1(2,4) by (auto simp: dict_inv_def)
    moreover have "0 \<le> rehashidx d" using Nil.prems(1,2) by (auto simp: dict_inv_def)
    ultimately show False using d1(4) \<open>more\<close> Nil.prems(3) by (auto simp: le_nat_iff)
  qed
  moreover have "rehash_ms_loop ty DICT_RESIZE_ENABLE [] m d = Some (d1, m)"
    using calculation d1(1) by (subst rehash_ms_loop.simps) simp
  ultimately show ?case using d1(2,3,5) by simp
qed

text \<open>
  C16: Incremental rehashing completes. With resizing enabled and time enough for as many rounds
  as the old table has buckets, \<open>dictRehashMilliseconds\<close> moves every entry to the new table
  and ends the rehash; the map the dictionary stands for does not change.
\<close>

theorem dictRehashMilliseconds_completes:
  assumes "dict_inv ty d" and "pauserehash d \<le> 0" and "dictIsRehashing d"
    and "length (ht_table (ht0 d)) \<le> rounds"
  shows "\<exists>d' n. dictRehashMilliseconds ty DICT_RESIZE_ENABLE (replicate rounds False) d = Some (d', n) \<and>
    \<not> dictIsRehashing d' \<and> dict_inv ty d' \<and> dict_map d' = dict_map d"
proof -
  obtain d' n where r: "rehash_ms_loop ty DICT_RESIZE_ENABLE (replicate rounds False) 0 d = Some (d', n)"
      "dict_inv ty d'" "rehashidx d' = -1" "mset (dict_entries d') = mset (dict_entries d)"
    using rehash_ms_loop_done [OF assms(1), of "replicate rounds False" 0] assms(3,4)
    by (auto simp: dictIsRehashing_def)
  then show ?thesis
    using assms(2) mset_same(1) [OF assms(1) r(4)] by (simp add: dictRehashMilliseconds_def dictIsRehashing_def)
qed

theorem dictRehashMilliseconds_completes_witness:
  "dictIsRehashing wit_d2 \<and>
   (\<exists>d' n. dictRehashMilliseconds nat_type DICT_RESIZE_ENABLE (replicate 4 False) wit_d2 = Some (d', n) \<and>
     \<not> dictIsRehashing d' \<and> dict_map d' = dict_map wit_d2)"
proof -
  have "pauserehash wit_d2 \<le> 0" "dictIsRehashing wit_d2" "length (ht_table (ht0 wit_d2)) \<le> 4"
    by (simp_all add: wit_d2_def dictIsRehashing_def)
  from dictRehashMilliseconds_completes [OF wit_inv(2) this] this(2) show ?thesis by blast
qed

section \<open>Iterators\<close>

text \<open>What an iterator between two buckets has still to return.\<close>

definition it_rest :: "('k, 'v) dict \<Rightarrow> ('k, 'v) dictIterator \<Rightarrow> ('k, 'v) chain" where
  "it_rest d it = concat (drop (nat (it_index it + 1)) (ht_table (get_ht d (it_table it)))) @
     (if it_table it = 0 then concat (ht_table (ht1 d)) else [])"

definition it_ok :: "('k, 'v) dict \<Rightarrow> ('k, 'v) dictIterator \<Rightarrow> bool" where
  "it_ok d it \<longleftrightarrow> it_table it \<le> 1 \<and> -1 \<le> it_index it \<and> (it_table it = 1 \<longrightarrow> dictIsRehashing d \<and> 0 \<le> it_index it)"

lemma uint_SIZE:
  assumes "ht_ok ty t"
  shows "uint (DICTHT_SIZE (ht_size_exp t)) = int (length (ht_table t))"
proof (cases "ht_size_exp t = -1")
  case True
  then show ?thesis using assms by (simp add: ht_ok_def DICTHT_SIZE_def)
next
  case False
  then have "unat (DICTHT_SIZE (ht_size_exp t)) = length (ht_table t)"
    using assms by (simp add: ht_ok_def SIZE_word)
  then show ?thesis by (metis int_nat_eq uint_ge_0 unat_eq_nat_uint uint_nat)
qed

definition same_tables :: "('k, 'v) dict \<Rightarrow> ('k, 'v) dict \<Rightarrow> bool" where
  "same_tables d d' \<longleftrightarrow> (\<exists>p. d' = d\<lparr>pauserehash := p\<rparr>)"

lemma same_tables_simps:
  assumes "same_tables d d'"
  shows "ht0 d' = ht0 d" "ht1 d' = ht1 d" "get_ht d' i = get_ht d i" "dictIsRehashing d' = dictIsRehashing d"
    "it_rest d' it = it_rest d it" "it_ok d' it = it_ok d it" "dict_inv ty d' = dict_inv ty d"
proof -
  obtain p where "d' = d\<lparr>pauserehash := p\<rparr>" using assms by (auto simp: same_tables_def)
  then show "ht0 d' = ht0 d" "ht1 d' = ht1 d" "get_ht d' i = get_ht d i" "dictIsRehashing d' = dictIsRehashing d"
      "it_rest d' it = it_rest d it" "it_ok d' it = it_ok d it" "dict_inv ty d' = dict_inv ty d"
    by (simp_all add: get_ht_def dictIsRehashing_def it_rest_def it_ok_def dict_inv_def dict_entries_def)
qed

lemma it_start_same: "it_start fp d it = (d', it') \<Longrightarrow> same_tables d d' \<and> it_index it' = it_index it \<and>
    it_table it' = it_table it \<and> it_entry it' = it_entry it"
  by (auto simp: it_start_def same_tables_def dictPauseRehashing_def split: if_splits
      intro: exI [of _ "pauserehash d"])

lemma same_tables_trans: "same_tables d d' \<Longrightarrow> same_tables d' d'' \<Longrightarrow> same_tables d d''"
  by (auto simp: same_tables_def)

text \<open>
  What a call returns: the first of the remaining entries \<open>es\<close>, and an iterator whose chain and
  remaining buckets hold the others.
\<close>

definition next_post :: "('k, 'v) dict \<Rightarrow> ('k, 'v) chain \<Rightarrow>
    (('k, 'v) dict \<times> ('k, 'v) dictIterator \<times> ('k \<times> 'v) option) option \<Rightarrow> bool" where
  "next_post d es res \<longleftrightarrow> (\<exists>d' it' r. res = Some (d', it', r) \<and> same_tables d d' \<and>
     (case es of [] \<Rightarrow> r = None
      | e # rest \<Rightarrow> r = Some e \<and> it_entry it' = Some e \<and> it_ok d it' \<and> 0 \<le> it_index it' \<and>
          it_next it' @ it_rest d it' = rest))"

lemma next_post_same:
  assumes sm: "same_tables d d'" and "next_post d' es res"
  shows "next_post d es res"
proof -
  obtain d'' it' r where r: "res = Some (d'', it', r)" "same_tables d' d''"
      "case es of [] \<Rightarrow> r = None
       | e # rest \<Rightarrow> r = Some e \<and> it_entry it' = Some e \<and> it_ok d' it' \<and> 0 \<le> it_index it' \<and> it_next it' @ it_rest d' it' = rest"
    using assms(2) unfolding next_post_def by blast
  have "same_tables d d''" by (rule same_tables_trans [OF sm r(2)])
  with r(1,3) show ?thesis
    unfolding next_post_def same_tables_simps(5,6) [OF sm] by blast
qed

lemma visit_bucket:
  assumes "dict_inv ty d" and "it_table it \<le> 1" and "0 \<le> it_index it" and "it_table it = 1 \<longrightarrow> dictIsRehashing d"
    and "nat (it_index it) < length (ht_table (get_ht d (it_table it)))"
    and "next_post d (it_rest d it) (dictNext fp d (it\<lparr>it_entry := None\<rparr>))"
  defines "c \<equiv> ht_table (get_ht d (it_table it)) ! nat (it_index it)"
  shows "next_post d (c @ it_rest d it)
    (do { c \<leftarrow> bucket (get_ht d (it_table it)) (nat (it_index it));
          let it = it_enter it c;
          if it_entry it \<noteq> None then Some (d, it, it_entry it) else dictNext fp d it })"
proof -
  have b: "bucket (get_ht d (it_table it)) (nat (it_index it)) = Some c"
    using assms(5) by (simp add: bucket_def c_def)
  have refl: "same_tables d d" by (auto simp: same_tables_def intro: exI [of _ "pauserehash d"])
  show ?thesis
  proof (cases c)
    case Nil
    then show ?thesis using b assms(6) by (simp add: it_enter_def)
  next
    case (Cons e rest)
    then show ?thesis
      using b assms(2-4) refl by (auto simp: it_enter_def next_post_def it_ok_def it_rest_def)
  qed
qed

lemma dictNext_none:
  assumes "dict_inv ty d" and "it_ok d it" and "it_entry it = None"
  shows "next_post d (it_rest d it) (dictNext fp d it)"
  using assms
proof (induction "length (ht_table (get_ht d (it_table it))) - nat (it_index it + 1) +
    (if it_table it = 0 then length (ht_table (ht1 d)) + 1 else 0)" arbitrary: d it rule: less_induct)
  case less
  obtain d1 it1 where st: "it_start fp d it = (d1, it1)" by (cases "it_start fp d it")
  note s1 = it_start_same [OF st]
  then have sm: "same_tables d d1" by simp
  note eqs = same_tables_simps [OF sm]
  define it2 where "it2 = it1\<lparr>it_index := it_index it1 + 1\<rparr>"
  let ?tab = "ht_table (get_ht d (it_table it))"
  have i2: "it_index it2 = it_index it + 1" "it_table it2 = it_table it" "it_entry it2 = None"
    using s1 less.prems(3) by (simp_all add: it2_def)
  have ok: "ht_ok ty (get_ht d i)" for i using dict_invD(1,2) [OF less.prems(1)] by (simp add: get_ht_def)
  have inv1: "dict_inv ty d1" using less.prems(1) eqs(7) by simp
  have it: "it_table it \<le> 1" "-1 \<le> it_index it" "it_table it = 1 \<longrightarrow> dictIsRehashing d \<and> 0 \<le> it_index it"
    using less.prems(2) by (auto simp: it_ok_def)
  have unf: "dictNext fp d it = (case (if int (length ?tab) \<le> it_index it2 then
        if dictIsRehashing d \<and> it_table it = 0 then Some (it2\<lparr>it_table := 1, it_index := 0\<rparr>) else None else Some it2) of
      None \<Rightarrow> Some (d1, it2, None)
    | Some it \<Rightarrow> do { c \<leftarrow> bucket (get_ht d1 (it_table it)) (nat (it_index it));
        let it = it_enter it c;
        if it_entry it \<noteq> None then Some (d1, it, it_entry it) else dictNext fp d1 it })"
    by (subst dictNext.simps)
      (simp add: less.prems(3) st s1 it2_def Let_def eqs uint_SIZE [OF ok])
  consider (stay) "it_index it + 1 < int (length ?tab)"
    | (switch) "int (length ?tab) \<le> it_index it + 1" "dictIsRehashing d" "it_table it = 0"
    | (stop) "int (length ?tab) \<le> it_index it + 1" "\<not> (dictIsRehashing d \<and> it_table it = 0)"
    by linarith
  then show ?case
  proof cases
    case stay
    have "next_post d1 (it_rest d1 it2) (dictNext fp d1 (it2\<lparr>it_entry := None\<rparr>))"
    proof -
      have "next_post d1 (it_rest d1 (it2\<lparr>it_entry := None\<rparr>)) (dictNext fp d1 (it2\<lparr>it_entry := None\<rparr>))"
        by (rule less.hyps) (use stay it i2 inv1 eqs in \<open>auto simp: it_ok_def\<close>)
      then show ?thesis by (simp add: it_rest_def)
    qed
    note nx = this
    have "next_post d1 (ht_table (get_ht d1 (it_table it2)) ! nat (it_index it2) @ it_rest d1 it2)
        (do { c \<leftarrow> bucket (get_ht d1 (it_table it2)) (nat (it_index it2));
          let it = it_enter it2 c;
          if it_entry it \<noteq> None then Some (d1, it, it_entry it) else dictNext fp d1 it })"
      by (rule visit_bucket [OF inv1 _ _ _ _ nx]) (use stay it i2 eqs in auto)
    moreover have "it_rest d it = ht_table (get_ht d1 (it_table it2)) ! nat (it_index it2) @ it_rest d1 it2"
    proof -
      have "drop (nat (it_index it + 1)) ?tab = ?tab ! nat (it_index it + 1) # drop (nat (it_index it + 1 + 1)) ?tab"
        using stay it(2) Cons_nth_drop_Suc [of "nat (it_index it + 1)" ?tab, symmetric]
        by (simp add: Suc_nat_eq_nat_zadd1 add.commute)
      then show ?thesis by (simp add: it_rest_def eqs i2)
    qed
    ultimately show ?thesis
      unfolding unf using stay i2 by (simp add: next_post_same [OF sm])
  next
    case switch
    define it3 where "it3 = it2\<lparr>it_table := 1, it_index := 0\<rparr>"
    let ?tab1 = "ht_table (ht1 d)"
    have e1: "ht_size_exp (ht1 d) \<noteq> -1"
      using dict_invD(7) [OF less.prems(1)] switch(2) by (simp add: dictIsRehashing_def)
    have t1: "0 < length ?tab1" using dict_invD(2) [OF less.prems(1)] e1 by (simp add: ht_ok_def)
    have i3: "it_index it3 = 0" "it_table it3 = 1" "it_entry it3 = None" using i2 by (simp_all add: it3_def)
    have "next_post d1 (it_rest d1 it3) (dictNext fp d1 (it3\<lparr>it_entry := None\<rparr>))"
    proof -
      have "next_post d1 (it_rest d1 (it3\<lparr>it_entry := None\<rparr>)) (dictNext fp d1 (it3\<lparr>it_entry := None\<rparr>))"
        by (rule less.hyps) (use switch i3 inv1 eqs t1 in \<open>auto simp: it_ok_def get_ht_def\<close>)
      then show ?thesis by (simp add: it_rest_def)
    qed
    note nx = this
    have "next_post d1 (ht_table (get_ht d1 (it_table it3)) ! nat (it_index it3) @ it_rest d1 it3)
        (do { c \<leftarrow> bucket (get_ht d1 (it_table it3)) (nat (it_index it3));
          let it = it_enter it3 c;
          if it_entry it \<noteq> None then Some (d1, it, it_entry it) else dictNext fp d1 it })"
      by (rule visit_bucket [OF inv1 _ _ _ _ nx]) (use switch i3 eqs t1 in \<open>auto simp: get_ht_def\<close>)
    moreover have "it_rest d it = ht_table (get_ht d1 (it_table it3)) ! nat (it_index it3) @ it_rest d1 it3"
      using switch i3 t1 by (cases ?tab1) (auto simp: it_rest_def eqs get_ht_def)
    ultimately show ?thesis
      unfolding unf it3_def using switch i2 by (simp add: next_post_same [OF sm])
  next
    case stop
    have "ht_table (ht1 d) = []" if "it_table it = 0"
      using that stop(2) ht_ok_null dict_invD(2,5) [OF less.prems(1)] by (simp add: dictIsRehashing_def)
    then have "it_rest d it = []" using stop(1) by (simp add: it_rest_def)
    then show ?thesis
      unfolding unf using stop i2 sm by (auto simp: next_post_def)
  qed
qed

lemma dictNext_some:
  assumes "dict_inv ty d" and "it_ok d it" and "it_entry it \<noteq> None" and "0 \<le> it_index it"
  shows "next_post d (it_next it @ it_rest d it) (dictNext fp d it)"
proof (cases "it_next it")
  case Nil
  have "next_post d (it_rest d (it\<lparr>it_entry := None\<rparr>)) (dictNext fp d (it\<lparr>it_entry := None\<rparr>))"
    using assms(1,2) by (intro dictNext_none) (auto simp: it_ok_def)
  moreover have "dictNext fp d it = dictNext fp d (it\<lparr>it_entry := None\<rparr>)"
    using Nil assms(3) by (subst dictNext.simps) (auto simp: it_enter_def)
  ultimately show ?thesis using Nil by (simp add: it_rest_def)
next
  case (Cons e rest)
  have "dictNext fp d it = Some (d, it\<lparr>it_entry := Some e, it_next := rest\<rparr>, Some e)"
    using Cons assms(3) by (subst dictNext.simps) (auto simp: it_enter_def)
  moreover have "same_tables d d" by (auto simp: same_tables_def intro: exI [of _ "pauserehash d"])
  ultimately show ?thesis
    using Cons assms(2,4) by (auto simp: next_post_def it_ok_def it_rest_def)
qed

text \<open>Calling \<open>dictNext\<close> until it returns \<open>NULL\<close>, at most \<open>n\<close> times.\<close>

fun iter_collect :: "nat \<Rightarrow> (('k, 'v) dict \<Rightarrow> u64) \<Rightarrow> ('k, 'v) dict \<Rightarrow> ('k, 'v) dictIterator \<Rightarrow> ('k, 'v) chain option" where
  "iter_collect 0 fp d it = None"
| "iter_collect (Suc n) fp d it =
     do {
       (d, it, e) \<leftarrow> dictNext fp d it;
       case e of None \<Rightarrow> Some [] | Some e \<Rightarrow> map_option (Cons e) (iter_collect n fp d it)
     }"

lemma iter_collect_some:
  assumes "dict_inv ty d" and "next_post d es (dictNext fp d it)"
  shows "iter_collect (Suc (length es)) fp d it = Some es"
  using assms
proof (induction es arbitrary: d it)
  case Nil
  then show ?case by (auto simp: next_post_def)
next
  case (Cons e es)
  then obtain d' it' where n: "dictNext fp d it = Some (d', it', Some e)" "same_tables d d'"
      "it_entry it' = Some e" "it_ok d it'" "0 \<le> it_index it'" "it_next it' @ it_rest d it' = es"
    by (auto simp: next_post_def)
  note eqs = same_tables_simps [OF n(2)]
  have "next_post d' (it_next it' @ it_rest d' it') (dictNext fp d' it')"
    using Cons.prems(1) n(3-5) by (intro dictNext_some) (simp_all add: eqs)
  then have "iter_collect (Suc (length es)) fp d' it' = Some es"
    using Cons.IH [of d' it'] Cons.prems(1) n(6) by (simp add: eqs)
  then show ?case using n(1) by simp
qed

text \<open>
  C17: An iterator over a dictionary that is not modified, safe or unsafe, in the middle of a rehash
  or not, returns every entry exactly once and then \<open>NULL\<close>.
\<close>

theorem dictNext_enumerates:
  assumes "dict_inv ty d" and "it = dictGetIterator \<or> it = dictGetSafeIterator"
  shows "iter_collect (Suc (length (dict_entries d))) fp d it = Some (dict_entries d)"
proof -
  have i: "it_ok d it" "it_entry it = None" "it_rest d it = dict_entries d"
    using assms(2) by (auto simp: it_ok_def it_rest_def dict_entries_def get_ht_def dictGetIterator_def dictGetSafeIterator_def)
  from iter_collect_some [OF assms(1), of "dict_entries d" fp it] dictNext_none [OF assms(1) i(1,2), of fp]
  show ?thesis by (simp add: i(3))
qed

theorem dictNext_enumerates_witness:
  "iter_collect 4 (\<lambda>_. 0) wit_d2 dictGetSafeIterator = Some [(1, 0), (7, 0), (4, 0)]"
proof -
  have "dict_entries wit_d2 = [(1, 0), (7, 0), (4, 0)]" by (simp add: dict_entries_def wit_d2_def)
  then show ?thesis using dictNext_enumerates [OF wit_inv(2), of dictGetSafeIterator "\<lambda>_. 0"] by (simp add: numeral_eq_Suc)
qed

end
