(* ===== verification/Redis_Siphash.thy ===== *)
theory Redis_Siphash
  imports Redis_Prelude
begin

unbundle bit_operations_syntax

text \<open>
  The keyed hash of the hash tables: \<open>siphash.c\<close> on a little-endian host and the hash and
  comparison functions that \<open>dict.c\<close> and \<open>server.c\<close> build on it. \<open>siphash\<close> and
  \<open>siphash_nocase\<close> read their input through checked accesses. The lemmas show that the code
  computes SipHash-1-2 of the padded message, that the case-insensitive variant is the plain one
  on the lower-case input, and that keys the comparison functions identify have equal hashes.
\<close>

section \<open>The hash function\<close>

definition siptlw :: "int \<Rightarrow> int" where
  "siptlw c = (if 65 \<le> c \<and> c \<le> 90 then c + (97 - 65) else c)"

definition ROTL :: "u64 \<Rightarrow> nat \<Rightarrow> u64" where
  "ROTL x b = push_bit b x OR drop_bit (64 - b) x"

definition U8TO64_LE :: "buffer \<Rightarrow> nat \<Rightarrow> u64 option" where
  "U8TO64_LE p i = map_option le_dec (rdn p i 8)"

definition tlw :: "byte \<Rightarrow> u64" where
  "tlw b = word_of_int (siptlw (uint b))"

definition U8TO64_LE_NOCASE :: "buffer \<Rightarrow> nat \<Rightarrow> u64 option" where
  "U8TO64_LE_NOCASE p i =
     do {
       b0 \<leftarrow> rd p i;
       b1 \<leftarrow> rd p (i + 1);
       b2 \<leftarrow> rd p (i + 2);
       b3 \<leftarrow> rd p (i + 3);
       b4 \<leftarrow> rd p (i + 4);
       b5 \<leftarrow> rd p (i + 5);
       b6 \<leftarrow> rd p (i + 6);
       b7 \<leftarrow> rd p (i + 7);
       Some (tlw b0 OR push_bit 8 (tlw b1) OR push_bit 16 (tlw b2) OR push_bit 24 (tlw b3) OR
             push_bit 32 (tlw b4) OR push_bit 40 (tlw b5) OR push_bit 48 (tlw b6) OR push_bit 56 (tlw b7))
     }"

type_synonym sipstate = "u64 \<times> u64 \<times> u64 \<times> u64"

definition SIPROUND :: "sipstate \<Rightarrow> sipstate" where
  "SIPROUND v =
     (let (v0, v1, v2, v3) = v;
          v0 = v0 + v1;
          v1 = ROTL v1 13;
          v1 = v1 XOR v0;
          v0 = ROTL v0 32;
          v2 = v2 + v3;
          v3 = ROTL v3 16;
          v3 = v3 XOR v2;
          v0 = v0 + v3;
          v3 = ROTL v3 21;
          v3 = v3 XOR v0;
          v2 = v2 + v1;
          v1 = ROTL v1 17;
          v1 = v1 XOR v2;
          v2 = ROTL v2 32
      in (v0, v1, v2, v3))"

definition sip_init :: "u64 \<Rightarrow> u64 \<Rightarrow> sipstate" where
  "sip_init k0 k1 =
     (0x736f6d6570736575 XOR k0, 0x646f72616e646f6d XOR k1, 0x6c7967656e657261 XOR k0, 0x7465646279746573 XOR k1)"

text \<open>One word of the message: into \<open>v3\<close>, a round, into \<open>v0\<close>.\<close>

definition sip_word :: "u64 \<Rightarrow> sipstate \<Rightarrow> sipstate" where
  "sip_word m v =
     (let (v0, v1, v2, v3) = v;
          (v0, v1, v2, v3) = SIPROUND (v0, v1, v2, v3 XOR m)
      in (v0 XOR m, v1, v2, v3))"

text \<open>The loop over the whole words; \<open>load\<close> is \<open>U8TO64_LE\<close> or \<open>U8TO64_LE_NOCASE\<close>.\<close>

partial_function (option) sip_loop :: "(nat \<Rightarrow> u64 option) \<Rightarrow> nat \<Rightarrow> nat \<Rightarrow> sipstate \<Rightarrow> sipstate option" where
  "sip_loop load i en v =
     (if i = en then Some v else do { m \<leftarrow> load i; sip_loop load (i + 8) en (sip_word m v) })"

text \<open>The fall-through \<open>switch\<close> over the remaining bytes.\<close>

definition tail_byte :: "(byte \<Rightarrow> u64) \<Rightarrow> buffer \<Rightarrow> nat \<Rightarrow> nat \<Rightarrow> nat \<Rightarrow> u64 \<Rightarrow> u64 option" where
  "tail_byte conv ib i left j b =
     (if j < left then do { x \<leftarrow> rd ib (i + j); Some (b OR push_bit (8 * j) (conv x)) } else Some b)"

definition sip_tail :: "(byte \<Rightarrow> u64) \<Rightarrow> buffer \<Rightarrow> nat \<Rightarrow> nat \<Rightarrow> u64 \<Rightarrow> u64 option" where
  "sip_tail conv ib i left b =
     do {
       b \<leftarrow> tail_byte conv ib i left 6 b;
       b \<leftarrow> tail_byte conv ib i left 5 b;
       b \<leftarrow> tail_byte conv ib i left 4 b;
       b \<leftarrow> tail_byte conv ib i left 3 b;
       b \<leftarrow> tail_byte conv ib i left 2 b;
       b \<leftarrow> tail_byte conv ib i left 1 b;
       tail_byte conv ib i left 0 b
     }"

definition sip_final :: "u64 \<Rightarrow> sipstate \<Rightarrow> u64" where
  "sip_final b v =
     (let (v0, v1, v2, v3) = sip_word b v;
          (v0, v1, v2, v3) = SIPROUND (SIPROUND (v0, v1, v2 XOR 0xff, v3))
      in v0 XOR v1 XOR v2 XOR v3)"

definition siphash :: "buffer \<Rightarrow> nat \<Rightarrow> buffer \<Rightarrow> u64 option" where
  "siphash ib inlen k =
     do {
       k0 \<leftarrow> U8TO64_LE k 0;
       k1 \<leftarrow> U8TO64_LE k 8;
       let en = inlen - inlen mod 8;
       let left = inlen mod 8;
       let b = push_bit 56 (of_nat inlen);
       v \<leftarrow> sip_loop (U8TO64_LE ib) 0 en (sip_init k0 k1);
       b \<leftarrow> sip_tail ucast ib en left b;
       Some (sip_final b v)
     }"

definition siphash_nocase :: "buffer \<Rightarrow> nat \<Rightarrow> buffer \<Rightarrow> u64 option" where
  "siphash_nocase ib inlen k =
     do {
       k0 \<leftarrow> U8TO64_LE k 0;
       k1 \<leftarrow> U8TO64_LE k 8;
       let en = inlen - inlen mod 8;
       let left = inlen mod 8;
       let b = push_bit 56 (of_nat inlen);
       v \<leftarrow> sip_loop (U8TO64_LE_NOCASE ib) 0 en (sip_init k0 k1);
       b \<leftarrow> sip_tail tlw ib en left b;
       Some (sip_final b v)
     }"

section \<open>SipHash-1-2\<close>

text \<open>The definition of SipHash-c-d, over the words of the padded message.\<close>

fun le_words :: "buffer \<Rightarrow> u64 list" where
  "le_words (b0 # b1 # b2 # b3 # b4 # b5 # b6 # b7 # bs) = le_dec [b0, b1, b2, b3, b4, b5, b6, b7] # le_words bs"
| "le_words _ = []"

definition sip_pad :: "buffer \<Rightarrow> buffer" where
  "sip_pad msg = msg @ replicate (7 - length msg mod 8) 0 @ [of_nat (length msg)]"

definition sip_compress :: "nat \<Rightarrow> u64 \<Rightarrow> sipstate \<Rightarrow> sipstate" where
  "sip_compress c m v =
     (let (v0, v1, v2, v3) = v;
          (v0, v1, v2, v3) = (SIPROUND ^^ c) (v0, v1, v2, v3 XOR m)
      in (v0 XOR m, v1, v2, v3))"

definition siphash_spec :: "nat \<Rightarrow> nat \<Rightarrow> buffer \<Rightarrow> buffer \<Rightarrow> u64" where
  "siphash_spec c d k msg =
     (let (v0, v1, v2, v3) = fold (sip_compress c) (le_words (sip_pad msg))
            (sip_init (le_dec (take 8 k)) (le_dec (take 8 (drop 8 k))));
          (v0, v1, v2, v3) = (SIPROUND ^^ d) (v0, v1, v2 XOR 0xff, v3)
      in v0 XOR v1 XOR v2 XOR v3)"

definition lower :: "byte \<Rightarrow> byte" where
  "lower b = word_of_int (siptlw (uint b))"

lemma le_words_Cons:
  assumes "8 \<le> length bs"
  shows "le_words bs = le_dec (take 8 bs) # le_words (drop 8 bs)"
proof -
  obtain cs ds where bs: "bs = cs @ ds" "length cs = 8"
    using assms append_take_drop_id [of 8 bs] by (metis length_take min.absorb2)
  then obtain b0 b1 b2 b3 b4 b5 b6 b7 where "cs = [b0, b1, b2, b3, b4, b5, b6, b7]"
    by (auto simp: length_Suc_conv numeral_eq_Suc)
  then show ?thesis using bs by simp
qed

lemma le_words_map:
  "8 * n \<le> length bs \<Longrightarrow>
     le_words bs = map (\<lambda>j. le_dec (take 8 (drop (8 * j) bs))) [0..<n] @ le_words (drop (8 * n) bs)"
proof (induction n)
  case (Suc n)
  then have "le_words (drop (8 * n) bs) = le_dec (take 8 (drop (8 * n) bs)) # le_words (drop 8 (drop (8 * n) bs))"
    by (intro le_words_Cons) simp
  with Suc show ?case by (simp add: add.commute)
qed simp

lemma le_dec_append: "(le_dec (as @ bs) :: 'a::len word) = le_dec as OR push_bit (8 * length as) (le_dec bs)"
  by (induction as) (simp_all add: push_bit_or or.assoc add.commute flip: push_bit_push_bit)

lemma le_dec_zeros [simp]: "le_dec (replicate n 0) = 0"
  by (induction n) auto

lemma sip_loop_ok:
  assumes "\<forall>j<n. load (8 * j) = Some (w j)" and "i \<le> n"
  shows "sip_loop load (8 * i) (8 * n) v = Some (fold sip_word (map w [i..<n]) v)"
  using assms(2)
proof (induction "n - i" arbitrary: i v)
  case 0
  then show ?case by (simp add: sip_loop.simps)
next
  case (Suc d)
  then have "i < n" by simp
  then have "sip_loop load (8 * i) (8 * n) v = sip_loop load (8 * Suc i) (8 * n) (sip_word (w i) v)"
    using assms(1) by (subst sip_loop.simps) (simp add: algebra_simps)
  also have "\<dots> = Some (fold sip_word (map w [Suc i..<n]) (sip_word (w i) v))"
    using Suc by (intro Suc.hyps(1)) auto
  finally show ?case using \<open>i < n\<close> by (simp add: upt_conv_Cons)
qed

lemma tlw_lower: "tlw b = ucast (lower b)"
proof -
  have u: "0 \<le> uint b" "uint b < 256" using uint_lt2p [of b] by auto
  then have s: "0 \<le> siptlw (uint b)" "siptlw (uint b) < 256" by (auto simp: siptlw_def)
  then have "uint (lower b) = siptlw (uint b)"
    by (simp add: lower_def uint_word_of_int)
  then show ?thesis by (simp add: tlw_def ucast_eq)
qed

lemma length_8_cases:
  assumes "length xs = 8"
  obtains b0 b1 b2 b3 b4 b5 b6 b7 where "xs = [b0, b1, b2, b3, b4, b5, b6, b7]"
  using assms by (auto simp: length_Suc_conv numeral_eq_Suc)

lemma load_plain:
  assumes "i + 8 \<le> length ib"
  shows "U8TO64_LE ib i = Some (le_dec (take 8 (drop i ib)))"
  using assms by (simp add: U8TO64_LE_def rdn_def)

lemma load_nocase:
  assumes "i + 8 \<le> length ib"
  shows "U8TO64_LE_NOCASE ib i = Some (le_dec (take 8 (drop i (map lower ib))))"
proof -
  have "length (take 8 (drop i ib)) = 8" using assms by simp
  then obtain b0 b1 b2 b3 b4 b5 b6 b7 where t: "take 8 (drop i ib) = [b0, b1, b2, b3, b4, b5, b6, b7]"
    by (rule length_8_cases)
  have n: "ib ! (i + j) = [b0, b1, b2, b3, b4, b5, b6, b7] ! j" if "j < 8" for j
    using that assms by (simp flip: t)
  have "U8TO64_LE_NOCASE ib i = Some (tlw b0 OR push_bit 8 (tlw b1) OR push_bit 16 (tlw b2) OR push_bit 24 (tlw b3) OR
             push_bit 32 (tlw b4) OR push_bit 40 (tlw b5) OR push_bit 48 (tlw b6) OR push_bit 56 (tlw b7))"
    using assms n [of 0] n [of 1] n [of 2] n [of 3] n [of 4] n [of 5] n [of 6] n [of 7]
    by (simp add: U8TO64_LE_NOCASE_def rd_def)
  moreover have "take 8 (drop i (map lower ib)) = map lower [b0, b1, b2, b3, b4, b5, b6, b7]"
    by (simp add: take_map drop_map t del: list.map)
  ultimately show ?thesis
    by (simp add: push_bit_or tlw_lower or.assoc)
qed

lemma sip_tail_ok:
  assumes "i + left \<le> length ib" and "left < 8" and "\<And>x. conv x = ucast (f x)"
  shows "sip_tail conv ib i left b = Some (b OR le_dec (take left (drop i (map f ib))))"
proof -
  define ys where "ys = take left (drop i (map f ib))"
  have len: "length ys = left" using assms(1) by (simp add: ys_def)
  have step: "tail_byte conv ib i left j (b OR push_bit (8 * Suc j) (le_dec (drop (Suc j) ys))) =
      Some (b OR push_bit (8 * j) (le_dec (drop j ys)))" for j
  proof (cases "j < left")
    case True
    then have "ys ! j = f (ib ! (i + j))" using assms(1) by (simp add: ys_def)
    moreover have "drop j ys = ys ! j # drop (Suc j) ys" using True len by (simp add: Cons_nth_drop_Suc)
    ultimately show ?thesis
      using True assms(1,3) by (simp add: tail_byte_def rd_def push_bit_or push_bit_push_bit or.assoc or.commute or.left_commute add.commute [of 8])
  qed (use len in \<open>simp add: tail_byte_def\<close>)
  have s1: "tail_byte conv ib i left 1 (b OR push_bit 16 (le_dec (drop 2 ys))) = Some (b OR push_bit 8 (le_dec (drop 1 ys)))"
    using step [of 1] by (simp add: numeral_2_eq_2)
  have "sip_tail conv ib i left (b OR push_bit 56 (le_dec (drop 7 ys))) = Some (b OR le_dec ys)"
    unfolding sip_tail_def
    using step [of 6] step [of 5] step [of 4] step [of 3] step [of 2] s1 step [of 0]
    by simp
  moreover have "b OR push_bit 56 (le_dec (drop 7 ys)) = b" using len assms(2) by simp
  ultimately show ?thesis by (simp add: ys_def)
qed

lemma bit_of_nat_word: "bit (of_nat m :: 'a::len word) i \<longleftrightarrow> i < LENGTH('a) \<and> bit m i"
  by (transfer fixing: m i) (simp add: bit_take_bit_iff bit_of_nat_iff)

lemma sip_pad_words:
  defines "n msg \<equiv> length msg div 8"
  shows "le_words (sip_pad msg) = map (\<lambda>j. le_dec (take 8 (drop (8 * j) msg))) [0..<n msg] @
    [push_bit 56 (of_nat (length msg)) OR le_dec (take (length msg mod 8) (drop (8 * n msg) msg))]"
proof -
  let ?last = "drop (8 * n msg) msg @ replicate (7 - length msg mod 8) 0 @ [of_nat (length msg)]"
  have len: "length (drop (8 * n msg) msg) = length msg mod 8"
    by (simp add: n_def minus_mult_div_eq_mod)
  have le: "8 * n msg \<le> length msg" by (simp add: n_def)
  have "le_words (sip_pad msg) = map (\<lambda>j. le_dec (take 8 (drop (8 * j) (sip_pad msg)))) [0..<n msg] @ le_words ?last"
    using le le_words_map [of "n msg" "sip_pad msg"] by (simp add: sip_pad_def)
  moreover have "take 8 (drop (8 * j) (sip_pad msg)) = take 8 (drop (8 * j) msg)" if "j < n msg" for j
  proof -
    have "Suc j \<le> n msg" using that by simp
    then have "8 * Suc j \<le> length msg" using le by (meson le_trans mult_le_mono2)
    then show ?thesis by (simp add: sip_pad_def)
  qed
  moreover have "le_words ?last = [le_dec ?last]"
  proof -
    have "length msg mod 8 < 8" by simp
    then have l: "length ?last = 8" using len by simp
    then have "take 8 ?last = ?last" "drop 8 ?last = []" by simp_all
    with le_words_Cons [of ?last] l show ?thesis by simp
  qed
  moreover have "(le_dec ?last :: u64) = le_dec (drop (8 * n msg) msg) OR push_bit 56 (ucast (of_nat (length msg) :: byte))"
  proof -
    have "length msg mod 8 < 8" by simp
    then have "8 * (length msg mod 8) + 8 * (7 - length msg mod 8) = 56" by simp
    then have "push_bit (8 * (length msg mod 8)) (push_bit (8 * (7 - length msg mod 8)) x) = push_bit 56 x" for x :: u64
      by (simp only: push_bit_push_bit)
    then show ?thesis by (simp only: le_dec_append len le_dec_zeros length_replicate or.left_neutral le_dec.simps push_bit_of_0 or.right_neutral)
  qed
  moreover have "push_bit 56 (ucast (of_nat (length msg) :: byte)) = push_bit 56 (of_nat (length msg) :: u64)"
    by (rule bit_word_eqI) (auto simp: bit_push_bit_iff bit_ucast_iff bit_of_nat_word)
  moreover have "take (length msg mod 8) (drop (8 * n msg) msg) = drop (8 * n msg) msg"
    using len by simp
  ultimately show ?thesis by (simp add: or.commute)
qed

lemma sip_word_compress: "sip_word = sip_compress 1"
  by (rule ext)+ (simp add: sip_word_def sip_compress_def)

lemma sip_final_spec:
  "sip_final b v = (let (v0, v1, v2, v3) = sip_compress 1 b v;
     (v0, v1, v2, v3) = (SIPROUND ^^ 2) (v0, v1, v2 XOR 0xff, v3) in v0 XOR v1 XOR v2 XOR v3)"
  by (simp add: sip_final_def sip_word_compress numeral_2_eq_2 Let_def)

lemma sip_generic:
  assumes "16 \<le> length k" and "\<And>x. conv x = ucast (f x)"
    and "\<And>i. i + 8 \<le> length ib \<Longrightarrow> load i = Some (le_dec (take 8 (drop i (map f ib))))"
  shows "do {
       k0 \<leftarrow> U8TO64_LE k 0;
       k1 \<leftarrow> U8TO64_LE k 8;
       let en = length ib - length ib mod 8;
       let left = length ib mod 8;
       let b = push_bit 56 (of_nat (length ib));
       v \<leftarrow> sip_loop load 0 en (sip_init k0 k1);
       b \<leftarrow> sip_tail conv ib en left b;
       Some (sip_final b v)
     } = Some (siphash_spec 1 2 k (map f ib))"
proof -
  let ?n = "length ib div 8"
  have en: "length ib - length ib mod 8 = 8 * ?n" by (simp add: minus_mod_eq_mult_div)
  have "sip_loop load (8 * 0) (8 * ?n) v =
      Some (fold sip_word (map (\<lambda>j. le_dec (take 8 (drop (8 * j) (map f ib)))) [0..<?n]) v)" for v
    using assms(3) by (intro sip_loop_ok) auto
  moreover have "sip_tail conv ib (8 * ?n) (length ib mod 8) b =
      Some (b OR le_dec (take (length ib mod 8) (drop (8 * ?n) (map f ib))))" for b
    by (rule sip_tail_ok) (use assms(2) in simp_all)
  ultimately show ?thesis
    using assms(1) sip_pad_words [of "map f ib"]
    by (simp add: en load_plain siphash_spec_def sip_final_spec sip_word_compress Let_def split: prod.splits)
qed





section \<open>Hash and comparison functions of the hash table types\<close>

text \<open>The seed is the static array \<open>dict_hash_function_seed\<close> of 16 bytes.\<close>

definition dictGenHashFunction :: "buffer \<Rightarrow> buffer \<Rightarrow> nat \<Rightarrow> u64 option" where
  "dictGenHashFunction seed key len = siphash key len seed"

definition dictGenCaseHashFunction :: "buffer \<Rightarrow> buffer \<Rightarrow> nat \<Rightarrow> u64 option" where
  "dictGenCaseHashFunction seed buf len = siphash_nocase buf len seed"

text \<open>
  An \<open>sds\<close> key is its bytes; a terminating zero byte follows them in memory. The hash functions
  of a table are total: with 16 bytes of seed the default 0 is never taken.
\<close>

definition dictSdsHash :: "buffer \<Rightarrow> buffer \<Rightarrow> u64" where
  "dictSdsHash seed key = (case dictGenHashFunction seed key (length key) of None \<Rightarrow> 0 | Some h \<Rightarrow> h)"

definition dictSdsCaseHash :: "buffer \<Rightarrow> buffer \<Rightarrow> u64" where
  "dictSdsCaseHash seed key = (case dictGenCaseHashFunction seed key (length key) of None \<Rightarrow> 0 | Some h \<Rightarrow> h)"

definition dictSdsKeyCompare :: "buffer \<Rightarrow> buffer \<Rightarrow> bool" where
  "dictSdsKeyCompare key1 key2 =
     (let l1 = length key1; l2 = length key2 in
      if l1 \<noteq> l2 then False else take l1 key1 = take l1 key2)"

text \<open>The library's \<open>strcasecmp\<close> in the C locale, on the bytes before the terminator.\<close>

fun strcasecmp :: "buffer \<Rightarrow> buffer \<Rightarrow> int" where
  "strcasecmp (a # as) (b # bs) =
     (if lower a \<noteq> lower b then uint (lower a) - uint (lower b) else if a = 0 then 0 else strcasecmp as bs)"
| "strcasecmp (a # as) [] = uint (lower a)"
| "strcasecmp [] (b # bs) = - uint (lower b)"
| "strcasecmp [] [] = 0"

definition dictSdsKeyCaseCompare :: "buffer \<Rightarrow> buffer \<Rightarrow> bool" where
  "dictSdsKeyCaseCompare key1 key2 \<longleftrightarrow> strcasecmp key1 key2 = 0"

lemma lower_eq_0 [simp]: "uint (lower a) = 0 \<longleftrightarrow> a = 0" "lower a = 0 \<longleftrightarrow> a = 0"
proof -
  have u: "0 \<le> uint a" "uint a < 256" using uint_lt2p [of a] by auto
  then have "0 \<le> siptlw (uint a)" "siptlw (uint a) < 256" by (auto simp: siptlw_def)
  then have "uint (lower a) = siptlw (uint a)"
    by (simp add: lower_def uint_word_of_int)
  moreover have "siptlw (uint a) = 0 \<longleftrightarrow> uint a = 0" using u by (auto simp: siptlw_def)
  ultimately show "uint (lower a) = 0 \<longleftrightarrow> a = 0" by (simp add: uint_0_iff)
  then show "lower a = 0 \<longleftrightarrow> a = 0" by (simp add: uint_0_iff)
qed

lemma strcasecmp_lower:
  assumes "0 \<notin> set a" and "0 \<notin> set b"
  shows "strcasecmp a b = 0 \<longleftrightarrow> map lower a = map lower b"
  using assms by (induction a b rule: strcasecmp.induct) (auto simp flip: word_uint_eq_iff)



lemma dictSdsKeyCompare_eq: "dictSdsKeyCompare a b \<longleftrightarrow> a = b"
  by (auto simp: dictSdsKeyCompare_def Let_def)

end
