(* ===== verification/Redis_Sds.thy ===== *)
theory Redis_Sds
  imports Redis_Util
begin

unbundle bit_operations_syntax

text \<open>
  Simple dynamic strings, \<open>sds.h\<close> and \<open>sds.c\<close>. A string is the record of its header (the
  flags byte with the type in its low three bits, the \<open>len\<close> and \<open>alloc\<close> fields at the width
  of the type) and the bytes of its allocation from \<open>buf[0]\<close> on. Writes to a header field
  truncate to the width of the field. The allocator is a parameter: the usable size of a block
  and the bytes a new block holds.

  The lemmas show that creation, growth, resizing, appending and copying keep the header and the
  allocation consistent and have the expected effect on the contents.
\<close>

section \<open>Headers\<close>

record sds =
  s_flags :: byte
  s_len :: u64
  s_alloc :: u64
  s_mem :: buffer

definition SDS_TYPE_5 :: byte where "SDS_TYPE_5 = 0"
definition SDS_TYPE_8 :: byte where "SDS_TYPE_8 = 1"
definition SDS_TYPE_16 :: byte where "SDS_TYPE_16 = 2"
definition SDS_TYPE_32 :: byte where "SDS_TYPE_32 = 3"
definition SDS_TYPE_64 :: byte where "SDS_TYPE_64 = 4"
definition SDS_TYPE_MASK :: byte where "SDS_TYPE_MASK = 7"
definition SDS_TYPE_BITS :: nat where "SDS_TYPE_BITS = 3"
definition SDS_MAX_PREALLOC :: u64 where "SDS_MAX_PREALLOC = 1024 * 1024"

lemmas sds_type_defs = SDS_TYPE_5_def SDS_TYPE_8_def SDS_TYPE_16_def SDS_TYPE_32_def SDS_TYPE_64_def
  SDS_TYPE_MASK_def SDS_TYPE_BITS_def

definition SDS_TYPE_5_LEN :: "byte \<Rightarrow> u64" where
  "SDS_TYPE_5_LEN f = ucast (drop_bit SDS_TYPE_BITS f)"

text \<open>What a \<open>uint8_t\<close>, \<open>uint16_t\<close>, \<open>uint32_t\<close> or \<open>uint64_t\<close> field keeps of a value.\<close>

definition hdr_field :: "byte \<Rightarrow> u64 \<Rightarrow> u64" where
  "hdr_field type v =
     (if type = SDS_TYPE_8 then take_bit 8 v
      else if type = SDS_TYPE_16 then take_bit 16 v
      else if type = SDS_TYPE_32 then take_bit 32 v
      else v)"

definition sdslen :: "sds \<Rightarrow> u64" where
  "sdslen s =
     (let flags = s_flags s; t = flags AND SDS_TYPE_MASK in
      if t = SDS_TYPE_5 then SDS_TYPE_5_LEN flags
      else if t = SDS_TYPE_8 \<or> t = SDS_TYPE_16 \<or> t = SDS_TYPE_32 \<or> t = SDS_TYPE_64 then s_len s
      else 0)"

definition sdsavail :: "sds \<Rightarrow> u64" where
  "sdsavail s =
     (let t = s_flags s AND SDS_TYPE_MASK in
      if t = SDS_TYPE_5 then 0
      else if t = SDS_TYPE_8 \<or> t = SDS_TYPE_16 \<or> t = SDS_TYPE_64 then s_alloc s - s_len s
      else if t = SDS_TYPE_32 then take_bit 32 (s_alloc s - s_len s)
      else 0)"

definition sdssetlen :: "sds \<Rightarrow> u64 \<Rightarrow> sds" where
  "sdssetlen s newlen =
     (let t = s_flags s AND SDS_TYPE_MASK in
      if t = SDS_TYPE_5 then s\<lparr>s_flags := SDS_TYPE_5 OR ucast (push_bit SDS_TYPE_BITS newlen)\<rparr>
      else if t = SDS_TYPE_8 \<or> t = SDS_TYPE_16 \<or> t = SDS_TYPE_32 \<or> t = SDS_TYPE_64 then
        s\<lparr>s_len := hdr_field t newlen\<rparr>
      else s)"

definition sdsinclen :: "sds \<Rightarrow> u64 \<Rightarrow> sds" where
  "sdsinclen s inc =
     (let flags = s_flags s; t = flags AND SDS_TYPE_MASK in
      if t = SDS_TYPE_5 then
        let newlen = (ucast (SDS_TYPE_5_LEN flags + inc) :: byte)
        in s\<lparr>s_flags := SDS_TYPE_5 OR push_bit SDS_TYPE_BITS newlen\<rparr>
      else if t = SDS_TYPE_8 \<or> t = SDS_TYPE_16 \<or> t = SDS_TYPE_32 \<or> t = SDS_TYPE_64 then
        s\<lparr>s_len := hdr_field t (s_len s + inc)\<rparr>
      else s)"

definition sdsalloc :: "sds \<Rightarrow> u64" where
  "sdsalloc s =
     (let flags = s_flags s; t = flags AND SDS_TYPE_MASK in
      if t = SDS_TYPE_5 then SDS_TYPE_5_LEN flags
      else if t = SDS_TYPE_8 \<or> t = SDS_TYPE_16 \<or> t = SDS_TYPE_32 \<or> t = SDS_TYPE_64 then s_alloc s
      else 0)"

definition sdssetalloc :: "sds \<Rightarrow> u64 \<Rightarrow> sds" where
  "sdssetalloc s newlen =
     (let t = s_flags s AND SDS_TYPE_MASK in
      if t = SDS_TYPE_5 then s
      else if t = SDS_TYPE_8 \<or> t = SDS_TYPE_16 \<or> t = SDS_TYPE_32 \<or> t = SDS_TYPE_64 then
        s\<lparr>s_alloc := hdr_field t newlen\<rparr>
      else s)"

definition sdsHdrSize :: "byte \<Rightarrow> u64" where
  "sdsHdrSize type =
     (let t = type AND SDS_TYPE_MASK in
      if t = SDS_TYPE_5 then 1
      else if t = SDS_TYPE_8 then 3
      else if t = SDS_TYPE_16 then 5
      else if t = SDS_TYPE_32 then 9
      else if t = SDS_TYPE_64 then 17
      else 0)"

definition sdsReqType :: "u64 \<Rightarrow> byte" where
  "sdsReqType string_size =
     (if string_size < push_bit 5 1 then SDS_TYPE_5
      else if string_size < push_bit 8 1 then SDS_TYPE_8
      else if string_size < push_bit 16 1 then SDS_TYPE_16
      else if string_size < push_bit 32 1 then SDS_TYPE_32
      else SDS_TYPE_64)"

definition sdsTypeMaxSize :: "byte \<Rightarrow> u64" where
  "sdsTypeMaxSize type =
     (if type = SDS_TYPE_5 then push_bit 5 1 - 1
      else if type = SDS_TYPE_8 then push_bit 8 1 - 1
      else if type = SDS_TYPE_16 then push_bit 16 1 - 1
      else if type = SDS_TYPE_32 then push_bit 32 1 - 1
      else -1)"

section \<open>Creation and growth\<close>

text \<open>
  The allocator: the usable size of a block of the requested size, the bytes of a new block,
  whether \<open>s_trymalloc_usable\<close> succeeds, and whether it is jemalloc. \<open>s_malloc_usable\<close> and the
  reallocation functions end the process when there is no memory and never return \<open>NULL\<close>.
\<close>

record sds_allocator =
  al_usable :: "u64 \<Rightarrow> u64"
  al_junk :: "nat \<Rightarrow> byte"
  al_try :: "u64 \<Rightarrow> bool"
  al_jemalloc :: bool

definition new_block :: "sds_allocator \<Rightarrow> u64 \<Rightarrow> u64 \<Rightarrow> buffer" where
  "new_block al sz hdrlen = map (al_junk al) [0..<unat (al_usable al sz) - unat hdrlen]"

definition realloc_block :: "sds_allocator \<Rightarrow> buffer \<Rightarrow> u64 \<Rightarrow> u64 \<Rightarrow> buffer" where
  "realloc_block al old sz hdrlen =
     (let n = unat (al_usable al sz) - unat hdrlen
      in take n old @ map (al_junk al) [length old..<n])"

text \<open>The free space a header of the given type records for a block.\<close>

definition usable_alloc :: "sds_allocator \<Rightarrow> byte \<Rightarrow> u64 \<Rightarrow> u64 \<Rightarrow> u64" where
  "usable_alloc al type sz hdrlen =
     (let usable = al_usable al sz - hdrlen - 1
      in if sdsTypeMaxSize type < usable then sdsTypeMaxSize type else usable)"

text \<open>The \<open>init\<close> argument: \<open>NULL\<close>, \<open>SDS_NOINIT\<close>, or a pointer to bytes.\<close>

datatype sds_init = Init_null | Init_noinit | Init_bytes buffer

text \<open>
  The result is \<open>None\<close> when an assertion fails or a byte outside a buffer is accessed, and
  \<open>Some None\<close> for a returned \<open>NULL\<close>.
\<close>

definition priv_sdsnewlen :: "sds_allocator \<Rightarrow> sds_init \<Rightarrow> u64 \<Rightarrow> bool \<Rightarrow> sds option option" where
  "priv_sdsnewlen al init initlen trymalloc =
     (let type = sdsReqType initlen;
          type = (if type = SDS_TYPE_5 \<and> initlen = 0 then SDS_TYPE_8 else type);
          hdrlen = sdsHdrSize type
      in if \<not> initlen < initlen + hdrlen + 1 then None
         else if trymalloc \<and> \<not> al_try al (hdrlen + initlen + 1) then Some None
         else do {
           let mem = new_block al (hdrlen + initlen + 1) hdrlen;
           mem \<leftarrow> (if init = Init_null then wrn mem 0 (replicate (unat initlen + 1) 0) else Some mem);
           let usable = usable_alloc al type (hdrlen + initlen + 1) hdrlen;
           let s = (if type = SDS_TYPE_5 then
                      \<lparr>s_flags = type OR ucast (push_bit SDS_TYPE_BITS initlen), s_len = 0, s_alloc = 0, s_mem = mem\<rparr>
                    else
                      \<lparr>s_flags = type, s_len = hdr_field type initlen, s_alloc = hdr_field type usable, s_mem = mem\<rparr>);
           mem \<leftarrow> (case init of
                    Init_bytes p \<Rightarrow>
                      if initlen \<noteq> 0 then do { bs \<leftarrow> rdn p 0 (unat initlen); wrn mem 0 bs } else Some mem
                  | _ \<Rightarrow> Some mem);
           mem \<leftarrow> wr mem (unat initlen) 0;
           Some (Some (s\<lparr>s_mem := mem\<rparr>))
         })"

definition sdsnewlen :: "sds_allocator \<Rightarrow> sds_init \<Rightarrow> u64 \<Rightarrow> sds option" where
  "sdsnewlen al init initlen = Option.bind (priv_sdsnewlen al init initlen False) (\<lambda>r. r)"

definition sdstrynewlen :: "sds_allocator \<Rightarrow> sds_init \<Rightarrow> u64 \<Rightarrow> sds option option" where
  "sdstrynewlen al init initlen = priv_sdsnewlen al init initlen True"

definition sdsempty :: "sds_allocator \<Rightarrow> sds option" where
  "sdsempty al = sdsnewlen al (Init_bytes []) 0"

definition sdsdup :: "sds_allocator \<Rightarrow> sds \<Rightarrow> sds option" where
  "sdsdup al s = sdsnewlen al (Init_bytes (s_mem s)) (sdslen s)"

definition sdsclear :: "sds \<Rightarrow> sds option" where
  "sdsclear s =
     do {
       let s = sdssetlen s 0;
       mem \<leftarrow> wr (s_mem s) 0 0;
       Some (s\<lparr>s_mem := mem\<rparr>)
     }"

definition priv_sdsMakeRoomFor :: "sds_allocator \<Rightarrow> sds \<Rightarrow> u64 \<Rightarrow> bool \<Rightarrow> sds option" where
  "priv_sdsMakeRoomFor al s addlen greedy =
     (let avail = sdsavail s;
          oldtype = s_flags s AND SDS_TYPE_MASK
      in if addlen \<le> avail then Some s
         else
           let len = sdslen s;
               reqlen = len + addlen;
               newlen = reqlen
           in if \<not> len < newlen then None
              else
                let newlen = (if greedy then
                                if newlen < SDS_MAX_PREALLOC then newlen * 2 else newlen + SDS_MAX_PREALLOC
                              else newlen);
                    type = sdsReqType newlen;
                    type = (if type = SDS_TYPE_5 then SDS_TYPE_8 else type);
                    hdrlen = sdsHdrSize type
                in if \<not> reqlen < hdrlen + newlen + 1 then None
                   else do {
                     s \<leftarrow> (if oldtype = type then
                            Some (s\<lparr>s_mem := realloc_block al (s_mem s) (hdrlen + newlen + 1) hdrlen\<rparr>)
                          else do {
                            let mem = new_block al (hdrlen + newlen + 1) hdrlen;
                            bs \<leftarrow> rdn (s_mem s) 0 (unat len + 1);
                            mem \<leftarrow> wrn mem 0 bs;
                            Some (sdssetlen (s\<lparr>s_flags := type, s_mem := mem\<rparr>) len)
                          });
                     let usable = usable_alloc al type (hdrlen + newlen + 1) hdrlen;
                     Some (sdssetalloc s usable)
                   })"

definition sdsMakeRoomFor :: "sds_allocator \<Rightarrow> sds \<Rightarrow> u64 \<Rightarrow> sds option" where
  "sdsMakeRoomFor al s addlen = priv_sdsMakeRoomFor al s addlen True"

definition sdsMakeRoomForNonGreedy :: "sds_allocator \<Rightarrow> sds \<Rightarrow> u64 \<Rightarrow> sds option" where
  "sdsMakeRoomForNonGreedy al s addlen = priv_sdsMakeRoomFor al s addlen False"

definition sdsResize :: "sds_allocator \<Rightarrow> sds \<Rightarrow> u64 \<Rightarrow> bool \<Rightarrow> sds option" where
  "sdsResize al s sz would_regrow =
     (let oldtype = s_flags s AND SDS_TYPE_MASK;
          oldhdrlen = sdsHdrSize oldtype;
          len = sdslen s
      in if sdsalloc s = sz then Some s
         else
           let len = (if sz < len then sz else len);
               type = sdsReqType sz;
               type = (if would_regrow \<and> type = SDS_TYPE_5 then SDS_TYPE_8 else type);
               hdrlen = sdsHdrSize type;
               use_realloc = (oldtype = type \<or> type < oldtype \<and> SDS_TYPE_8 < type);
               newlen = (if use_realloc then oldhdrlen + sz + 1 else hdrlen + sz + 1)
           in do {
             s \<leftarrow> (if use_realloc then
                    if al_jemalloc al \<and> unat (al_usable al newlen) = unat oldhdrlen + length (s_mem s) then Some s
                    else Some (s\<lparr>s_mem := realloc_block al (s_mem s) newlen oldhdrlen\<rparr>)
                  else do {
                    let mem = new_block al newlen hdrlen;
                    bs \<leftarrow> rdn (s_mem s) 0 (unat len);
                    mem \<leftarrow> wrn mem 0 bs;
                    Some (s\<lparr>s_flags := type, s_mem := mem\<rparr>)
                  });
             mem \<leftarrow> wr (s_mem s) (unat len) 0;
             Some (sdssetalloc (sdssetlen (s\<lparr>s_mem := mem\<rparr>) len) sz)
           })"

definition sdsRemoveFreeSpace :: "sds_allocator \<Rightarrow> sds \<Rightarrow> bool \<Rightarrow> sds option" where
  "sdsRemoveFreeSpace al s would_regrow = sdsResize al s (sdslen s) would_regrow"

definition sdsAllocSize :: "sds \<Rightarrow> u64" where
  "sdsAllocSize s = sdsHdrSize (s_flags s) + sdsalloc s + 1"

definition sdsgrowzero :: "sds_allocator \<Rightarrow> sds \<Rightarrow> u64 \<Rightarrow> sds option" where
  "sdsgrowzero al s len =
     (let curlen = sdslen s in
      if len \<le> curlen then Some s
      else do {
        s \<leftarrow> sdsMakeRoomFor al s (len - curlen);
        mem \<leftarrow> wrn (s_mem s) (unat curlen) (replicate (unat (len - curlen + 1)) 0);
        Some (sdssetlen (s\<lparr>s_mem := mem\<rparr>) len)
      })"

definition sdscatlen :: "sds_allocator \<Rightarrow> sds \<Rightarrow> buffer \<Rightarrow> u64 \<Rightarrow> sds option" where
  "sdscatlen al s t len =
     (let curlen = sdslen s in
      do {
        s \<leftarrow> sdsMakeRoomFor al s len;
        bs \<leftarrow> rdn t 0 (unat len);
        mem \<leftarrow> wrn (s_mem s) (unat curlen) bs;
        let s = sdssetlen (s\<lparr>s_mem := mem\<rparr>) (curlen + len);
        mem \<leftarrow> wr (s_mem s) (unat (curlen + len)) 0;
        Some (s\<lparr>s_mem := mem\<rparr>)
      })"

definition sdscpylen :: "sds_allocator \<Rightarrow> sds \<Rightarrow> buffer \<Rightarrow> u64 \<Rightarrow> sds option" where
  "sdscpylen al s t len =
     do {
       s \<leftarrow> (if sdsalloc s < len then sdsMakeRoomFor al s (len - sdslen s) else Some s);
       bs \<leftarrow> rdn t 0 (unat len);
       mem \<leftarrow> wrn (s_mem s) 0 bs;
       mem \<leftarrow> wr mem (unat len) 0;
       Some (sdssetlen (s\<lparr>s_mem := mem\<rparr>) len)
     }"

section \<open>Contents and invariant\<close>

definition stype :: "sds \<Rightarrow> byte" where
  "stype s = s_flags s AND SDS_TYPE_MASK"

definition tmax :: "byte \<Rightarrow> nat" where
  "tmax t = unat (sdsTypeMaxSize t)"

definition slen :: "sds \<Rightarrow> nat" where
  "slen s = unat (sdslen s)"

definition salloc :: "sds \<Rightarrow> nat" where
  "salloc s = unat (sdsalloc s)"

definition content :: "sds \<Rightarrow> buffer" where
  "content s = take (slen s) (s_mem s)"

text \<open>
  The invariant: a valid type, a length within the allocation, an allocation the type can
  express and that leaves a byte for the terminator, and the terminator itself.
\<close>

definition sds_inv :: "sds \<Rightarrow> bool" where
  "sds_inv s \<longleftrightarrow> stype s \<le> SDS_TYPE_64 \<and> slen s \<le> salloc s \<and> salloc s \<le> tmax (stype s) \<and>
     salloc s < length (s_mem s) \<and> s_mem s ! slen s = 0"

lemma type_cases:
  assumes "t \<le> SDS_TYPE_64"
  obtains "t = SDS_TYPE_5" | "t = SDS_TYPE_8" | "t = SDS_TYPE_16" | "t = SDS_TYPE_32" | "t = SDS_TYPE_64"
proof -
  have "unat t \<le> 4" using assms by (simp add: word_le_nat_alt SDS_TYPE_64_def)
  then have "unat t = 0 \<or> unat t = 1 \<or> unat t = 2 \<or> unat t = 3 \<or> unat t = 4" by linarith
  then show thesis
    using that by (elim disjE) (simp_all add: sds_type_defs word_unat_eq_iff)
qed

lemma tmax_simps [simp]:
  "tmax SDS_TYPE_5 = 31" "tmax SDS_TYPE_8 = 255" "tmax SDS_TYPE_16 = 65535" "tmax SDS_TYPE_32 = 4294967295"
  "tmax SDS_TYPE_64 = 18446744073709551615"
  by (simp_all add: tmax_def sdsTypeMaxSize_def sds_type_defs push_bit_eq_mult unsigned_minus_1_eq_mask
      mask_eq_exp_minus_1)

lemma take_bit_self_u64: "unat (v :: u64) < 2 ^ n \<Longrightarrow> take_bit n v = v"
  by (simp add: word_unat_eq_iff unsigned_take_bit_eq take_bit_nat_eq_self)

lemma hdr_field_id: "t \<le> SDS_TYPE_64 \<Longrightarrow> t \<noteq> SDS_TYPE_5 \<Longrightarrow> unat v \<le> tmax t \<Longrightarrow> hdr_field t v = v"
  by (erule type_cases) (auto simp: hdr_field_def sds_type_defs take_bit_self_u64
      tmax_def sdsTypeMaxSize_def push_bit_eq_mult)

lemma type_5_flags:
  assumes "unat n \<le> 31"
  defines "f \<equiv> SDS_TYPE_5 OR ucast (push_bit SDS_TYPE_BITS (n :: u64))"
  shows "f AND SDS_TYPE_MASK = SDS_TYPE_5" "SDS_TYPE_5_LEN f = n"
proof -
  have M: "SDS_TYPE_MASK = mask 3" by (simp add: SDS_TYPE_MASK_def mask_eq_exp_minus_1)
  show "f AND SDS_TYPE_MASK = SDS_TYPE_5"
    unfolding f_def M SDS_TYPE_5_def SDS_TYPE_BITS_def
    by (intro bit_word_eqI) (auto simp: bit_and_iff bit_mask_iff bit_ucast_iff bit_push_bit_iff)
  have high: "\<not> bit n k" if "5 \<le> k" for k using that assms by (intro bit_small [of n 5]) auto
  show "SDS_TYPE_5_LEN f = n"
    unfolding f_def SDS_TYPE_5_LEN_def sds_type_defs(1,7)
  proof (rule bit_word_eqI)
    fix k assume "k < LENGTH(64)"
    show "bit (ucast (drop_bit 3 (0 OR ucast (push_bit 3 n) :: byte)) :: u64) k = bit n k"
      using high [of k] by (cases "k < 5") (auto simp: bit_ucast_iff bit_drop_bit_eq bit_push_bit_iff)
  qed
qed

lemma type_neq [simp]:
  "SDS_TYPE_8 \<noteq> SDS_TYPE_5" "SDS_TYPE_16 \<noteq> SDS_TYPE_5" "SDS_TYPE_32 \<noteq> SDS_TYPE_5" "SDS_TYPE_64 \<noteq> SDS_TYPE_5"
  "SDS_TYPE_16 \<noteq> SDS_TYPE_8" "SDS_TYPE_32 \<noteq> SDS_TYPE_8" "SDS_TYPE_64 \<noteq> SDS_TYPE_8" "SDS_TYPE_32 \<noteq> SDS_TYPE_16"
  "SDS_TYPE_64 \<noteq> SDS_TYPE_16" "SDS_TYPE_64 \<noteq> SDS_TYPE_32"
  by (simp_all add: sds_type_defs)

lemma type_disj: "t \<le> SDS_TYPE_64 \<Longrightarrow> t \<noteq> SDS_TYPE_5 \<Longrightarrow>
    t = SDS_TYPE_8 \<or> t = SDS_TYPE_16 \<or> t = SDS_TYPE_32 \<or> t = SDS_TYPE_64"
  by (erule type_cases) auto

text \<open>What a setter leaves to the getters.\<close>

lemma setlen_get:
  assumes "stype s \<le> SDS_TYPE_64" and "unat n \<le> tmax (stype s)"
  shows "stype (sdssetlen s n) = stype s" "sdslen (sdssetlen s n) = n" "s_mem (sdssetlen s n) = s_mem s"
    "sdsalloc (sdssetlen s n) = (if stype s = SDS_TYPE_5 then n else sdsalloc s)"
proof -
  show "s_mem (sdssetlen s n) = s_mem s" by (simp add: sdssetlen_def Let_def)
  have "stype (sdssetlen s n) = stype s \<and> sdslen (sdssetlen s n) = n \<and>
      sdsalloc (sdssetlen s n) = (if stype s = SDS_TYPE_5 then n else sdsalloc s)"
  proof (cases "stype s = SDS_TYPE_5")
    case True
    then have "unat n \<le> 31" using assms(2) by simp
    note f = type_5_flags [OF this]
    from True f show ?thesis
      by (simp add: sdssetlen_def stype_def sdslen_def sdsalloc_def Let_def)
  next
    case False
    note d = type_disj [OF assms(1) False]
    have "hdr_field (stype s) n = n" by (rule hdr_field_id [OF assms(1) False assms(2)])
    with False d show ?thesis
      by (simp add: sdssetlen_def stype_def sdslen_def sdsalloc_def Let_def)
  qed
  then show "stype (sdssetlen s n) = stype s" "sdslen (sdssetlen s n) = n"
      "sdsalloc (sdssetlen s n) = (if stype s = SDS_TYPE_5 then n else sdsalloc s)"
    by simp_all
qed

lemma setalloc_get:
  assumes "stype s \<le> SDS_TYPE_64" and "unat n \<le> tmax (stype s)"
  shows "stype (sdssetalloc s n) = stype s" "sdslen (sdssetalloc s n) = sdslen s" "s_mem (sdssetalloc s n) = s_mem s"
    "sdsalloc (sdssetalloc s n) = (if stype s = SDS_TYPE_5 then sdsalloc s else n)"
proof -
  have h: "stype s \<noteq> SDS_TYPE_5 \<Longrightarrow> hdr_field (stype s) n = n"
    by (rule hdr_field_id [OF assms(1) _ assms(2)])
  note d = type_disj [OF assms(1)]
  show "stype (sdssetalloc s n) = stype s" "sdslen (sdssetalloc s n) = sdslen s" "s_mem (sdssetalloc s n) = s_mem s"
    "sdsalloc (sdssetalloc s n) = (if stype s = SDS_TYPE_5 then sdsalloc s else n)"
    using h d by (auto simp: sdssetalloc_def stype_def sdslen_def sdsalloc_def Let_def)
qed

lemma mem_get [simp]:
  "stype (s\<lparr>s_mem := m\<rparr>) = stype s" "sdslen (s\<lparr>s_mem := m\<rparr>) = sdslen s" "sdsalloc (s\<lparr>s_mem := m\<rparr>) = sdsalloc s"
  by (simp_all add: stype_def sdslen_def sdsalloc_def Let_def)

lemma unat_sdsavail:
  assumes "sds_inv s"
  shows "unat (sdsavail s) = salloc s - slen s"
proof (cases "stype s = SDS_TYPE_5")
  case True
  then show ?thesis by (simp add: sdsavail_def salloc_def slen_def sdsalloc_def sdslen_def stype_def Let_def)
next
  case False
  have ok: "stype s \<le> SDS_TYPE_64" "slen s \<le> salloc s" "salloc s \<le> tmax (stype s)"
    using assms by (auto simp: sds_inv_def)
  note d = type_disj [OF ok(1) False]
  have fields: "slen s = unat (s_len s)" "salloc s = unat (s_alloc s)"
    using False d by (auto simp: slen_def salloc_def sdslen_def sdsalloc_def stype_def Let_def)
  then have sub: "unat (s_alloc s - s_len s) = salloc s - slen s"
    using ok(2) by (simp add: unat_sub word_le_nat_alt)
  moreover have "take_bit 32 (s_alloc s - s_len s) = s_alloc s - s_len s" if "stype s = SDS_TYPE_32"
    using that ok(3) sub by (intro take_bit_self_u64) simp
  ultimately show ?thesis
    using False d by (auto simp: sdsavail_def stype_def Let_def)
qed

lemma HdrSize_bounds:
  assumes "t \<le> SDS_TYPE_64"
  shows "1 \<le> unat (sdsHdrSize t)" "unat (sdsHdrSize t) \<le> 17"
  using assms by (erule_tac [!] type_cases) (simp_all add: sdsHdrSize_def sds_type_defs)

lemma type_mask: "t \<le> SDS_TYPE_64 \<Longrightarrow> t AND SDS_TYPE_MASK = t"
  by (erule type_cases) (simp_all add: sds_type_defs)

lemma ReqType_ok: "sdsReqType n \<le> SDS_TYPE_64" "unat n \<le> tmax (sdsReqType n)"
proof -
  show "sdsReqType n \<le> SDS_TYPE_64" by (simp add: sdsReqType_def sds_type_defs)
  have "unat n < 2 ^ 64" using unsigned_less [of n] by simp
  then show "unat n \<le> tmax (sdsReqType n)"
    by (simp add: sdsReqType_def push_bit_eq_mult word_less_nat_alt)
qed

definition alloc_ok :: "sds_allocator \<Rightarrow> bool" where
  "alloc_ok al \<longleftrightarrow> (\<forall>n. n \<le> al_usable al n)"

lemma unat_hdr_size:
  assumes "t \<le> SDS_TYPE_64" and "unat n + 18 < 2 ^ 64"
  shows "unat (sdsHdrSize t + n + 1) = unat (sdsHdrSize t) + unat n + 1"
  using HdrSize_bounds(2) [OF assms(1)] assms(2) by (simp add: unat_word_ariths)

lemma usable_ok:
  assumes al: "alloc_ok al" and t: "t \<le> SDS_TYPE_64" and n: "unat n + 18 < 2 ^ 64" and fit: "unat n \<le> tmax t"
  defines "u \<equiv> usable_alloc al t (sdsHdrSize t + n + 1) (sdsHdrSize t)"
    and "m \<equiv> unat (al_usable al (sdsHdrSize t + n + 1)) - unat (sdsHdrSize t)"
  shows "unat n \<le> unat u" "unat u \<le> tmax t" "unat u < m"
proof -
  let ?h = "sdsHdrSize t"
  let ?us = "al_usable al (?h + n + 1)"
  have le: "unat ?h + unat n + 1 \<le> unat ?us"
    using al unat_hdr_size [OF t n] unfolding alloc_ok_def by (metis word_le_nat_alt)
  have "unat (?us - ?h) = unat ?us - unat ?h"
    using le by (simp add: unat_sub word_le_nat_alt)
  then have d: "unat (?us - ?h - 1) = unat ?us - unat ?h - 1"
    using le by (subst unat_pred) simp_all
  then have m: "m = Suc (unat (?us - ?h - 1))" using le by (simp add: m_def)
  show "unat n \<le> unat u" "unat u \<le> tmax t" "unat u < m"
    using fit le d m unfolding u_def usable_alloc_def Let_def
    by (auto simp: tmax_def word_less_nat_alt not_less)
qed

lemma sds_invD:
  assumes "sds_inv s"
  shows "stype s \<le> SDS_TYPE_64" "slen s \<le> salloc s" "salloc s \<le> tmax (stype s)" "salloc s < length (s_mem s)"
    "slen s < length (s_mem s)" "s_mem s ! slen s = 0" "slen s \<le> tmax (stype s)"
  using assms by (auto simp: sds_inv_def)

lemma length_content: "sds_inv s \<Longrightarrow> length (content s) = slen s"
  by (simp add: content_def sds_inv_def)

lemma take_realloc: "k \<le> length old \<Longrightarrow> k \<le> n \<Longrightarrow> take k (take n old @ map f [length old..<n]) = take k old"
  by (auto simp: min_def)

lemma length_realloc_block [simp]: "length (realloc_block al old sz h) = unat (al_usable al sz) - unat h"
  by (simp add: realloc_block_def Let_def)

lemma length_new_block [simp]: "length (new_block al sz h) = unat (al_usable al sz) - unat h"
  by (simp add: new_block_def)

lemma grow_request:
  fixes greedy :: bool
  assumes "unat len + unat addlen + 2 ^ 20 + 18 < 2 ^ 64" and "addlen \<noteq> 0"
  defines "req \<equiv> len + addlen"
  defines "nl \<equiv> (if greedy then if req < SDS_MAX_PREALLOC then req * 2 else req + SDS_MAX_PREALLOC else req)"
  shows "len < req" "unat req = unat len + unat addlen" "unat req \<le> unat nl" "unat nl + 18 < 2 ^ 64"
proof -
  show req: "unat req = unat len + unat addlen"
    using assms(1) by (simp add: req_def unat_word_ariths)
  have "unat addlen \<noteq> 0" using assms(2) by (simp add: unat_eq_0)
  then show "len < req" by (simp add: word_less_nat_alt req)
  have p: "unat SDS_MAX_PREALLOC = 2 ^ 20" by (simp add: SDS_MAX_PREALLOC_def)
  consider "\<not> greedy" | "greedy" "req < SDS_MAX_PREALLOC" | "greedy" "\<not> req < SDS_MAX_PREALLOC" by blast
  then show "unat req \<le> unat nl" "unat nl + 18 < 2 ^ 64"
  proof (atomize(full), cases)
    case 2
    then have "unat req < 2 ^ 20" by (simp add: word_less_nat_alt p)
    then have "unat (req * 2) = unat req * 2" by (simp add: unat_word_ariths)
    then show "unat req \<le> unat nl \<and> unat nl + 18 < 2 ^ 64" using 2 \<open>unat req < 2 ^ 20\<close> by (simp add: nl_def)
  next
    case 3
    have "unat (req + SDS_MAX_PREALLOC) = unat req + 2 ^ 20"
      using assms(1) by (simp add: unat_word_ariths p req)
    then show "unat req \<le> unat nl \<and> unat nl + 18 < 2 ^ 64" using 3 assms(1) req by (simp add: nl_def)
  qed (use assms(1) req in \<open>simp add: nl_def\<close>)
qed

lemma MakeRoomFor_ok:
  assumes inv: "sds_inv s" and al: "alloc_ok al" and sz: "slen s + unat addlen + 2 ^ 20 + 18 < 2 ^ 64"
  shows "\<exists>s'. priv_sdsMakeRoomFor al s addlen greedy = Some s' \<and> sds_inv s' \<and> content s' = content s \<and>
    sdslen s' = sdslen s \<and> slen s + unat addlen \<le> salloc s'"
proof (cases "addlen \<le> sdsavail s")
  case True
  then have "unat addlen \<le> salloc s - slen s" using unat_sdsavail [OF inv] by (simp add: word_le_nat_alt)
  then show ?thesis using True inv sds_invD(2) [OF inv] by (auto simp: priv_sdsMakeRoomFor_def Let_def)
next
  case False
  let ?req = "sdslen s + addlen"
  define nl where "nl = (if greedy then if ?req < SDS_MAX_PREALLOC then ?req * 2 else ?req + SDS_MAX_PREALLOC else ?req)"
  define t where "t = (if sdsReqType nl = SDS_TYPE_5 then SDS_TYPE_8 else sdsReqType nl)"
  define u where "u = usable_alloc al t (sdsHdrSize t + nl + 1) (sdsHdrSize t)"
  have "addlen \<noteq> 0" using False by auto
  note req = grow_request(1,2) [OF sz [unfolded slen_def] this]
    grow_request(3,4) [OF sz [unfolded slen_def] this, where greedy = greedy, folded nl_def]
  have t: "t \<le> SDS_TYPE_64" "t \<noteq> SDS_TYPE_5" using ReqType_ok(1) [of nl] by (auto simp: t_def sds_type_defs)
  have fit: "unat nl \<le> tmax t" using ReqType_ok(2) [of nl] by (auto simp: t_def)
  note us = usable_ok [OF al t(1) req(4) fit, folded u_def]
  have ov: "?req < sdsHdrSize t + nl + 1"
    using unat_hdr_size [OF t(1) req(4)] req(3) by (simp add: word_less_nat_alt)
  have len: "slen s + unat addlen \<le> unat u" using req(2,3) us(1) by (simp add: slen_def)
  note i = sds_invD [OF inv]
  have unf: "priv_sdsMakeRoomFor al s addlen greedy =
     do { s \<leftarrow> (if stype s = t then Some (s\<lparr>s_mem := realloc_block al (s_mem s) (sdsHdrSize t + nl + 1) (sdsHdrSize t)\<rparr>)
               else do {
                 bs \<leftarrow> rdn (s_mem s) 0 (unat (sdslen s) + 1);
                 mem \<leftarrow> wrn (new_block al (sdsHdrSize t + nl + 1) (sdsHdrSize t)) 0 bs;
                 Some (sdssetlen (s\<lparr>s_flags := t, s_mem := mem\<rparr>) (sdslen s)) });
          Some (sdssetalloc s u) }"
    unfolding priv_sdsMakeRoomFor_def Let_def nl_def [symmetric] t_def [symmetric] u_def [symmetric] stype_def [symmetric]
    using False req(1) ov by simp
  show ?thesis
  proof (cases "stype s = t")
    case True
    define s1 where "s1 = s\<lparr>s_mem := realloc_block al (s_mem s) (sdsHdrSize t + nl + 1) (sdsHdrSize t)\<rparr>"
    have 1: "stype s1 = t" "sdslen s1 = sdslen s" "length (s_mem s1) = unat (al_usable al (sdsHdrSize t + nl + 1)) - unat (sdsHdrSize t)"
      using True by (simp_all add: s1_def)
    note g = setalloc_get [of s1 u, unfolded 1(1), OF t(1) us(2)]
    have tk: "take (Suc (slen s)) (s_mem s1) = take (Suc (slen s)) (s_mem s)"
      using i(5) len us(3) unfolding s1_def realloc_block_def Let_def by (simp add: take_realloc)
    then have "s_mem s1 ! slen s = 0" using i(6) by (metis lessI nth_take)
    moreover have "take (slen s) (s_mem s1) = take (slen s) (s_mem s)" using tk by (metis lessI less_imp_le_nat min.absorb1 take_take)
    ultimately show ?thesis
      using True unf t g us len 1 i by (auto simp: s1_def [symmetric] sds_inv_def content_def slen_def salloc_def)
  next
    case False
    let ?m = "new_block al (sdsHdrSize t + nl + 1) (sdsHdrSize t)"
    define mem where "mem = take (Suc (slen s)) (s_mem s) @ drop (Suc (slen s)) ?m"
    define s1 where "s1 = s\<lparr>s_flags := t, s_mem := mem\<rparr>"
    have rw: "rdn (s_mem s) 0 (unat (sdslen s) + 1) = Some (take (Suc (slen s)) (s_mem s))"
        "wrn ?m 0 (take (Suc (slen s)) (s_mem s)) = Some mem"
      using i(5) us(3) len by (simp_all add: rdn_def wrn_def slen_def mem_def)
    have 1: "stype s1 = t" using t(1) by (simp add: stype_def s1_def type_mask)
    have lt: "unat (sdslen s) \<le> tmax t" using len us(2) by (simp add: slen_def)
    note g = setlen_get [of s1 "sdslen s", unfolded 1, OF t(1) lt]
    note h = setalloc_get [of "sdssetlen s1 (sdslen s)" u, unfolded g, OF t(1) us(2)]
    have m: "s_mem s1 ! slen s = 0" "take (slen s) (s_mem s1) = take (slen s) (s_mem s)"
        "length (s_mem s1) = unat (al_usable al (sdsHdrSize t + nl + 1)) - unat (sdsHdrSize t)"
      using i(5,6) us(3) len by (simp_all add: s1_def mem_def nth_append)
    from False unf rw show ?thesis
      using t g h us len m by (auto simp: s1_def [symmetric] sds_inv_def content_def slen_def salloc_def)
  qed
qed

lemma setlen_inv:
  assumes "sds_inv s" and "salloc s < length mem" and "unat n \<le> salloc s" and "mem ! unat n = 0"
  shows "sds_inv (sdssetlen (s\<lparr>s_mem := mem\<rparr>) n)" "content (sdssetlen (s\<lparr>s_mem := mem\<rparr>) n) = take (unat n) mem"
    "sdslen (sdssetlen (s\<lparr>s_mem := mem\<rparr>) n) = n"
proof -
  note i = sds_invD [OF assms(1)]
  have fit: "unat n \<le> tmax (stype s)" using assms(3) i(3) by simp
  note g = setlen_get [of "s\<lparr>s_mem := mem\<rparr>" n, unfolded mem_get, OF i(1) fit]
  show "sdslen (sdssetlen (s\<lparr>s_mem := mem\<rparr>) n) = n" by (rule g)
  show "content (sdssetlen (s\<lparr>s_mem := mem\<rparr>) n) = take (unat n) mem" using g by (simp add: content_def slen_def)
  show "sds_inv (sdssetlen (s\<lparr>s_mem := mem\<rparr>) n)"
    using g i fit assms(2-4) by (auto simp: sds_inv_def slen_def salloc_def)
qed

lemma sdscatlen_ok:
  assumes inv: "sds_inv s" and al: "alloc_ok al" and sz: "slen s + unat len + 2 ^ 20 + 18 < 2 ^ 64" and t: "unat len \<le> length t"
  shows "\<exists>s'. sdscatlen al s t len = Some s' \<and> sds_inv s' \<and> content s' = content s @ take (unat len) t"
proof -
  obtain s1 where s1: "sdsMakeRoomFor al s len = Some s1" "sds_inv s1" "content s1 = content s" "sdslen s1 = sdslen s"
      "slen s + unat len \<le> salloc s1"
    using MakeRoomFor_ok [OF inv al sz] unfolding sdsMakeRoomFor_def by blast
  note i = sds_invD [OF s1(2)]
  have sl: "slen s1 = slen s" by (simp add: slen_def s1(4))
  have un: "unat (sdslen s + len) = slen s + unat len" using sz by (simp add: slen_def unat_word_ariths)
  let ?bs = "take (unat len) t"
  define mem where "mem = take (slen s) (s_mem s1) @ ?bs @ drop (slen s + unat len) (s_mem s1)"
  have lm: "length mem = length (s_mem s1)" using i(4) s1(5) t by (simp add: mem_def)
  have w: "wrn (s_mem s1) (slen s) ?bs = Some mem" using i(4) s1(5) t by (simp add: wrn_def mem_def min_def)
  define mem2 where "mem2 = mem[slen s + unat len := 0]"
  let ?s2 = "sdssetlen (s1\<lparr>s_mem := mem2\<rparr>) (sdslen s + len)"
  have eq: "(sdssetlen (s1\<lparr>s_mem := mem\<rparr>) (sdslen s + len))\<lparr>s_mem := mem2\<rparr> = ?s2"
    by (simp add: sdssetlen_def Let_def)
  have sm: "s_mem (sdssetlen (s1\<lparr>s_mem := mem\<rparr>) (sdslen s + len)) = mem" by (simp add: sdssetlen_def Let_def)
  have lt: "slen s + unat len < length mem" using lm i(4) s1(5) by simp
  have "sdscatlen al s t len = Some ?s2"
    using s1(1,4) w t lt unfolding sdscatlen_def Let_def
    by (simp add: rdn_def slen_def [symmetric] sm un wr_def mem2_def [symmetric] eq)
  moreover have "sds_inv ?s2" "content ?s2 = take (slen s + unat len) mem2"
    using setlen_inv [OF s1(2), of mem2 "sdslen s + len"] lm lt i(4) s1(5) un by (simp_all add: mem2_def)
  moreover have "take (slen s + unat len) mem2 = content s @ ?bs"
  proof -
    have "take (slen s) (s_mem s1) = content s" using s1(3) sl by (simp add: content_def)
    moreover have "length (take (slen s) (s_mem s1)) = slen s" using i(5) sl by simp
    ultimately show ?thesis using t by (simp add: mem2_def mem_def)
  qed
  ultimately show ?thesis by simp
qed

lemma sdscpylen_ok:
  assumes inv: "sds_inv s" and al: "alloc_ok al" and sz: "slen s + unat len + 2 ^ 20 + 18 < 2 ^ 64" and t: "unat len \<le> length t"
  shows "\<exists>s'. sdscpylen al s t len = Some s' \<and> sds_inv s' \<and> content s' = take (unat len) t"
proof -
  have "\<exists>s1. (if sdsalloc s < len then sdsMakeRoomFor al s (len - sdslen s) else Some s) = Some s1 \<and> sds_inv s1 \<and> unat len \<le> salloc s1"
  proof (cases "sdsalloc s < len")
    case True
    then have "unat (sdsalloc s) < unat len" by (simp add: word_less_nat_alt)
    then have "slen s < unat len" using sds_invD(2) [OF inv] by (simp add: salloc_def)
    then have d: "slen s + unat (len - sdslen s) = unat len" by (simp add: slen_def unat_sub word_le_nat_alt)
    then have "slen s + unat (len - sdslen s) + 2 ^ 20 + 18 < 2 ^ 64" using sz by simp
    from MakeRoomFor_ok [OF inv al this, where greedy = True] True d show ?thesis unfolding sdsMakeRoomFor_def by auto
  qed (use inv in \<open>auto simp: salloc_def word_less_nat_alt\<close>)
  then obtain s1 where s1: "(if sdsalloc s < len then sdsMakeRoomFor al s (len - sdslen s) else Some s) = Some s1"
      "sds_inv s1" "unat len \<le> salloc s1" by blast
  note i = sds_invD [OF s1(2)]
  define mem where "mem = (take (unat len) t @ drop (unat len) (s_mem s1))[unat len := 0]"
  have "wrn (s_mem s1) 0 (take (unat len) t) = Some (take (unat len) t @ drop (unat len) (s_mem s1))"
    using i(4) s1(3) t by (simp add: wrn_def min_def)
  moreover have l: "length mem = length (s_mem s1)" using i(4) s1(3) t by (simp add: mem_def)
  moreover have lt: "unat len < length (s_mem s1)" using i(4) s1(3) by simp
  ultimately have "sdscpylen al s t len = Some (sdssetlen (s1\<lparr>s_mem := mem\<rparr>) len)"
    using s1(1) t unfolding sdscpylen_def by (simp add: rdn_def wr_def mem_def)
  moreover have "sds_inv (sdssetlen (s1\<lparr>s_mem := mem\<rparr>) len)" "content (sdssetlen (s1\<lparr>s_mem := mem\<rparr>) len) = take (unat len) mem"
    using setlen_inv [OF s1(2), of mem len] l lt i(4) s1(3) t by (simp_all add: mem_def)
  moreover have "take (unat len) mem = take (unat len) t" using t by (simp add: mem_def)
  ultimately show ?thesis by simp
qed

lemma sdsgrowzero_ok:
  assumes inv: "sds_inv s" and al: "alloc_ok al" and sz: "unat len + 2 ^ 20 + 18 < 2 ^ 64"
  shows "\<exists>s'. sdsgrowzero al s len = Some s' \<and> sds_inv s' \<and> content s' = content s @ replicate (unat len - slen s) 0"
proof (cases "len \<le> sdslen s")
  case True
  then show ?thesis using inv by (simp add: sdsgrowzero_def Let_def slen_def word_le_nat_alt)
next
  case False
  then have lt: "slen s < unat len" by (simp add: slen_def word_le_nat_alt)
  then have d: "slen s + unat (len - sdslen s) = unat len" by (simp add: slen_def unat_sub word_le_nat_alt)
  then have "slen s + unat (len - sdslen s) + 2 ^ 20 + 18 < 2 ^ 64" using sz by simp
  then obtain s1 where s1: "sdsMakeRoomFor al s (len - sdslen s) = Some s1" "sds_inv s1" "content s1 = content s"
      "sdslen s1 = sdslen s" "slen s + unat (len - sdslen s) \<le> salloc s1"
    using MakeRoomFor_ok [OF inv al] unfolding sdsMakeRoomFor_def by blast
  note i = sds_invD [OF s1(2)]
  have n: "unat (len - sdslen s + 1) = unat len - slen s + 1" using d sz by (simp add: unat_word_ariths)
  let ?zs = "replicate (unat len - slen s + 1) (0 :: byte)"
  define mem where "mem = take (slen s) (s_mem s1) @ ?zs @ drop (slen s + (unat len - slen s + 1)) (s_mem s1)"
  have "wrn (s_mem s1) (slen s) ?zs = Some mem" using i(4) s1(5) d lt by (simp add: wrn_def mem_def)
  then have "sdsgrowzero al s len = Some (sdssetlen (s1\<lparr>s_mem := mem\<rparr>) len)"
    using False s1(1) unfolding sdsgrowzero_def Let_def by (simp add: n [simplified] slen_def)
  moreover have "length mem = length (s_mem s1)" using i(4) s1(5) d lt by (simp add: mem_def)
  moreover have "mem ! unat len = 0" using i(5) lt s1(4) by (auto simp: mem_def nth_append slen_def simp del: replicate.simps)
  moreover have "take (unat len) mem = content s @ replicate (unat len - slen s) 0"
  proof -
    have "take (slen s) (s_mem s1) = content s" using s1(3,4) by (simp add: content_def slen_def)
    moreover have "length (take (slen s) (s_mem s1)) = slen s" using i(5) s1(4) by (simp add: slen_def)
    ultimately show ?thesis using lt by (simp add: mem_def min_def del: replicate.simps)
  qed
  ultimately show ?thesis
    using setlen_inv [OF s1(2), of mem len] i(4) s1(5) d by simp
qed

lemma sdsclear_ok: "sds_inv s \<Longrightarrow> \<exists>s'. sdsclear s = Some s' \<and> sds_inv s' \<and> content s' = []"
proof -
  assume inv: "sds_inv s"
  note i = sds_invD [OF inv]
  have m: "s_mem (sdssetlen s 0) = s_mem s" by (simp add: sdssetlen_def Let_def)
  have eq: "(sdssetlen s 0)\<lparr>s_mem := mem\<rparr> = sdssetlen (s\<lparr>s_mem := mem\<rparr>) 0" for mem
    by (simp add: sdssetlen_def Let_def)
  have "sdsclear s = Some (sdssetlen (s\<lparr>s_mem := (s_mem s)[0 := 0]\<rparr>) 0)"
    using i(4) by (auto simp: sdsclear_def m wr_def eq)
  moreover have "(s_mem s)[0 := 0] ! 0 = 0" using i(4) by (cases "s_mem s") auto
  ultimately show ?thesis using setlen_inv [OF inv, of "(s_mem s)[0 := 0]" 0] i(4) by auto
qed

lemma sdsnewlen_ok:
  assumes al: "alloc_ok al" and sz: "unat n + 18 < 2 ^ 64" and p: "unat n \<le> length p"
  shows "\<exists>s. sdsnewlen al (Init_bytes p) n = Some s \<and> sds_inv s \<and> content s = take (unat n) p"
proof -
  define t where "t = (if sdsReqType n = SDS_TYPE_5 \<and> n = 0 then SDS_TYPE_8 else sdsReqType n)"
  have t: "t \<le> SDS_TYPE_64" using ReqType_ok(1) [of n] by (auto simp: t_def sds_type_defs)
  have fit: "unat n \<le> tmax t" using ReqType_ok(2) [of n] by (auto simp: t_def)
  define u where "u = usable_alloc al t (sdsHdrSize t + n + 1) (sdsHdrSize t)"
  note us = usable_ok [OF al t sz fit, folded u_def]
  let ?m = "new_block al (sdsHdrSize t + n + 1) (sdsHdrSize t)"
  have ov: "n < n + sdsHdrSize t + 1"
    using unat_hdr_size [OF t sz] by (simp add: word_less_nat_alt add.commute [of n])
  define mem where "mem = take (unat n) p @ drop (unat n) ?m"
  define s where "s = (if t = SDS_TYPE_5 then
      \<lparr>s_flags = t OR ucast (push_bit SDS_TYPE_BITS n), s_len = 0, s_alloc = 0, s_mem = mem[unat n := 0]\<rparr>
    else \<lparr>s_flags = t, s_len = hdr_field t n, s_alloc = hdr_field t u, s_mem = mem[unat n := 0]\<rparr>)"
  have len: "length mem = length ?m" using us p by (simp add: mem_def)
  have wr1: "wrn ?m 0 (take (unat n) p) = Some mem" using us p by (simp add: wrn_def mem_def min_def)
  have m0: "n = 0 \<Longrightarrow> mem = ?m" by (simp add: mem_def)
  have wr2: "wr mem (unat n) 0 = Some (mem[unat n := 0])" using us by (simp add: wr_def len)
  have eq: "sdsnewlen al (Init_bytes p) n = Some s"
    unfolding sdsnewlen_def priv_sdsnewlen_def Let_def t_def [symmetric] u_def [symmetric]
    using ov wr1 wr2 m0 p by (cases "n = 0") (simp_all add: rdn_def s_def)
  have "stype s = t \<and> sdslen s = n \<and> s_mem s = mem[unat n := 0] \<and> sdsalloc s = (if t = SDS_TYPE_5 then n else u)"
  proof (cases "t = SDS_TYPE_5")
    case True
    then have "unat n \<le> 31" using fit by simp
    note f = type_5_flags [OF this]
    show ?thesis using True f by (simp add: s_def stype_def sdslen_def sdsalloc_def Let_def)
  next
    case False
    note d = type_disj [OF t False]
    have "hdr_field t n = n" "hdr_field t u = u" by (rule hdr_field_id [OF t False]; use fit us in simp)+
    then show ?thesis
      using False d type_mask [OF t] by (auto simp: s_def stype_def sdslen_def sdsalloc_def Let_def)
  qed
  then have g: "stype s = t" "sdslen s = n" "s_mem s = mem[unat n := 0]" "sdsalloc s = (if t = SDS_TYPE_5 then n else u)"
    by simp_all
  have "sds_inv s" using g us t fit len by (auto simp: sds_inv_def slen_def salloc_def)
  moreover have "content s = take (unat n) p" using g(2,3) p by (simp add: content_def slen_def mem_def)
  ultimately show ?thesis using eq by blast
qed

lemma sdsdup_ok:
  assumes "alloc_ok al" and "sds_inv s" and "slen s + 18 < 2 ^ 64"
  shows "\<exists>s'. sdsdup al s = Some s' \<and> sds_inv s' \<and> content s' = content s"
  using sdsnewlen_ok [OF assms(1), of "sdslen s" "s_mem s"] assms(2,3) sds_invD(5) [OF assms(2)]
  by (auto simp: sdsdup_def content_def slen_def)

lemma tmax_mono: "a \<le> b \<Longrightarrow> b \<le> SDS_TYPE_64 \<Longrightarrow> tmax a \<le> tmax b"
proof -
  assume a: "a \<le> b" "b \<le> SDS_TYPE_64"
  then have "a \<le> SDS_TYPE_64" by (rule order_trans)
  with a show ?thesis
    by (elim type_cases) (simp_all, simp_all add: sds_type_defs word_le_nat_alt)
qed

lemma sdsResize_ok:
  assumes inv: "sds_inv s" and al: "alloc_ok al" and sz: "unat n + 18 < 2 ^ 64"
  shows "\<exists>s'. sdsResize al s n would_regrow = Some s' \<and> sds_inv s' \<and> content s' = take (unat n) (content s)"
proof (cases "sdsalloc s = n")
  case True
  then show ?thesis using inv sds_invD(2) [OF inv] length_content [OF inv]
    by (simp add: sdsResize_def Let_def salloc_def)
next
  case False
  define len where "len = (if n < sdslen s then n else sdslen s)"
  define t where "t = (if would_regrow \<and> sdsReqType n = SDS_TYPE_5 then SDS_TYPE_8 else sdsReqType n)"
  note i = sds_invD [OF inv]
  have ln: "unat len = min (unat n) (slen s)" by (simp add: len_def slen_def word_less_nat_alt min_def)
  have t: "t \<le> SDS_TYPE_64" using ReqType_ok(1) [of n] by (auto simp: t_def sds_type_defs)
  have fit: "unat n \<le> tmax t" using ReqType_ok(2) [of n] by (auto simp: t_def)
  have mt: "stype s AND SDS_TYPE_MASK = stype s" by (rule type_mask [OF i(1)])
  have fin: ?thesis if s1: "sdsResize al s n would_regrow = do { mem \<leftarrow> wr (s_mem s1) (unat len) 0;
        Some (sdssetalloc (sdssetlen (s1\<lparr>s_mem := mem\<rparr>) len) n) }"
      "stype s1 \<le> SDS_TYPE_64" "unat n \<le> tmax (stype s1)" "unat n < length (s_mem s1)"
      "take (unat len) (s_mem s1) = take (unat len) (s_mem s)" for s1
  proof -
    let ?mem = "(s_mem s1)[unat len := 0]"
    have lt: "unat len < length (s_mem s1)" and lf: "unat len \<le> tmax (stype s1)" using s1(3,4) ln by simp_all
    note g = setlen_get [of "s1\<lparr>s_mem := ?mem\<rparr>" len, unfolded mem_get, OF s1(2) lf]
    note h = setalloc_get [of "sdssetlen (s1\<lparr>s_mem := ?mem\<rparr>) len" n, unfolded g, OF s1(2,3)]
    have "sds_inv (sdssetalloc (sdssetlen (s1\<lparr>s_mem := ?mem\<rparr>) len) n)"
      using h lt lf s1 ln by (auto simp: sds_inv_def slen_def salloc_def)
    moreover have "content (sdssetalloc (sdssetlen (s1\<lparr>s_mem := ?mem\<rparr>) len) n) = take (unat n) (content s)"
      using h s1(5) ln by (simp add: content_def slen_def min.commute)
    ultimately show ?thesis using s1(1) lt by (simp add: wr_def)
  qed
  have usz: "unat h + unat n + 1 \<le> unat (al_usable al (h + n + 1))" if "h = sdsHdrSize x" "x \<le> SDS_TYPE_64" for h x
    using al unat_hdr_size [OF that(2) sz] that(1) unfolding alloc_ok_def by (metis word_le_nat_alt)
  define ra where "ra \<longleftrightarrow> stype s = t \<or> t < stype s \<and> SDS_TYPE_8 < t"
  have unf: "sdsResize al s n would_regrow = do {
       s \<leftarrow> (if ra then
              if al_jemalloc al \<and> unat (al_usable al (if ra then sdsHdrSize (stype s) + n + 1 else sdsHdrSize t + n + 1)) =
                unat (sdsHdrSize (stype s)) + length (s_mem s) then Some s
              else Some (s\<lparr>s_mem := realloc_block al (s_mem s) (if ra then sdsHdrSize (stype s) + n + 1 else sdsHdrSize t + n + 1) (sdsHdrSize (stype s))\<rparr>)
            else do {
              bs \<leftarrow> rdn (s_mem s) 0 (unat len);
              mem \<leftarrow> wrn (new_block al (if ra then sdsHdrSize (stype s) + n + 1 else sdsHdrSize t + n + 1) (sdsHdrSize t)) 0 bs;
              Some (s\<lparr>s_flags := t, s_mem := mem\<rparr>)
            });
       mem \<leftarrow> wr (s_mem s) (unat len) 0;
       Some (sdssetalloc (sdssetlen (s\<lparr>s_mem := mem\<rparr>) len) n)
     }"
    unfolding sdsResize_def Let_def t_def [symmetric] len_def [symmetric] stype_def [symmetric] ra_def [symmetric]
    using False by simp
  have big: "unat n \<le> tmax (stype s)" if ra
    using that fit tmax_mono [of t "stype s"] i(1) unfolding ra_def by (auto dest: less_imp_le)
  consider (keep) "ra" "al_jemalloc al" "unat (al_usable al (sdsHdrSize (stype s) + n + 1)) = unat (sdsHdrSize (stype s)) + length (s_mem s)"
    | (grow) "ra" "\<not> (al_jemalloc al \<and> unat (al_usable al (sdsHdrSize (stype s) + n + 1)) = unat (sdsHdrSize (stype s)) + length (s_mem s))"
    | (move) "\<not> ra" by blast
  then show ?thesis
  proof cases
    case keep
    then show ?thesis using usz [OF refl i(1)] big i(1) by (intro fin [of s]) (simp_all add: unf)
  next
    case grow
    let ?s = "s\<lparr>s_mem := realloc_block al (s_mem s) (sdsHdrSize (stype s) + n + 1) (sdsHdrSize (stype s))\<rparr>"
    have l: "unat n < unat (al_usable al (sdsHdrSize (stype s) + n + 1)) - unat (sdsHdrSize (stype s))"
      using usz [OF refl i(1)] by simp
    show ?thesis
    proof (rule fin [of ?s])
      show "take (unat len) (s_mem ?s) = take (unat len) (s_mem s)"
      proof -
        have "unat len \<le> length (s_mem s)" using ln i(5) by simp
        moreover have "unat len \<le> unat (al_usable al (sdsHdrSize (stype s) + n + 1)) - unat (sdsHdrSize (stype s))"
          using ln l by simp
        ultimately show ?thesis using take_realloc by (simp add: realloc_block_def Let_def del: take_append)
      qed
    qed (use grow big i(1) l unf in auto)
  next
    case move
    let ?m = "new_block al (sdsHdrSize t + n + 1) (sdsHdrSize t)"
    let ?s = "s\<lparr>s_flags := t, s_mem := take (unat len) (s_mem s) @ drop (unat len) ?m\<rparr>"
    have l: "unat n < length ?m" using usz [OF refl t] by simp
    have "rdn (s_mem s) 0 (unat len) = Some (take (unat len) (s_mem s))" "length (take (unat len) (s_mem s)) = unat len"
      using ln i(5) by (simp_all add: rdn_def)
    moreover have "wrn ?m 0 (take (unat len) (s_mem s)) = Some (take (unat len) (s_mem s) @ drop (unat len) ?m)"
      using calculation(2) l ln by (simp add: wrn_def)
    ultimately have e: "sdsResize al s n would_regrow = do { mem \<leftarrow> wr (s_mem ?s) (unat len) 0;
        Some (sdssetalloc (sdssetlen (?s\<lparr>s_mem := mem\<rparr>) len) n) }"
      using move by (simp add: unf)
    show ?thesis
      by (rule fin [OF e]) (use t fit l ln i(5) in \<open>simp_all add: stype_def type_mask\<close>)
  qed
qed

end
