(* ===== verification/Redis_Sds_Text.thy ===== *)
theory Redis_Sds_Text
  imports Redis_Sds
begin

unbundle bit_operations_syntax

text \<open>
  The text functions of \<open>sds.c\<close>: integers to strings, trimming, ranges, comparison, splitting at a
  separator, the quoted representation and its parser. The lemmas relate each to a function on the
  contents: \<open>dec_int\<close>, \<open>trim\<close>, \<open>index_range\<close>, the lexicographic order, \<open>joined\<close>. The quoting
  functions only append to strings they own, which are represented by their contents.
\<close>

section \<open>Conversions and text functions\<close>

subsection \<open>Integers to strings\<close>

definition SDS_LLSTR_SIZE :: nat where "SDS_LLSTR_SIZE = 21"

function ll_digits :: "buffer \<Rightarrow> nat \<Rightarrow> u64 \<Rightarrow> (buffer \<times> nat) option" where
  "ll_digits s p v =
     do {
       s \<leftarrow> wr s p (ch (CHR ''0'') + ucast (v mod 10));
       if v div 10 \<noteq> 0 then ll_digits s (p + 1) (v div 10) else Some (s, p + 1)
     }"
  by pat_completeness auto
termination
  by (relation "measure (\<lambda>(_, _, v). unat v)") (auto simp: unat_div word_less_nat_alt intro!: div_less_dividend unat_gt_0 [THEN iffD2])

function swap_loop :: "buffer \<Rightarrow> nat \<Rightarrow> nat \<Rightarrow> buffer option" where
  "swap_loop s i j =
     (if i < j then
        do {
          aux \<leftarrow> rd s i;
          y \<leftarrow> rd s j;
          s \<leftarrow> wr s i y;
          s \<leftarrow> wr s j aux;
          swap_loop s (i + 1) (j - 1)
        }
      else Some s)"
  by pat_completeness auto
termination by (relation "measure (\<lambda>(_, i, j). j - i)") auto

definition sdsll2str :: "buffer \<Rightarrow> u64 \<Rightarrow> (buffer \<times> nat) option" where
  "sdsll2str s val =
     (let v = (if val <s 0 then if val \<noteq> LLONG_MIN then - val else LLONG_MAX + 1 else val) in
      do {
        (s, p) \<leftarrow> ll_digits s 0 v;
        (s, p) \<leftarrow> (if val <s 0 then do { s \<leftarrow> wr s p (ch (CHR ''-'')); Some (s, p + 1) } else Some (s, p));
        let l = p;
        s \<leftarrow> wr s p 0;
        s \<leftarrow> swap_loop s 0 (p - 1);
        Some (s, l)
      })"

definition sdsull2str :: "buffer \<Rightarrow> u64 \<Rightarrow> (buffer \<times> nat) option" where
  "sdsull2str s v =
     do {
       (s, p) \<leftarrow> ll_digits s 0 v;
       let l = p;
       s \<leftarrow> wr s p 0;
       s \<leftarrow> swap_loop s 0 (p - 1);
       Some (s, l)
     }"

definition sdsfromlonglong :: "sds_allocator \<Rightarrow> buffer \<Rightarrow> u64 \<Rightarrow> sds option" where
  "sdsfromlonglong al buf val =
     do {
       (buf, len) \<leftarrow> sdsll2str buf val;
       sdsnewlen al (Init_bytes buf) (of_nat len)
     }"

subsection \<open>Trimming, ranges, comparison\<close>

text \<open>\<open>strchr\<close> on a terminated string also finds the terminator.\<close>

definition strchr :: "buffer \<Rightarrow> byte \<Rightarrow> bool" where
  "strchr cset c \<longleftrightarrow> c \<in> set cset \<or> c = 0"

function trim_left :: "buffer \<Rightarrow> buffer \<Rightarrow> int \<Rightarrow> int \<Rightarrow> int option" where
  "trim_left mem cset sp en =
     (if sp \<le> en then do { c \<leftarrow> rd mem (nat sp); if strchr cset c then trim_left mem cset (sp + 1) en else Some sp }
      else Some sp)"
  by pat_completeness auto
termination by (relation "measure (\<lambda>(_, _, sp, en). nat (en + 1 - sp))") auto

function trim_right :: "buffer \<Rightarrow> buffer \<Rightarrow> int \<Rightarrow> int \<Rightarrow> int option" where
  "trim_right mem cset sp ep =
     (if sp < ep then do { c \<leftarrow> rd mem (nat ep); if strchr cset c then trim_right mem cset sp (ep - 1) else Some ep }
      else Some ep)"
  by pat_completeness auto
termination by (relation "measure (\<lambda>(_, _, sp, ep). nat (ep - sp))") auto

definition sdstrim :: "sds \<Rightarrow> buffer \<Rightarrow> sds option" where
  "sdstrim s cset =
     (let en = int (unat (sdslen s)) - 1 in
      do {
        sp \<leftarrow> trim_left (s_mem s) cset 0 en;
        ep \<leftarrow> trim_right (s_mem s) cset sp en;
        let len = nat (ep - sp + 1);
        mem \<leftarrow> (if sp \<noteq> 0 then do { bs \<leftarrow> rdn (s_mem s) (nat sp) len; wrn (s_mem s) 0 bs } else Some (s_mem s));
        mem \<leftarrow> wr mem len 0;
        Some (sdssetlen (s\<lparr>s_mem := mem\<rparr>) (of_nat len))
      })"

definition sdssubstr :: "sds \<Rightarrow> u64 \<Rightarrow> u64 \<Rightarrow> sds option" where
  "sdssubstr s start len =
     (let oldlen = sdslen s;
          (start, len) = (if oldlen \<le> start then (0, 0) else (start, len));
          len = (if oldlen - start < len then oldlen - start else len)
      in do {
        mem \<leftarrow> (if len \<noteq> 0 then do { bs \<leftarrow> rdn (s_mem s) (unat start) (unat len); wrn (s_mem s) 0 bs } else Some (s_mem s));
        mem \<leftarrow> wr mem (unat len) 0;
        Some (sdssetlen (s\<lparr>s_mem := mem\<rparr>) len)
      })"

text \<open>The signed arguments are words; \<open>start\<close> and \<open>end\<close> are compared as \<open>ssize_t\<close>.\<close>

definition sdsrange :: "sds \<Rightarrow> u64 \<Rightarrow> u64 \<Rightarrow> sds option" where
  "sdsrange s start en =
     (let len = sdslen s in
      if len = 0 then Some s
      else
        let start = (if start <s 0 then len + start else start);
            en = (if en <s 0 then len + en else en);
            newlen = (if en <s start then 0 else en - start + 1)
        in sdssubstr s start newlen)"

fun memcmp :: "buffer \<Rightarrow> buffer \<Rightarrow> int" where
  "memcmp (a # as) (b # bs) = (if a = b then memcmp as bs else uint a - uint b)"
| "memcmp _ _ = 0"

definition sdscmp :: "sds \<Rightarrow> sds \<Rightarrow> int option" where
  "sdscmp s1 s2 =
     (let l1 = sdslen s1; l2 = sdslen s2; minlen = (if l1 < l2 then l1 else l2) in
      do {
        a \<leftarrow> rdn (s_mem s1) 0 (unat minlen);
        b \<leftarrow> rdn (s_mem s2) 0 (unat minlen);
        let cmp = memcmp a b;
        Some (if cmp = 0 then if l2 < l1 then 1 else if l1 < l2 then -1 else 0 else cmp)
      })"

subsection \<open>Splitting\<close>

text \<open>
  The loop keeps the tokens found and the capacity \<open>slots\<close> of the token array, and fails when a
  token would be stored outside it.
\<close>

definition store_token :: "buffer list \<Rightarrow> nat \<Rightarrow> buffer \<Rightarrow> buffer list option" where
  "store_token tokens slots tok = (if length tokens < slots then Some (tokens @ [tok]) else None)"

function split_loop :: "buffer \<Rightarrow> int \<Rightarrow> buffer \<Rightarrow> int \<Rightarrow> nat \<Rightarrow> nat \<Rightarrow> buffer list \<Rightarrow> nat \<Rightarrow>
    (nat \<times> buffer list \<times> nat) option" where
  "split_loop s len sep seplen start j tokens slots =
     (if int j < len - (seplen - 1) then
        do {
          let slots = (if slots < length tokens + 2 then slots * 2 else slots);
          c \<leftarrow> rd s j;
          c0 \<leftarrow> rd sep 0;
          same \<leftarrow> (if seplen = 1 \<and> c = c0 then Some True
                   else do { w \<leftarrow> rdn s j (nat seplen); sp \<leftarrow> rdn sep 0 (nat seplen); Some (memcmp w sp = 0) });
          if same then do {
            tok \<leftarrow> rdn s start (j - start);
            tokens \<leftarrow> store_token tokens slots tok;
            split_loop s len sep seplen (j + nat seplen) (j + nat (seplen - 1) + 1) tokens slots
          }
          else split_loop s len sep seplen start (j + 1) tokens slots
        }
      else Some (start, tokens, slots))"
  by pat_completeness auto
termination by (relation "measure (\<lambda>(_, len, _, seplen, _, j, _, _). nat (len - (seplen - 1) - int j))") auto

text \<open>\<open>Some []\<close> stands for the returned \<open>NULL\<close> with a count of 0.\<close>

definition sdssplitlen :: "buffer \<Rightarrow> int \<Rightarrow> buffer \<Rightarrow> int \<Rightarrow> buffer list option" where
  "sdssplitlen s len sep seplen =
     (if seplen < 1 \<or> len \<le> 0 then Some []
      else do {
        (start, tokens, slots) \<leftarrow> split_loop s len sep seplen 0 0 [] 5;
        tok \<leftarrow> rdn s start (nat len - start);
        store_token tokens slots tok
      })"

subsection \<open>Quoted representations\<close>

definition isprint :: "byte \<Rightarrow> bool" where
  "isprint c \<longleftrightarrow> 32 \<le> c \<and> c \<le> 126"

definition isspace :: "byte \<Rightarrow> bool" where
  "isspace c \<longleftrightarrow> c = 32 \<or> 9 \<le> c \<and> c \<le> 13"

definition hexdigit :: "byte \<Rightarrow> byte" where
  "hexdigit d = (if d < 10 then ch (CHR ''0'') + d else ch (CHR ''a'') + (d - 10))"

text \<open>The escape sequence \<open>sdscatrepr\<close> appends for a byte.\<close>

definition repr_byte :: "byte \<Rightarrow> buffer" where
  "repr_byte c =
     (if c = 92 \<or> c = 34 then [92, c]
      else if c = 10 then [92, ch (CHR ''n'')]
      else if c = 13 then [92, ch (CHR ''r'')]
      else if c = 9 then [92, ch (CHR ''t'')]
      else if c = 7 then [92, ch (CHR ''a'')]
      else if c = 8 then [92, ch (CHR ''b'')]
      else if isprint c then [c]
      else [92, ch (CHR ''x''), hexdigit (c div 16), hexdigit (c mod 16)])"

definition sdscatrepr :: "buffer \<Rightarrow> buffer \<Rightarrow> buffer" where
  "sdscatrepr s p = s @ [34] @ concat (map repr_byte p) @ [34]"

fun sdsneedsrepr :: "buffer \<Rightarrow> bool" where
  "sdsneedsrepr [] = False"
| "sdsneedsrepr (c # s) =
     (if c = 92 \<or> c = 34 \<or> c = 10 \<or> c = 13 \<or> c = 9 \<or> c = 7 \<or> c = 8 \<or> \<not> isprint c \<or> isspace c then True
      else sdsneedsrepr s)"

definition is_hex_digit :: "byte \<Rightarrow> bool" where
  "is_hex_digit c \<longleftrightarrow> ch (CHR ''0'') \<le> c \<and> c \<le> ch (CHR ''9'') \<or> ch (CHR ''a'') \<le> c \<and> c \<le> ch (CHR ''f'') \<or>
     ch (CHR ''A'') \<le> c \<and> c \<le> ch (CHR ''F'')"

definition hex_digit_to_int :: "byte \<Rightarrow> byte" where
  "hex_digit_to_int c =
     (if ch (CHR ''0'') \<le> c \<and> c \<le> ch (CHR ''9'') then c - ch (CHR ''0'')
      else if c = ch (CHR ''a'') \<or> c = ch (CHR ''A'') then 10
      else if c = ch (CHR ''b'') \<or> c = ch (CHR ''B'') then 11
      else if c = ch (CHR ''c'') \<or> c = ch (CHR ''C'') then 12
      else if c = ch (CHR ''d'') \<or> c = ch (CHR ''D'') then 13
      else if c = ch (CHR ''e'') \<or> c = ch (CHR ''E'') then 14
      else if c = ch (CHR ''f'') \<or> c = ch (CHR ''F'') then 15
      else 0)"

text \<open>The byte \<open>p[i]\<close> of a terminated string; \<open>p\<close> is what is left of the line.\<close>

definition cidx :: "buffer \<Rightarrow> nat \<Rightarrow> byte" where
  "cidx p i = (if i < length p then p ! i else 0)"

definition unescape :: "byte \<Rightarrow> byte" where
  "unescape c =
     (if c = ch (CHR ''n'') then 10
      else if c = ch (CHR ''r'') then 13
      else if c = ch (CHR ''t'') then 9
      else if c = ch (CHR ''b'') then 8
      else if c = ch (CHR ''a'') then 7
      else c)"

text \<open>
  The loop over one token: \<open>inq\<close> and \<open>insq\<close> say whether it is inside double or single quotes,
  \<open>cur\<close> is the token so far. The result is the token and the rest of the line, or \<open>None\<close>
  for \<open>goto err\<close>.
\<close>

function token_loop :: "bool \<Rightarrow> bool \<Rightarrow> buffer \<Rightarrow> buffer \<Rightarrow> (buffer \<times> buffer) option" where
  "token_loop inq insq cur p =
     (let c = cidx p 0 in
      if inq then
        if c = 92 \<and> cidx p 1 = ch (CHR ''x'') \<and> is_hex_digit (cidx p 2) \<and> is_hex_digit (cidx p 3) then
          token_loop inq insq (cur @ [hex_digit_to_int (cidx p 2) * 16 + hex_digit_to_int (cidx p 3)]) (drop 4 p)
        else if c = 92 \<and> cidx p 1 \<noteq> 0 then token_loop inq insq (cur @ [unescape (cidx p 1)]) (drop 2 p)
        else if c = 34 then
          if cidx p 1 \<noteq> 0 \<and> \<not> isspace (cidx p 1) then None else Some (cur, drop 1 p)
        else if c = 0 then None
        else token_loop inq insq (cur @ [c]) (drop 1 p)
      else if insq then
        if c = 92 \<and> cidx p 1 = 39 then token_loop inq insq (cur @ [39]) (drop 2 p)
        else if c = 39 then
          if cidx p 1 \<noteq> 0 \<and> \<not> isspace (cidx p 1) then None else Some (cur, drop 1 p)
        else if c = 0 then None
        else token_loop inq insq (cur @ [c]) (drop 1 p)
      else
        if c = 32 \<or> c = 10 \<or> c = 13 \<or> c = 9 then Some (cur, drop 1 p)
        else if c = 0 then Some (cur, p)
        else if c = 34 then token_loop True insq cur (drop 1 p)
        else if c = 39 then token_loop inq True cur (drop 1 p)
        else token_loop inq insq (cur @ [c]) (drop 1 p))"
  by pat_completeness auto
termination
  by (relation "measure (\<lambda>(_, _, _, p). length p)") (auto simp: cidx_def split: if_splits)

declare token_loop.simps [simp del]

lemma token_loop_shorter:
  "token_loop inq insq cur p = Some (tok, rest) \<Longrightarrow> length rest \<le> length p - (if cidx p 0 = 0 then 0 else 1)"
proof (induction "length p" arbitrary: inq insq cur p rule: less_induct)
  case less
  have ne: "cidx p 0 = 0" if "p = []" using that by (simp add: cidx_def)
  have IH: "length rest \<le> length p - 1" if "token_loop a b c (drop n p) = Some (tok, rest)" "p \<noteq> []" "0 < n" for a b c n
    using less.hyps [OF _ that(1)] that(2,3) by (cases p; cases "cidx (drop n p) 0 = 0") auto
  show ?case
  proof (cases "p = []")
    case True
    then show ?thesis
      using less.prems ne by (subst (asm) token_loop.simps) (auto simp: Let_def cidx_def split: if_splits)
  next
    case False
    then show ?thesis
      using less.prems by (subst (asm) token_loop.simps) (auto simp: Let_def split: if_splits dest: IH)
  qed
qed

function splitargs_loop :: "buffer \<Rightarrow> buffer list \<Rightarrow> buffer list option" where
  "splitargs_loop p vector =
     (let p = dropWhile isspace p in
      if cidx p 0 \<noteq> 0 then
        case token_loop False False [] p of
          None \<Rightarrow> None
        | Some (cur, rest) \<Rightarrow> splitargs_loop rest (vector @ [cur])
      else Some vector)"
  by pat_completeness auto
termination
proof (relation "measure (\<lambda>(p, _). length p)")
  fix p :: buffer and vector :: "buffer list" and q pr and cur rest
  assume q: "q = dropWhile isspace p" and "cidx q 0 \<noteq> 0" and "token_loop False False [] q = Some pr" and "(cur, rest) = pr"
  moreover have "q \<noteq> []" using \<open>cidx q 0 \<noteq> 0\<close> by (cases "q = []") (simp_all add: cidx_def)
  ultimately have "length rest < length q"
    using token_loop_shorter [of False False "[]" q cur rest] by (cases "length q") auto
  then have "length rest < length p"
    using q length_dropWhile_le [of isspace p] by simp
  then show "((rest, vector @ [cur]), (p, vector)) \<in> measure (\<lambda>(p, _). length p)" by simp
qed simp

definition sdssplitargs :: "buffer \<Rightarrow> buffer list option" where
  "sdssplitargs line = splitargs_loop line []"

declare splitargs_loop.simps [simp del]

lemma hex_digits_all:
  "list_all (\<lambda>k. is_hex_digit (hexdigit (of_nat k)) \<and> hex_digit_to_int (hexdigit (of_nat k)) = of_nat k) [0..<16]"
  by code_simp

lemma hex_digits:
  assumes "d < 16"
  shows "is_hex_digit (hexdigit d)" "hex_digit_to_int (hexdigit d) = d"
proof -
  have "unat d \<in> set [0..<16]" using assms by (simp add: word_less_nat_alt)
  then have "is_hex_digit (hexdigit (of_nat (unat d))) \<and> hex_digit_to_int (hexdigit (of_nat (unat d))) = of_nat (unat d)"
    using hex_digits_all unfolding list_all_iff by blast
  then show "is_hex_digit (hexdigit d)" "hex_digit_to_int (hexdigit d) = d" by simp_all
qed

lemma hex_byte: "hex_digit_to_int (hexdigit (c div 16)) * 16 + hex_digit_to_int (hexdigit (c mod 16)) = (c :: byte)"
  "is_hex_digit (hexdigit (c div 16))" "is_hex_digit (hexdigit (c mod 16))"
proof -
  have "unat c < 256" using unsigned_less [of c] by simp
  then have d: "c div 16 < 16" and m: "c mod 16 < 16"
    by (simp_all add: word_less_nat_alt unat_div unat_mod)
  show "is_hex_digit (hexdigit (c div 16))" "is_hex_digit (hexdigit (c mod 16))"
    by (rule hex_digits [OF d] hex_digits [OF m])+
  show "hex_digit_to_int (hexdigit (c div 16)) * 16 + hex_digit_to_int (hexdigit (c mod 16)) = c"
    by (simp add: hex_digits(2) [OF d] hex_digits(2) [OF m] word_mod_div_equality)
qed

lemma token_repr_byte:
  "token_loop True insq cur (repr_byte c @ p) = token_loop True insq (cur @ [c]) p"
proof -
  have x: "token_loop True insq cur (92 # 120 # hexdigit (c div 16) # hexdigit (c mod 16) # p) = token_loop True insq (cur @ [c]) p"
    by (subst token_loop.simps) (simp add: Let_def cidx_def hex_byte)
  have e: "token_loop True insq cur (92 # d # p) = token_loop True insq (cur @ [unescape d]) p" if "d \<noteq> 0" "d \<noteq> 120" for d
    using that by (subst token_loop.simps) (simp add: Let_def cidx_def)
  have pr: "token_loop True insq cur (c # p) = token_loop True insq (cur @ [c]) p" if "c \<noteq> 92" "c \<noteq> 34" "isprint c"
    using that by (subst token_loop.simps) (auto simp: Let_def cidx_def isprint_def)
  show ?thesis
    unfolding repr_byte_def using x pr by (auto simp: e unescape_def)
qed

lemma token_repr:
  "token_loop True insq cur (concat (map repr_byte bs) @ 34 # p) =
     (if cidx p 0 \<noteq> 0 \<and> \<not> isspace (cidx p 0) then None else Some (cur @ bs, p))"
proof (induction bs arbitrary: cur)
  case Nil
  show ?case by (subst token_loop.simps) (simp add: Let_def cidx_def)
next
  case (Cons b bs)
  then show ?case by (simp add: token_repr_byte)
qed

text \<open>A line of quoted arguments separated by blanks.\<close>

definition repr_line :: "buffer list \<Rightarrow> buffer" where
  "repr_line args = concat (map (\<lambda>a. sdscatrepr [] a @ [32]) args)"

lemma splitargs_repr: "splitargs_loop (repr_line args) vector = Some (vector @ args)"
proof (induction args arbitrary: vector)
  case Nil
  show ?case by (subst splitargs_loop.simps) (simp add: repr_line_def cidx_def)
next
  case (Cons a args)
  have "token_loop False False [] (34 # concat (map repr_byte a) @ 34 # 32 # repr_line args) = Some (a, 32 # repr_line args)"
    by (subst token_loop.simps) (simp add: Let_def cidx_def token_repr isspace_def)
  moreover have "splitargs_loop (32 # repr_line args) v = splitargs_loop (repr_line args) v" for v
    by (subst (1 2) splitargs_loop.simps) (simp add: isspace_def)
  ultimately show ?case
    using Cons.IH by (subst splitargs_loop.simps) (simp add: repr_line_def sdscatrepr_def isspace_def cidx_def)
qed

declare ll_digits.simps [simp del] swap_loop.simps [simp del]

lemma digit_word: "ch (CHR ''0'') + ucast ((v :: u64) mod 10) = digit (unat v mod 10)"
proof -
  have "unat (v mod 10) = unat v mod 10" by (simp add: unat_mod)
  moreover have "(ucast (v mod 10) :: byte) = of_nat (unat (v mod 10))" by (simp only: of_nat_unat)
  ultimately show ?thesis by (simp add: digit_def)
qed

lemma ll_digits_ok:
  "p + length (dec (unat v)) \<le> length s \<Longrightarrow>
     ll_digits s p v = Some (take p s @ rev (dec (unat v)) @ drop (p + length (dec (unat v))) s, p + length (dec (unat v)))"
proof (induction s p v rule: ll_digits.induct)
  case (1 s p v)
  let ?s = "s[p := digit (unat v mod 10)]"
  have p: "p < length s" using "1.prems" length_dec_pos [of "unat v"] by linarith
  then have w: "wr s p (ch (CHR ''0'') + ucast (v mod 10)) = Some ?s"
    by (simp add: wr_def digit_word [simplified])
  have t: "take (Suc p) ?s = take p s @ [digit (unat v mod 10)]" using p by (simp add: take_Suc_conv_app_nth)
  have z: "v div 10 = 0 \<longleftrightarrow> unat v < 10" by (simp add: word_unat_eq_iff unat_div div_eq_0_iff)
  show ?case
  proof (cases "unat v < 10")
    case True
    then have "ll_digits s p v = Some (?s, Suc p)" using w z by (subst ll_digits.simps) simp
    moreover have "?s = take p s @ [digit (unat v)] @ drop (Suc p) s" using p True by (simp add: upd_conv_take_nth_drop)
    ultimately show ?thesis using True by (simp add: dec_small)
  next
    case False
    then have d: "dec (unat v) = dec (unat (v div 10)) @ [digit (unat v mod 10)]" by (simp add: dec_large unat_div)
    have "ll_digits s p v = ll_digits ?s (p + 1) (v div 10)" using w z False by (subst ll_digits.simps) simp
    also have "\<dots> = Some (take (p + 1) ?s @ rev (dec (unat (v div 10))) @ drop (p + 1 + length (dec (unat (v div 10)))) ?s,
        p + 1 + length (dec (unat (v div 10))))"
      using "1.prems" w z False d by (intro "1.IH") auto
    finally show ?thesis using t d by simp
  qed
qed

lemma swap_loop_ok:
  "swap_loop (xs @ ms @ zs) (length xs) (length xs + length ms - 1) = Some (xs @ rev ms @ zs)"
proof (induction "length ms" arbitrary: xs ms zs rule: less_induct)
  case less
  show ?case
  proof (cases "length ms \<le> 1")
    case True
    then have "rev ms = ms" by (cases ms) auto
    then show ?thesis using True by (subst swap_loop.simps) auto
  next
    case False
    then obtain a ms' where a: "ms = a # ms'" "ms' \<noteq> []" by (cases ms) auto
    obtain ys b where b: "ms' = ys @ [b]" using a(2) by (cases ms' rule: rev_cases) auto
    have "swap_loop (xs @ ms @ zs) (length xs) (length xs + length ms - 1) =
        swap_loop ((xs @ [b]) @ ys @ (a # zs)) (length (xs @ [b])) (length xs + length ys)"
      unfolding a b by (subst swap_loop.simps) (simp add: rd_def wr_def nth_append list_update_append)
    also have "\<dots> = Some ((xs @ [b]) @ rev ys @ (a # zs))"
      using less.hyps [of ys "xs @ [b]" "a # zs"] by (simp add: a b)
    finally show ?thesis by (simp add: a b)
  qed
qed

lemma digits_then_swap:
  assumes "length ds < length s" and "ds \<noteq> []"
    and "wr s (length ds) 0 = Some s1" and "take (length ds) s = rev ds"
  shows "swap_loop s1 0 (length ds - 1) = Some (ds @ 0 # drop (Suc (length ds)) s)"
proof -
  have "s1 = [] @ rev ds @ 0 # drop (Suc (length ds)) s"
    using assms by (auto simp: wr_def upd_conv_take_nth_drop split: if_splits)
  then show ?thesis using swap_loop_ok [of "[]" "rev ds" "0 # drop (Suc (length ds)) s"] by simp
qed

lemma sdsll2str_ok:
  assumes "SDS_LLSTR_SIZE \<le> length s"
  shows "\<exists>zs. sdsll2str s v = Some (dec_int (sint v) @ 0 # zs, length (dec_int (sint v)))"
proof -
  let ?v = "if v <s 0 then - v else v"
  define d where "d = dec (unat ?v)"
  have v: "(if v <s 0 then if v \<noteq> LLONG_MIN then - v else LLONG_MAX + 1 else v) = ?v"
    using abs_word_eq [of v] by simp
  have di: "dec_int (sint v) = (if v <s 0 then ch (CHR ''-'') # d else d)"
    using dec_int_sint [of v] by (simp add: d_def)
  have len: "length (dec_int (sint v)) < length s"
    using length_dec_int [of v] assms by (simp add: LONG_STR_SIZE_def SDS_LLSTR_SIZE_def)
  then have "length d < length s" by (auto simp: di split: if_splits)
  then have "ll_digits s 0 ?v = Some (rev d @ drop (length d) s, length d)"
    using ll_digits_ok [of 0 ?v s] by (simp add: d_def)
  show ?thesis
  proof (cases "v <s 0")
    case True
    let ?s = "rev d @ ch (CHR ''-'') # drop (Suc (length d)) s"
    have l: "length (ch (CHR ''-'') # d) < length s" using len di True by simp
    have "wr (rev d @ drop (length d) s) (length d) (ch (CHR ''-'')) = Some ?s"
      using l by (simp add: wr_def upd_conv_take_nth_drop)
    moreover obtain s1 where "wr ?s (length (ch (CHR ''-'') # d)) 0 = Some s1" using l by (simp add: wr_def)
    moreover from this have "swap_loop s1 0 (length (ch (CHR ''-'') # d) - 1) =
        Some ((ch (CHR ''-'') # d) @ 0 # drop (Suc (length (ch (CHR ''-'') # d))) ?s)"
      using l by (intro digits_then_swap) simp_all
    ultimately show ?thesis
      using \<open>ll_digits s 0 ?v = _\<close> True di unfolding sdsll2str_def v Let_def by simp
  next
    case False
    let ?s = "rev d @ drop (length d) s"
    have l: "length d < length s" "d \<noteq> []" using len di False by (simp_all add: d_def)
    obtain s1 where "wr ?s (length d) 0 = Some s1" using l by (simp add: wr_def)
    moreover from this have "swap_loop s1 0 (length d - 1) = Some (d @ 0 # drop (Suc (length d)) ?s)"
      using l by (intro digits_then_swap) simp_all
    ultimately show ?thesis
      using \<open>ll_digits s 0 ?v = _\<close> False di unfolding sdsll2str_def v Let_def by simp
  qed
qed

lemma sdsfromlonglong_ok:
  assumes "alloc_ok al" and "length buf = SDS_LLSTR_SIZE"
  shows "\<exists>s. sdsfromlonglong al buf v = Some s \<and> sds_inv s \<and> content s = dec_int (sint v)"
proof -
  let ?d = "dec_int (sint v)"
  obtain zs where z: "sdsll2str buf v = Some (?d @ 0 # zs, length ?d)" using sdsll2str_ok [of buf v] assms(2) by auto
  have "length ?d < LONG_STR_SIZE" by (rule length_dec_int)
  then have "unat (of_nat (length ?d) :: u64) = length ?d" by (simp add: LONG_STR_SIZE_def unat_of_nat)
  then show ?thesis
    using sdsnewlen_ok [OF assms(1), of "of_nat (length ?d)" "?d @ 0 # zs"] length_dec_int [of v] z
    by (simp add: sdsfromlonglong_def LONG_STR_SIZE_def)
qed

declare trim_left.simps [simp del] trim_right.simps [simp del]

definition trim :: "('a \<Rightarrow> bool) \<Rightarrow> 'a list \<Rightarrow> 'a list" where
  "trim P xs = rev (dropWhile P (rev (dropWhile P xs)))"

lemma trim_left_ok:
  assumes "n \<le> length mem" and "i \<le> n"
  shows "trim_left mem cset (int i) (int n - 1) = Some (int (i + length (takeWhile (strchr cset) (drop i (take n mem)))))"
  using assms(2)
proof (induction "n - i" arbitrary: i)
  case 0
  then show ?case by (simp add: trim_left.simps)
next
  case (Suc d)
  then have i: "i < n" by simp
  then have dr: "drop i (take n mem) = mem ! i # drop (Suc i) (take n mem)"
    using assms(1) by (simp add: Cons_nth_drop_Suc [symmetric])
  show ?case
  proof (cases "strchr cset (mem ! i)")
    case True
    have "trim_left mem cset (int i) (int n - 1) = trim_left mem cset (int (Suc i)) (int n - 1)"
      using True i assms(1) by (subst trim_left.simps) (simp add: rd_def add.commute)
    also have "\<dots> = Some (int (Suc i + length (takeWhile (strchr cset) (drop (Suc i) (take n mem)))))"
      using Suc by (intro Suc.hyps(1)) auto
    finally show ?thesis using True dr by simp
  next
    case False
    then show ?thesis using i assms(1) dr by (subst trim_left.simps) (simp add: rd_def)
  qed
qed

lemma trim_right_ok:
  assumes "ep < int (length mem)" and "0 \<le> sp" and "sp \<le> ep"
  shows "\<exists>r. trim_right mem cset sp ep = Some r \<and> sp \<le> r \<and> r \<le> ep \<and> (r = sp \<or> \<not> strchr cset (mem ! nat r)) \<and>
    (\<forall>k. r < int k \<and> int k \<le> ep \<longrightarrow> strchr cset (mem ! k))"
  using assms
proof (induction mem cset sp ep rule: trim_right.induct)
  case (1 mem cset sp ep)
  show ?case
  proof (cases "sp < ep \<and> strchr cset (mem ! nat ep)")
    case True
    have s: "trim_right mem cset sp ep = trim_right mem cset sp (ep - 1)"
      using True "1.prems" by (subst trim_right.simps) (auto simp: rd_def)
    have "\<exists>r. trim_right mem cset sp (ep - 1) = Some r \<and> sp \<le> r \<and> r \<le> ep - 1 \<and> (r = sp \<or> \<not> strchr cset (mem ! nat r)) \<and>
        (\<forall>k. r < int k \<and> int k \<le> ep - 1 \<longrightarrow> strchr cset (mem ! k))"
      using True "1.prems" by (intro "1.IH") (auto simp: rd_def)
    then obtain r where r: "trim_right mem cset sp (ep - 1) = Some r" "sp \<le> r" "r \<le> ep - 1" "r = sp \<or> \<not> strchr cset (mem ! nat r)"
        "\<forall>k. r < int k \<and> int k \<le> ep - 1 \<longrightarrow> strchr cset (mem ! k)" by blast
    have "strchr cset (mem ! k)" if "r < int k" "int k \<le> ep" for k
      using that r(5) True by (cases "int k = ep") auto
    then show ?thesis using r s by auto
  next
    case False
    then show ?thesis using "1.prems" by (subst trim_right.simps) (auto simp: rd_def)
  qed
qed

lemma trim_middle:
  assumes "zs = as @ bs" and "\<forall>b \<in> set bs. P b" and "as \<noteq> []" and "\<not> P (last as)"
  shows "rev (dropWhile P (rev zs)) = as"
proof -
  have "dropWhile P (rev bs @ rev as) = dropWhile P (rev as)" using assms(2) by (intro dropWhile_append2) simp
  moreover have "dropWhile P (rev as) = rev as"
    using assms(3,4) by (cases as rule: rev_cases) auto
  ultimately show ?thesis by (simp add: assms(1))
qed

lemma sdstrim_ok:
  assumes inv: "sds_inv s"
  shows "\<exists>s'. sdstrim s cset = Some s' \<and> sds_inv s' \<and> content s' = trim (strchr cset) (content s)"
proof -
  note i = sds_invD [OF inv]
  define n where "n = slen s"
  define xs where "xs = content s"
  define sp where "sp = length (takeWhile (strchr cset) xs)"
  have xs: "take n (s_mem s) = xs" "length xs = n" using i(5) by (simp_all add: xs_def content_def n_def)
  have nl: "n < length (s_mem s)" using i(5) by (simp add: n_def)
  have spn: "sp \<le> n" using xs(2) by (simp add: sp_def flip: xs(2)) (rule length_takeWhile_le)
  have L: "trim_left (s_mem s) cset 0 (int n - 1) = Some (int sp)"
    using trim_left_ok [of n "s_mem s" 0 cset] nl xs by (simp add: sp_def)
  have dz: "dropWhile (strchr cset) xs = drop sp xs" by (simp add: sp_def dropWhile_eq_drop)
  obtain k where k: "trim_right (s_mem s) cset (int sp) (int n - 1) = Some (int sp + int k - 1)" "sp + k \<le> n"
      "take k (drop sp xs) = trim (strchr cset) xs"
  proof (cases "sp = n")
    case True
    have "trim_right (s_mem s) cset (int sp) (int n - 1) = Some (int sp + int 0 - 1)"
      using True by (subst trim_right.simps) simp
    moreover have "trim (strchr cset) xs = []"
    proof -
      have e: "dropWhile (strchr cset) xs = []" unfolding dz using True xs(2) by simp
      show ?thesis unfolding trim_def e by simp
    qed
    ultimately show thesis using that [of 0] True by simp
  next
    case False
    then have "int sp \<le> int n - 1" using spn by simp
    then obtain r where r: "trim_right (s_mem s) cset (int sp) (int n - 1) = Some r" "int sp \<le> r" "r \<le> int n - 1"
        "r = int sp \<or> \<not> strchr cset (s_mem s ! nat r)" "\<forall>k. r < int k \<and> int k \<le> int n - 1 \<longrightarrow> strchr cset (s_mem s ! k)"
      using trim_right_ok [of "int n - 1" "s_mem s" "int sp" cset] nl by auto
    define k where "k = nat (r + 1 - int sp)"
    have rk: "r = int (sp + k - 1)" "0 < k" "sp + k \<le> n" using r(2,3) by (auto simp: k_def)
    have nth: "s_mem s ! j = xs ! j" if "j < n" for j using that by (simp flip: xs(1))
    have hd: "\<not> strchr cset (xs ! sp)"
      using False spn xs(2) nth_length_takeWhile [of "strchr cset" xs] by (simp add: sp_def)
    have "trim (strchr cset) xs = take k (drop sp xs)"
      unfolding trim_def dz
    proof (rule trim_middle)
      show "drop sp xs = take k (drop sp xs) @ drop k (drop sp xs)" by (rule append_take_drop_id [symmetric])
      show "\<forall>b \<in> set (drop k (drop sp xs)). strchr cset b"
      proof
        fix b assume "b \<in> set (drop k (drop sp xs))"
        then obtain j where "j < length (drop k (drop sp xs))" "b = drop k (drop sp xs) ! j"
          by (auto simp only: in_set_conv_nth)
        then have j: "j < n - (sp + k)" "b = xs ! (sp + k + j)"
          using rk xs(2) by (simp_all add: add.commute add.left_commute)
        then show "strchr cset b" using r(5) [rule_format, of "sp + k + j"] rk nth [of "sp + k + j"] by auto
      qed
      show "take k (drop sp xs) \<noteq> []" using rk xs(2) by simp
      have "last (take k (drop sp xs)) = xs ! (sp + k - 1)"
      proof -
        have l: "length (take k (drop sp xs)) = k" using rk xs(2) by simp
        moreover from this have "take k (drop sp xs) \<noteq> []" using rk by auto
        ultimately have "last (take k (drop sp xs)) = take k (drop sp xs) ! (k - 1)"
          using last_conv_nth [of "take k (drop sp xs)"] by (metis l)
        then show ?thesis using rk xs(2) by simp
      qed
      then show "\<not> strchr cset (last (take k (drop sp xs)))"
        using r(4) rk hd nth [of "sp + k - 1"] by (cases "k = 1") (auto simp del: of_nat_add of_nat_diff)
    qed
    then show thesis using that [of k] r(1) rk by (simp add: of_nat_diff)
  qed
  define mem where "mem = (if sp = 0 then s_mem s else take k (drop sp (s_mem s)) @ drop k (s_mem s))"
  have bs: "length (take k (drop sp (s_mem s))) = k" using k(2) nl by simp
  have lm: "length mem = length (s_mem s)" using k(2) nl by (simp add: mem_def)
  have tk: "take k mem = trim (strchr cset) xs"
  proof -
    have "take k (drop sp (s_mem s)) = take k (drop sp xs)"
      using k(2) unfolding xs(1) [symmetric] drop_take take_take by simp
    then show ?thesis using k(3) bs by (cases "sp = 0") (auto simp: mem_def)
  qed
  have mm: "(if int sp \<noteq> 0 then do { bs \<leftarrow> rdn (s_mem s) (nat (int sp)) k; wrn (s_mem s) 0 bs } else Some (s_mem s)) = Some mem"
    using k(2) nl bs by (simp add: rdn_def wrn_def mem_def)
  have un: "unat (of_nat k :: u64) = k"
  proof -
    have "k < 2 ^ 64" using k(2) unat_lt2p_u64 [of "sdslen s"] by (simp add: n_def slen_def)
    then show ?thesis by (simp add: unat_of_nat take_bit_nat_eq_self)
  qed
  let ?s = "sdssetlen (s\<lparr>s_mem := mem[k := 0]\<rparr>) (of_nat k)"
  have nk: "nat (int sp + int k - 1 - int sp + 1) = k" by simp
  have "sdstrim s cset = Some ?s"
    unfolding sdstrim_def Let_def slen_def [symmetric] n_def [symmetric] L k(1) Option.bind.simps(2) nk mm
    using k(2) nl lm by (simp add: wr_def)
  moreover have "sds_inv ?s" "content ?s = take k (mem[k := 0])"
    using setlen_inv [OF inv, of "mem[k := 0]" "of_nat k"] un lm k(2) i(2,4) nl by (simp_all add: n_def)
  ultimately show ?thesis using tk by (simp add: xs_def)
qed

lemma sdssubstr_ok:
  assumes inv: "sds_inv s"
  shows "\<exists>s'. sdssubstr s start len = Some s' \<and> sds_inv s' \<and> content s' = take (unat len) (drop (unat start) (content s))"
proof -
  note i = sds_invD [OF inv]
  define st where "st = (if sdslen s \<le> start then 0 else start)"
  define ln where "ln = (let l = (if sdslen s \<le> start then 0 else len) in if sdslen s - st < l then sdslen s - st else l)"
  have sl: "unat st \<le> slen s" by (auto simp: st_def slen_def word_le_nat_alt)
  have sub: "unat (sdslen s - st) = slen s - unat st" using sl by (simp add: slen_def unat_sub word_le_nat_alt)
  have bnd: "unat st + unat ln \<le> slen s"
    using sub sl by (auto simp: ln_def Let_def word_less_nat_alt)
  have res: "take (unat ln) (drop (unat st) (content s)) = take (unat len) (drop (unat start) (content s))"
  proof (cases "sdslen s \<le> start")
    case True
    then show ?thesis using length_content [OF inv] by (simp add: ln_def st_def slen_def word_le_nat_alt)
  next
    case False
    then show ?thesis using sub length_content [OF inv] by (auto simp: ln_def st_def Let_def word_less_nat_alt)
  qed
  define mem where "mem = (if ln = 0 then s_mem s else take (unat ln) (drop (unat st) (s_mem s)) @ drop (unat ln) (s_mem s))"
  have lb: "length (take (unat ln) (drop (unat st) (s_mem s))) = unat ln" using bnd i(5) by simp
  have lm: "length mem = length (s_mem s)" using bnd i(5) by (simp add: mem_def)
  have tk: "take (unat ln) mem = take (unat ln) (drop (unat st) (content s))"
  proof -
    have "take (unat ln) (drop (unat st) (s_mem s)) = take (unat ln) (drop (unat st) (content s))"
      using bnd unfolding content_def drop_take take_take by simp
    then show ?thesis using lb by (simp add: mem_def)
  qed
  have lt: "unat ln < length (s_mem s)" using bnd i(5) by simp
  let ?s = "sdssetlen (s\<lparr>s_mem := mem[unat ln := 0]\<rparr>) ln"
  have mm: "(if ln \<noteq> 0 then do { bs \<leftarrow> rdn (s_mem s) (unat st) (unat ln); wrn (s_mem s) 0 bs } else Some (s_mem s)) = Some mem"
    using bnd i(5) lb lt by (simp add: rdn_def wrn_def mem_def)
  have "sdssubstr s start len = Some ?s"
  proof -
    have "sdssubstr s start len = do {
        mem \<leftarrow> (if ln \<noteq> 0 then do { bs \<leftarrow> rdn (s_mem s) (unat st) (unat ln); wrn (s_mem s) 0 bs } else Some (s_mem s));
        mem \<leftarrow> wr mem (unat ln) 0;
        Some (sdssetlen (s\<lparr>s_mem := mem\<rparr>) ln) }"
    proof (cases "sdslen s \<le> start")
      case True
      then have e: "st = 0" "ln = 0" by (simp_all add: st_def ln_def Let_def)
      show ?thesis unfolding sdssubstr_def e Let_def using True by simp
    next
      case False
      then have e: "st = start" "ln = (if sdslen s - start < len then sdslen s - start else len)"
        by (simp_all add: st_def ln_def Let_def)
      show ?thesis unfolding sdssubstr_def e Let_def using False by (simp split del: if_split)
    qed
    then show ?thesis unfolding mm using lm lt by (simp add: wr_def)
  qed
  moreover have "sds_inv ?s" "content ?s = take (unat ln) (mem[unat ln := 0])"
    using setlen_inv [OF inv, of "mem[unat ln := 0]" ln] lm lt bnd i(2,4) by simp_all
  ultimately show ?thesis using tk res by simp
qed

text \<open>The range of a list that two possibly negative indices denote.\<close>

definition index_range :: "int \<Rightarrow> int \<Rightarrow> 'a list \<Rightarrow> 'a list" where
  "index_range start en xs =
     (let n = int (length xs);
          a = (if start < 0 then n + start else start);
          b = (if en < 0 then n + en else en)
      in if a < 0 \<or> b < a then [] else take (nat (b - a + 1)) (drop (nat a) xs))"

lemma sdsrange_ok:
  assumes inv: "sds_inv s" and len: "slen s < 2 ^ 63"
  shows "\<exists>s'. sdsrange s start en = Some s' \<and> sds_inv s' \<and> content s' = index_range (sint start) (sint en) (content s)"
proof (cases "sdslen s = 0")
  case True
  then have "content s = []" by (simp add: content_def slen_def)
  then show ?thesis using True inv by (simp add: sdsrange_def index_range_def Let_def)
next
  case False
  let ?n = "int (slen s)"
  have n: "uint (sdslen s) = ?n" "length (content s) = slen s" using length_content [OF inv] by (simp_all add: slen_def)
  have adj: "sint (if w <s 0 then sdslen s + w else w) = (if sint w < 0 then ?n + sint w else sint w)" for w
  proof (cases "sint w < 0")
    case True
    have "sint (sdslen s) = ?n" using n(1) len by (simp add: sint_uint_cases)
    then have "sint (sdslen s + w) = ?n + sint w"
      using True len sint_ge [of w] by (simp add: sint_word_ariths signed_take_bit_int_eq_self)
    then show ?thesis using True by (simp add: word_sless_alt)
  qed (simp add: word_sless_alt)
  define a where "a = (if start <s 0 then sdslen s + start else start)"
  define b where "b = (if en <s 0 then sdslen s + en else en)"
  have sa: "sint a = (if sint start < 0 then ?n + sint start else sint start)" unfolding a_def by (rule adj)
  have sb: "sint b = (if sint en < 0 then ?n + sint en else sint en)" unfolding b_def by (rule adj)
  define nl where "nl = (if b <s a then 0 else b - a + 1)"
  obtain s' where s': "sdssubstr s a nl = Some s'" "sds_inv s'" "content s' = take (unat nl) (drop (unat a) (content s))"
    using sdssubstr_ok [OF inv] by blast
  have "sdsrange s start en = Some s'" 
    unfolding sdsrange_def Let_def a_def [symmetric] b_def [symmetric] nl_def [symmetric] using s'(1) False by simp
  moreover have "take (unat nl) (drop (unat a) (content s)) = index_range (sint start) (sint en) (content s)"
  proof -
    have ir: "index_range (sint start) (sint en) (content s) =
        (if sint a < 0 \<or> sint b < sint a then [] else take (nat (sint b - sint a + 1)) (drop (nat (sint a)) (content s)))"
      by (simp only: index_range_def Let_def n(2) sa sb)
    show ?thesis
    proof (cases "sint a < 0")
      case True
      then have "\<not> uint a < 2 ^ 63" using sint_uint_cases [of a] by (auto split: if_splits)
      then have "2 ^ 63 \<le> unat a" unfolding uint_nat of_nat_less_numeral_power_cancel_iff by (simp only: not_less)
      with len have "slen s \<le> unat a" by (rule less_imp_le [OF less_le_trans])
      then show ?thesis using True ir n(2) by simp
    next
      case False
      then have "uint a = sint a" using sint_uint_cases [of a] uint_lt2p [of a] by (auto split: if_splits)
      then have ua: "unat a = nat (sint a)" by (metis nat_uint_eq)
      show ?thesis
      proof (cases "sint b < sint a")
        case True
        then show ?thesis using ir by (simp add: nl_def word_sless_alt)
      next
        case ge: False
        have "uint a = sint a" "uint b = sint b" "sint b < 2 ^ 63"
          using False ge sint_lt [of b] \<open>uint a = sint a\<close> sint_uint_cases [of b] uint_lt2p [of b] by (auto split: if_splits)
        moreover from this have "uint (b - a) = sint b - sint a"
          using ge False by (simp add: uint_sub_lem [THEN iffD1])
        ultimately have "uint (b - a + 1) = sint b - sint a + 1"
          using False by (subst uint_add_lem [THEN iffD1]) auto
        then have "unat (b - a + 1) = nat (sint b - sint a + 1)" by (metis nat_uint_eq)
        then show ?thesis using ir False ge ua by (simp add: nl_def word_sless_alt)
      qed
    qed
  qed
  ultimately show ?thesis using s' by simp
qed

lemma memcmp_0: "length a = length b \<Longrightarrow> memcmp a b = 0 \<longleftrightarrow> a = b"
  by (induction a b rule: memcmp.induct) (auto simp: word_uint_eq_iff)

definition bytes_cmp :: "buffer \<Rightarrow> buffer \<Rightarrow> int" where
  "bytes_cmp xs ys = (let m = min (length xs) (length ys); k = memcmp (take m xs) (take m ys) in
     if k = 0 then if length ys < length xs then 1 else if length xs < length ys then -1 else 0 else k)"

lemma bytes_cmp_lexord:
  "(bytes_cmp xs ys < 0 \<longleftrightarrow> (xs, ys) \<in> lexord {(u, v). u < v}) \<and> (bytes_cmp xs ys = 0 \<longleftrightarrow> xs = ys)"
proof (induction xs arbitrary: ys)
  case Nil
  then show ?case by (cases ys) (auto simp: bytes_cmp_def)
next
  case (Cons x xs)
  show ?case
  proof (cases ys)
    case Nil
    then show ?thesis by (simp add: bytes_cmp_def)
  next
    case (Cons y zs)
    have "bytes_cmp (x # xs) (y # zs) = (if x = y then bytes_cmp xs zs else uint x - uint y)"
      by (auto simp: bytes_cmp_def Let_def word_uint_eq_iff)
    then show ?thesis using Cons Cons.IH [of zs] by (auto simp: word_less_def word_uint_eq_iff)
  qed
qed

lemma sdscmp_ok:
  assumes "sds_inv a" and "sds_inv b"
  shows "\<exists>c. sdscmp a b = Some c \<and> (c < 0 \<longleftrightarrow> (content a, content b) \<in> lexord {(u, v). u < v}) \<and> (c = 0 \<longleftrightarrow> content a = content b)"
proof -
  let ?m = "min (slen a) (slen b)"
  note la = length_content [OF assms(1)] and lb = length_content [OF assms(2)]
  have um: "unat (if sdslen a < sdslen b then sdslen a else sdslen b) = ?m"
    by (simp add: slen_def word_less_nat_alt)
  have r: "rdn (s_mem a) 0 ?m = Some (take ?m (content a))" "rdn (s_mem b) 0 ?m = Some (take ?m (content b))"
    using sds_invD(5) [OF assms(1)] sds_invD(5) [OF assms(2)] by (simp_all add: rdn_def content_def min_def)
  have "sdscmp a b = Some (bytes_cmp (content a) (content b))"
    unfolding sdscmp_def Let_def um r bytes_cmp_def la lb by (simp add: slen_def word_less_nat_alt)
  then show ?thesis using bytes_cmp_lexord [of "content a" "content b"] by simp
qed

section \<open>Splitting\<close>

definition occurs :: "'a list \<Rightarrow> 'a list \<Rightarrow> bool" where
  "occurs sep t \<longleftrightarrow> (\<exists>i. i + length sep \<le> length t \<and> take (length sep) (drop i t) = sep)"

definition joined :: "'a list \<Rightarrow> 'a list list \<Rightarrow> 'a list" where
  "joined sep ts = concat (map (\<lambda>t. t @ sep) ts)"

declare split_loop.simps [simp del]

definition clear_of :: "buffer \<Rightarrow> buffer \<Rightarrow> nat \<Rightarrow> nat \<Rightarrow> bool" where
  "clear_of s sep a b \<longleftrightarrow> (\<forall>p. a \<le> p \<and> p < b \<longrightarrow> take (length sep) (drop p s) \<noteq> sep)"

lemma no_occurs:
  assumes "clear_of s sep a b" and "a \<le> c" and "c \<le> length s" and "c + 1 \<le> b + length sep" and "sep \<noteq> []"
  shows "\<not> occurs sep (take (c - a) (drop a s))"
proof
  assume "occurs sep (take (c - a) (drop a s))"
  then obtain i where i: "i + length sep \<le> c - a" "take (length sep) (drop i (take (c - a) (drop a s))) = sep"
    using assms(2,3) by (auto simp: occurs_def)
  have "take (length sep) (drop i (take (c - a) (drop a s))) = take (length sep) (drop (a + i) s)"
    using i(1) by (simp add: drop_take min_def add.commute)
  moreover have "a + i < b" using i(1) assms(2,4,5) by (cases sep) auto
  moreover have "take (length sep) (drop (a + i) s) \<noteq> sep"
    using assms(1) \<open>a + i < b\<close> unfolding clear_of_def by (metis le_add1)
  ultimately show False using i(2) by simp
qed

lemma split_loop_ok:
  assumes "sep \<noteq> []" and "start \<le> j" and "start \<le> length s" and "length tokens < slots" and "joined sep tokens = take start s"
    and "clear_of s sep start j" and "\<forall>t \<in> set tokens. \<not> occurs sep t"
  shows "\<exists>start' tokens' slots'. split_loop s (int (length s)) sep (int (length sep)) start j tokens slots = Some (start', tokens', slots') \<and>
    start' \<le> length s \<and> length tokens' < slots' \<and> joined sep tokens' = take start' s \<and>
    clear_of s sep start' (length s + 1 - length sep) \<and> (\<forall>t \<in> set tokens'. \<not> occurs sep t)"
  using assms(2-)
proof (induction "length s - j" arbitrary: start j tokens slots rule: less_induct)
  case less
  let ?L = "length sep"
  have L: "0 < ?L" using assms(1) by simp
  show ?case
  proof (cases "int j < int (length s) - (int ?L - 1)")
    case False
    then have "clear_of s sep start (length s + 1 - ?L)" using less.prems(5) by (auto simp: clear_of_def)
    then show ?thesis using False less.prems by (subst split_loop.simps) auto
  next
    case True
    then have jL: "j + ?L \<le> length s" by simp
    then have jl: "j < length s" using L by linarith
    define sl where "sl = (if slots < length tokens + 2 then slots * 2 else slots)"
    have sl: "length tokens + 1 < sl" using less.prems(3) by (auto simp: sl_def)
    define m where "m \<longleftrightarrow> take ?L (drop j s) = sep"
    have r: "rd s j = Some (s ! j)" "rd sep 0 = Some (sep ! 0)" "rdn s j ?L = Some (take ?L (drop j s))" "rdn sep 0 ?L = Some sep"
      using jL L jl by (simp_all add: rd_def rdn_def)
    have one: "take ?L (drop j s) = sep \<longleftrightarrow> s ! j = sep ! 0" if "?L = 1"
      using that jL L by (cases sep) (simp_all add: take_Suc hd_drop_conv_nth)
    have same: "(if int ?L = 1 \<and> s ! j = sep ! 0 then Some True else Some (memcmp (take ?L (drop j s)) sep = 0)) = Some m"
      using one jL memcmp_0 [of "take ?L (drop j s)" sep] by (auto simp: m_def)
    have dec: "length s - (j + ?L) < length s - j" using jl L by linarith
    have jx: "j + nat (int ?L - 1) + 1 = j + ?L" using L by linarith
    have unf: "split_loop s (int (length s)) sep (int ?L) start j tokens slots =
        (if m then do { tok \<leftarrow> rdn s start (j - start); tokens \<leftarrow> store_token tokens sl tok;
            split_loop s (int (length s)) sep (int ?L) (j + ?L) (j + ?L) tokens sl }
         else split_loop s (int (length s)) sep (int ?L) start (j + 1) tokens sl)"
      by (subst split_loop.simps) (simp only: if_P [OF True] Let_def sl_def [symmetric] r Option.bind.simps(2) nat_int same jx)
    show ?thesis
    proof (cases m)
      case True
      let ?tok = "take (j - start) (drop start s)"
      have st: "rdn s start (j - start) = Some ?tok" "store_token tokens sl ?tok = Some (tokens @ [?tok])"
        using less.prems(1) jL sl by (simp_all add: rdn_def store_token_def)
      have jn: "joined sep (tokens @ [?tok]) = take (j + ?L) s"
      proof -
        have "take (j + ?L) s = take start s @ ?tok @ take ?L (drop j s)"
          using less.prems(1) by (simp add: take_add [symmetric] flip: append_assoc)
        then show ?thesis using less.prems(4) True by (simp add: joined_def m_def)
      qed
      have "\<not> occurs sep ?tok"
        using less.prems(1,5) jL jl assms(1) by (intro no_occurs [where b = j]) (simp_all add: Suc_le_eq)
      then have "\<exists>start' tokens' slots'. split_loop s (int (length s)) sep (int ?L) (j + ?L) (j + ?L) (tokens @ [?tok]) sl = Some (start', tokens', slots') \<and>
          start' \<le> length s \<and> length tokens' < slots' \<and> joined sep tokens' = take start' s \<and>
          clear_of s sep start' (length s + 1 - ?L) \<and> (\<forall>t \<in> set tokens'. \<not> occurs sep t)"
        using dec jL sl jn less.prems(6) by (intro less.hyps) (auto simp: clear_of_def)
      then show ?thesis using unf st True by simp
    next
      case False
      have "clear_of s sep start (j + 1)"
        using False less.prems(5) by (auto simp: clear_of_def m_def less_Suc_eq)
      then have "\<exists>start' tokens' slots'. split_loop s (int (length s)) sep (int ?L) start (j + 1) tokens sl = Some (start', tokens', slots') \<and>
          start' \<le> length s \<and> length tokens' < slots' \<and> joined sep tokens' = take start' s \<and>
          clear_of s sep start' (length s + 1 - ?L) \<and> (\<forall>t \<in> set tokens'. \<not> occurs sep t)"
        using jl sl less.prems by (intro less.hyps) auto
      then show ?thesis using unf False by simp
    qed
  qed
qed

lemma sdssplitlen_ok:
  assumes "s \<noteq> []" and "sep \<noteq> []"
  shows "\<exists>ts t. sdssplitlen s (int (length s)) sep (int (length sep)) = Some (ts @ [t]) \<and> joined sep ts @ t = s \<and>
    (\<forall>u \<in> set (ts @ [t]). \<not> occurs sep u)"
proof -
  obtain start ts slots where r: "split_loop s (int (length s)) sep (int (length sep)) 0 0 [] 5 = Some (start, ts, slots)"
      "start \<le> length s" "length ts < slots" "joined sep ts = take start s" "clear_of s sep start (length s + 1 - length sep)"
      "\<forall>t \<in> set ts. \<not> occurs sep t"
    using split_loop_ok [OF assms(2), of 0 0 s "[]" 5] by (auto simp: joined_def clear_of_def)
  let ?t = "take (length s - start) (drop start s)"
  have "\<not> occurs sep ?t"
    using r(2,5) assms by (intro no_occurs [where b = "length s + 1 - length sep"]) auto
  moreover have "joined sep ts @ ?t = s" using r(4) by simp
  ultimately show ?thesis
    using r assms by (auto simp: sdssplitlen_def rdn_def store_token_def Suc_le_eq)
qed

section \<open>Properties\<close>

definition wit_al :: sds_allocator where
  "wit_al = \<lparr>al_usable = (\<lambda>n. n), al_junk = (\<lambda>_. 0), al_try = (\<lambda>_. True), al_jemalloc = False\<rparr>"

definition wit_s :: sds where
  "wit_s = \<lparr>s_flags = SDS_TYPE_8, s_len = 2, s_alloc = 3, s_mem = [97, 98, 0, 7]\<rparr>"

lemma wit_ok: "alloc_ok wit_al" "sds_inv wit_s" "content wit_s = [97, 98]" "slen wit_s = 2"
  by (simp_all add: alloc_ok_def wit_al_def wit_s_def sds_inv_def content_def stype_def slen_def salloc_def
      sdslen_def sdsalloc_def tmax_def sdsTypeMaxSize_def sds_type_defs)

text \<open>
  C21: Appending to a string, with reallocation and a change of the header type when the free space
  does not suffice, keeps the string well formed and its contents become the old contents followed
  by the appended bytes; no byte outside the allocation is accessed and no assertion fails.
\<close>

theorem sdscatlen_appends:
  assumes "sds_inv s" and "alloc_ok al" and "slen s + unat len + 2 ^ 20 + 18 < 2 ^ 64" and "unat len \<le> length t"
  shows "\<exists>s'. sdscatlen al s t len = Some s' \<and> sds_inv s' \<and> content s' = content s @ take (unat len) t"
  by (rule sdscatlen_ok [OF assms])

theorem sdscatlen_appends_witness:
  "\<exists>s'. sdscatlen wit_al wit_s [99, 100, 101] 3 = Some s' \<and> sds_inv s' \<and> content s' = [97, 98, 99, 100, 101]"
  using sdscatlen_appends [OF wit_ok(2,1), of 3 "[99, 100, 101]"] by (simp add: wit_ok)

text \<open>
  C22: Resizing a string to any size, larger or smaller, with the header kept by reallocation or
  replaced by the one the new size needs, gives a well-formed string that holds the prefix of the
  contents which fits.
\<close>

theorem sdsResize_truncates:
  assumes "sds_inv s" and "alloc_ok al" and "unat n + 18 < 2 ^ 64"
  shows "\<exists>s'. sdsResize al s n would_regrow = Some s' \<and> sds_inv s' \<and> content s' = take (unat n) (content s)"
  by (rule sdsResize_ok [OF assms])

theorem sdsResize_truncates_witness:
  "\<exists>s'. sdsResize wit_al wit_s 1 False = Some s' \<and> sds_inv s' \<and> content s' = [97]"
  using sdsResize_truncates [OF wit_ok(2,1), of 1 False] by (simp add: wit_ok)

text \<open>
  C24: The string \<open>sdsfromlonglong\<close> makes from a 64-bit integer is its canonical decimal notation:
  \<open>string2ll\<close> reads the integer back from it. The 21 bytes of the local buffer suffice.
\<close>

theorem sdsfromlonglong_string2ll:
  assumes "alloc_ok al" and "length buf = SDS_LLSTR_SIZE"
  shows "\<exists>s. sdsfromlonglong al buf v = Some s \<and> sds_inv s \<and> string2ll (content s) = Some v"
  using sdsfromlonglong_ok [OF assms, of v] by (metis string2ll_dec_int)

theorem sdsfromlonglong_string2ll_witness:
  "\<exists>s. sdsfromlonglong wit_al (replicate 21 0) (- 5) = Some s \<and> sds_inv s \<and> string2ll (content s) = Some (- 5)"
  by (rule sdsfromlonglong_string2ll) (simp_all add: wit_ok SDS_LLSTR_SIZE_def)

text \<open>
  C23: \<open>sdssplitargs\<close> splits a line of arguments quoted by \<open>sdscatrepr\<close> back into exactly these
  arguments, whatever bytes they contain.
\<close>

theorem sdssplitargs_catrepr: "sdssplitargs (repr_line args) = Some args"
  by (simp add: sdssplitargs_def splitargs_repr)


text \<open>
  C26: \<open>sdstrim\<close> removes from both ends the bytes of the set and also zero bytes, since \<open>strchr\<close>
  finds the terminator of the set; what is left is the contents of a well-formed string.
\<close>

theorem sdstrim_trims:
  assumes "sds_inv s"
  shows "\<exists>s'. sdstrim s cset = Some s' \<and> sds_inv s' \<and> content s' = trim (\<lambda>c. c \<in> set cset \<or> c = 0) (content s)"
proof -
  have "strchr cset = (\<lambda>c. c \<in> set cset \<or> c = 0)" by (auto simp: strchr_def)
  then show ?thesis using sdstrim_ok [OF assms, of cset] by simp
qed

theorem sdstrim_trims_witness:
  "\<exists>s'. sdstrim wit_s [98] = Some s' \<and> sds_inv s' \<and> content s' = [97]"
  using sdstrim_trims [OF wit_ok(2), of "[98]"] by (simp add: wit_ok trim_def)

text \<open>
  C25: \<open>sdsrange\<close> keeps the range between two indices, counted from the end when negative; a start
  before the first byte gives the empty string, not the clipped range, and so does a start after
  the end.
\<close>

theorem sdsrange_range:
  assumes "sds_inv s" and "slen s < 2 ^ 63"
  shows "\<exists>s'. sdsrange s start en = Some s' \<and> sds_inv s' \<and> content s' = index_range (sint start) (sint en) (content s)"
  by (rule sdsrange_ok [OF assms])

theorem sdsrange_range_witness:
  "\<exists>s'. sdsrange wit_s (- 1) (- 1) = Some s' \<and> sds_inv s' \<and> content s' = [98]"
  using sdsrange_range [OF wit_ok(2), of "- 1" "- 1"] by (simp add: wit_ok index_range_def)



end
