(* ===== verification/Redis_Tset.thy ===== *)
theory Redis_Tset
  imports Redis_Intset Redis_Dict_Scan Redis_Siphash Redis_Sds_Text "HOL-Library.Signed_Division"
begin

text \<open>
  The set type, \<open>t_set.c\<close>: a set object is an intset or a hash table of strings, and the
  operations dispatch on the encoding and convert an intset to a hash table when a value is not an
  integer or the set has become too large. Strings are represented by their contents. The lemmas
  show that the two encodings together implement a set of byte strings.
\<close>

section \<open>Set objects\<close>

datatype setobj = OBJ_ENCODING_HT "(buffer, unit) dict" | OBJ_ENCODING_INTSET intset

text \<open>
  What the operations depend on beside the object: fresh memory of a reallocated intset, the
  resize policy of the hash tables, the hash seed and \<open>server.set_max_intset_entries\<close>.
\<close>

record set_env =
  se_junk :: "nat \<Rightarrow> byte"
  se_rz :: dictResizeEnable
  se_seed :: buffer
  se_max :: u64

definition setDictType :: "set_env \<Rightarrow> buffer dictType" where
  "setDictType env = \<lparr>hashFunction = dictSdsHash (se_seed env), keyCompare = dictSdsKeyCompare, expandAllowed = None\<rparr>"

definition isSdsRepresentableAsLongLong :: "buffer \<Rightarrow> u64 option" where
  "isSdsRepresentableAsLongLong s = string2ll s"

text \<open>The contents of the string that \<open>sdsfromlonglong\<close> makes.\<close>

definition sds_of_longlong :: "u64 \<Rightarrow> buffer option" where
  "sds_of_longlong v = do { (buf, len) \<leftarrow> sdsll2str (replicate SDS_LLSTR_SIZE 0) v; rdn buf 0 len }"

definition HASHTABLE_MIN_FILL :: int where
  "HASHTABLE_MIN_FILL = 10"

definition htNeedsResize :: "('k, 'v) dict \<Rightarrow> bool" where
  "htNeedsResize d =
     (let size = dictSlots d; used = dictSize d in
      sint DICT_HT_INITIAL_SIZE < sint size \<and> sint (used * 100) sdiv sint size < HASHTABLE_MIN_FILL)"

definition createIntsetObject :: setobj where
  "createIntsetObject = OBJ_ENCODING_INTSET intsetNew"

definition createSetObject :: setobj where
  "createSetObject = OBJ_ENCODING_HT dictCreate"

definition setTypeCreate :: "buffer \<Rightarrow> setobj" where
  "setTypeCreate val = (if isSdsRepresentableAsLongLong val \<noteq> None then createIntsetObject else createSetObject)"

section \<open>Iteration and conversion\<close>

datatype set_position = Pos_ht "(buffer, unit) dictIterator" | Pos_intset u32

datatype set_element = Ele_sds buffer | Ele_ll u64

definition setTypeInitIterator :: "setobj \<Rightarrow> set_position" where
  "setTypeInitIterator subject =
     (case subject of OBJ_ENCODING_HT d \<Rightarrow> Pos_ht dictGetIterator | OBJ_ENCODING_INTSET s \<Rightarrow> Pos_intset 0)"

text \<open>\<open>fp\<close> is the fingerprint function of the hash table; the result of the call is \<open>None\<close> at the end.\<close>

definition setTypeNext :: "((buffer, unit) dict \<Rightarrow> u64) \<Rightarrow> setobj \<Rightarrow> set_position \<Rightarrow>
    (setobj \<times> set_position \<times> set_element option) option" where
  "setTypeNext fp subject si =
     (case (subject, si) of
        (OBJ_ENCODING_HT d, Pos_ht di) \<Rightarrow> do {
          (d, di, de) \<leftarrow> dictNext fp d di;
          Some (OBJ_ENCODING_HT d, Pos_ht di, map_option (\<lambda>(key, _). Ele_sds key) de)
        }
      | (OBJ_ENCODING_INTSET s, Pos_intset ii) \<Rightarrow> do {
          v \<leftarrow> intsetGet s ii;
          Some (OBJ_ENCODING_INTSET s, Pos_intset (ii + 1), map_option Ele_ll v)
        }
      | _ \<Rightarrow> None)"

definition setTypeNextObject :: "((buffer, unit) dict \<Rightarrow> u64) \<Rightarrow> setobj \<Rightarrow> set_position \<Rightarrow>
    (setobj \<times> set_position \<times> buffer option) option" where
  "setTypeNextObject fp subject si =
     do {
       (subject, si, el) \<leftarrow> setTypeNext fp subject si;
       case el of
         None \<Rightarrow> Some (subject, si, None)
       | Some (Ele_ll intele) \<Rightarrow> do { ele \<leftarrow> sds_of_longlong intele; Some (subject, si, Some ele) }
       | Some (Ele_sds sdsele) \<Rightarrow> Some (subject, si, Some sdsele)
     }"

partial_function (option) convert_loop :: "set_env \<Rightarrow> setobj \<Rightarrow> set_position \<Rightarrow> (buffer, unit) dict \<Rightarrow> (buffer, unit) dict option" where
  "convert_loop env setobj si d =
     do {
       (setobj, si, el) \<leftarrow> setTypeNext (\<lambda>_. 0) setobj si;
       case el of
         None \<Rightarrow> Some d
       | Some (Ele_sds _) \<Rightarrow> None
       | Some (Ele_ll intele) \<Rightarrow> do {
           element \<leftarrow> sds_of_longlong intele;
           (d, ok) \<leftarrow> dictAdd (setDictType env) (se_rz env) () d element ();
           if ok then convert_loop env setobj si d else None
         }
     }"

text \<open>The assertion allows only intsets, and \<open>OBJ_ENCODING_HT\<close> is the only target.\<close>

definition setTypeConvert :: "set_env \<Rightarrow> setobj \<Rightarrow> setobj option" where
  "setTypeConvert env setobj =
     (case setobj of
        OBJ_ENCODING_HT _ \<Rightarrow> None
      | OBJ_ENCODING_INTSET s \<Rightarrow> do {
          let (d, _) = dictExpand dictCreate (ucast (intsetLen s));
          d \<leftarrow> convert_loop env setobj (setTypeInitIterator setobj) d;
          Some (OBJ_ENCODING_HT d)
        })"

section \<open>Operations\<close>

definition setTypeAdd :: "set_env \<Rightarrow> setobj \<Rightarrow> buffer \<Rightarrow> (setobj \<times> bool) option" where
  "setTypeAdd env subject val =
     (case subject of
        OBJ_ENCODING_HT d \<Rightarrow> do {
          (d, res) \<leftarrow> dictAddRaw (setDictType env) (se_rz env) () d val;
          case res of
            Inl _ \<Rightarrow> Some (OBJ_ENCODING_HT d, False)
          | Inr de \<Rightarrow> do { d \<leftarrow> dictSetVal d de (); Some (OBJ_ENCODING_HT d, True) }
        }
      | OBJ_ENCODING_INTSET s \<Rightarrow>
          (case isSdsRepresentableAsLongLong val of
             Some llval \<Rightarrow> do {
               (s, success) \<leftarrow> intsetAdd (se_junk env) s llval;
               if success then
                 let max_entries = se_max env;
                     max_entries = (if push_bit 30 1 \<le> max_entries then push_bit 30 1 else max_entries)
                 in if max_entries < ucast (intsetLen s) then do {
                      o' \<leftarrow> setTypeConvert env (OBJ_ENCODING_INTSET s);
                      Some (o', True)
                    }
                    else Some (OBJ_ENCODING_INTSET s, True)
               else Some (OBJ_ENCODING_INTSET s, False)
             }
           | None \<Rightarrow> do {
               o' \<leftarrow> setTypeConvert env subject;
               case o' of
                 OBJ_ENCODING_HT d \<Rightarrow> do {
                   (d, ok) \<leftarrow> dictAdd (setDictType env) (se_rz env) () d val ();
                   if ok then Some (OBJ_ENCODING_HT d, True) else None
                 }
               | OBJ_ENCODING_INTSET _ \<Rightarrow> None
             }))"

definition setTypeRemove :: "set_env \<Rightarrow> setobj \<Rightarrow> buffer \<Rightarrow> (setobj \<times> bool) option" where
  "setTypeRemove env setobj val =
     (case setobj of
        OBJ_ENCODING_HT d \<Rightarrow> do {
          (d, deleted) \<leftarrow> dictDelete (setDictType env) (se_rz env) d val;
          if deleted then
            Some (OBJ_ENCODING_HT (if htNeedsResize d then fst (dictResize (se_rz env) d) else d), True)
          else Some (OBJ_ENCODING_HT d, False)
        }
      | OBJ_ENCODING_INTSET s \<Rightarrow>
          (case isSdsRepresentableAsLongLong val of
             Some llval \<Rightarrow> do {
               (s, success) \<leftarrow> intsetRemove (se_junk env) s llval;
               Some (OBJ_ENCODING_INTSET s, success)
             }
           | None \<Rightarrow> Some (setobj, False)))"

definition setTypeIsMember :: "set_env \<Rightarrow> setobj \<Rightarrow> buffer \<Rightarrow> (setobj \<times> bool) option" where
  "setTypeIsMember env subject val =
     (case subject of
        OBJ_ENCODING_HT d \<Rightarrow> do {
          (d, de) \<leftarrow> dictFind (setDictType env) (se_rz env) d val;
          Some (OBJ_ENCODING_HT d, de \<noteq> None)
        }
      | OBJ_ENCODING_INTSET s \<Rightarrow>
          (case isSdsRepresentableAsLongLong val of
             Some llval \<Rightarrow> do { found \<leftarrow> intsetFind s llval; Some (subject, found) }
           | None \<Rightarrow> Some (subject, False)))"

definition setTypeSize :: "setobj \<Rightarrow> u64" where
  "setTypeSize subject =
     (case subject of
        OBJ_ENCODING_HT d \<Rightarrow> dictSize d
      | OBJ_ENCODING_INTSET s \<Rightarrow> ucast (intsetLen s))"

partial_function (option) dup_loop :: "set_env \<Rightarrow> ((buffer, unit) dict \<Rightarrow> u64) \<Rightarrow> setobj \<Rightarrow> set_position \<Rightarrow> setobj \<Rightarrow> setobj option" where
  "dup_loop env fp subject si set' =
     do {
       (subject, si, el) \<leftarrow> setTypeNext fp subject si;
       case el of
         None \<Rightarrow> Some set'
       | Some (Ele_ll _) \<Rightarrow> None
       | Some (Ele_sds elesds) \<Rightarrow> do {
           (set', _) \<leftarrow> setTypeAdd env set' elesds;
           dup_loop env fp subject si set'
         }
     }"

definition setTypeDup :: "set_env \<Rightarrow> ((buffer, unit) dict \<Rightarrow> u64) \<Rightarrow> setobj \<Rightarrow> setobj option" where
  "setTypeDup env fp ob =
     (case ob of
        OBJ_ENCODING_INTSET s \<Rightarrow> do {
          blob \<leftarrow> rdn (blob_of_intset s) 0 (unat (intsetBlobLen s));
          Some (OBJ_ENCODING_INTSET (intset_of_blob blob))
        }
      | OBJ_ENCODING_HT d \<Rightarrow>
          let (d', _) = dictExpand dictCreate (dictSize d) in
          dup_loop env fp ob (setTypeInitIterator ob) (OBJ_ENCODING_HT d'))"

section \<open>The set a set object stands for\<close>

abbreviation ll_str :: "u64 \<Rightarrow> buffer" where
  "ll_str v \<equiv> dec_int (sint v)"

definition set_abs :: "setobj \<Rightarrow> buffer set" where
  "set_abs ob = (case ob of OBJ_ENCODING_HT d \<Rightarrow> dom (dict_map d) | OBJ_ENCODING_INTSET s \<Rightarrow> ll_str ` intset_abs s)"

text \<open>The largest number of elements of an intset, and the invariant of a set object.\<close>

definition intset_limit :: "set_env \<Rightarrow> nat" where
  "intset_limit env = min (unat (se_max env)) (2 ^ 30)"

definition set_inv :: "set_env \<Rightarrow> setobj \<Rightarrow> bool" where
  "set_inv env ob = (case ob of
     OBJ_ENCODING_HT d \<Rightarrow> dict_good (setDictType env) d
   | OBJ_ENCODING_INTSET s \<Rightarrow> intset_inv s \<and> unat (is_length s) \<le> intset_limit env)"

lemma setDictType_keys: "keys_by_equality (setDictType env)"
  by (simp add: keys_by_equality_def setDictType_def dictSdsKeyCompare_eq)

lemma ll_str_eq [simp]: "ll_str v = ll_str w \<longleftrightarrow> v = w"
  using string2ll_dec_int by (metis option.inject)

lemma inj_ll_str: "inj ll_str"
  by (rule injI) simp

lemma representable_iff: "isSdsRepresentableAsLongLong s = Some v \<longleftrightarrow> s = ll_str v"
  by (simp add: isSdsRepresentableAsLongLong_def string2ll_dec_int)

lemma not_representable: "isSdsRepresentableAsLongLong s = None \<Longrightarrow> s \<notin> range ll_str"
  using representable_iff [of s] by auto

lemma sds_of_longlong_ok: "sds_of_longlong v = Some (ll_str v)"
proof -
  obtain zs where "sdsll2str (replicate SDS_LLSTR_SIZE 0) v = Some (ll_str v @ 0 # zs, length (ll_str v))"
    using sdsll2str_ok [of "replicate SDS_LLSTR_SIZE 0" v] by auto
  then show ?thesis by (simp add: sds_of_longlong_def rdn_def)
qed

lemma dictExpand_empty:
  fixes d :: "(buffer, unit) dict"
  assumes "dictExpand dictCreate n = (d, ok)"
  shows "dict_good (setDictType env) d" and "dict_map d = Map.empty"
proof -
  obtain b f where e: "priv_dictExpand dictCreate n None = (d, b, f)"
    using assms by (auto simp: dictExpand_def split: prod.splits)
  have g: "dict_inv (setDictType env) (dictCreate :: (buffer, unit) dict)"
    by (rule dictCreate_good(1) [OF setDictType_keys, unfolded dict_good_def, THEN conjunct2])
  show "dict_good (setDictType env) d"
    using priv_dictExpand_ok(1) [OF g e] setDictType_keys by (simp add: dict_good_def)
  have "dict_entries d = dict_entries dictCreate" by (rule priv_dictExpand_ok(2) [OF g e])
  then show "dict_map d = Map.empty"
    using dictCreate_good(2) [OF setDictType_keys] by (simp add: dict_map_def)
qed

lemma dict_room: "dict_good ty d \<Longrightarrow> finite (dom (dict_map d))"
  using card_dict_map(2) by (auto simp: dict_good_def)

lemma set_dictAdd:
  assumes "dict_good ty d" and "card (dom (dict_map d)) < 2 ^ 60"
  shows "\<exists>d'. dictAdd ty rz () d key () = Some (d', key \<notin> dom (dict_map d)) \<and> dict_good ty d' \<and>
    dom (dict_map d') = insert key (dom (dict_map d))"
proof -
  have g: "dict_inv ty d" "keys_by_equality ty" using assms(1) by (auto simp: dict_good_def)
  have l: "length (dict_entries d) < 2 ^ 60" using assms(2) card_dict_map(1) [OF g(1)] by simp
  have k: "dict_map d key = None \<longleftrightarrow> key \<notin> dom (dict_map d)" by (metis domIff)
  obtain d' where d': "dictAdd ty rz () d key () = Some (d', key \<notin> dom (dict_map d))" "dict_inv ty d'"
      "dict_map d' = (if key \<notin> dom (dict_map d) then (dict_map d)(key \<mapsto> ()) else dict_map d)"
    using dictAdd_ok [OF g l, of rz "()" key "()"] unfolding k by blast
  moreover have "dom (dict_map d') = insert key (dom (dict_map d))" unfolding d'(3) by auto
  ultimately show ?thesis using g(2) unfolding dict_good_def by blast
qed

lemma convert_loop_ok:
  assumes inv: "intset_inv s" and "unat i \<le> unat (is_length s)" and "unat (is_length s) \<le> 2 ^ 29"
    and "dict_good (setDictType env) d" and "dom (dict_map d) = ll_str ` set (take (unat i) (intset_vals s))"
  shows "\<exists>d'. convert_loop env (OBJ_ENCODING_INTSET s) (Pos_intset i) d = Some d' \<and> dict_good (setDictType env) d' \<and>
    dom (dict_map d') = ll_str ` intset_abs s"
  using assms(2,4,5)
proof (induction "unat (is_length s) - unat i" arbitrary: i d)
  case 0
  then have i: "i = is_length s" by (simp add: word_unat_eq_iff)
  have l: "length (intset_vals s) = unat (is_length s)" by (simp add: intset_vals_def intset_cells_def)
  have "convert_loop env (OBJ_ENCODING_INTSET s) (Pos_intset i) d = Some d"
    by (subst convert_loop.simps) (simp add: setTypeNext_def intsetGet_vals [OF inv] i)
  then show ?case using 0 i l by (simp add: intset_abs_def)
next
  case (Suc n)
  then have lt: "unat i < unat (is_length s)" by simp
  have l: "length (intset_vals s) = unat (is_length s)" by (simp add: intset_vals_def intset_cells_def)
  have ui: "unat (i + 1) = Suc (unat i)" using lt assms(3) by (simp add: unat_word_ariths)
  let ?v = "intset_vals s ! unat i"
  have dist: "distinct (intset_vals s)"
    using inv unfolding intset_inv_def by (simp add: strict_sorted_iff distinct_map)
  have tk: "take (Suc (unat i)) (intset_vals s) = take (unat i) (intset_vals s) @ [?v]"
    using lt l by (simp add: take_Suc_conv_app_nth)
  have "distinct (take (Suc (unat i)) (intset_vals s))" using dist by simp
  then have new: "?v \<notin> set (take (unat i) (intset_vals s))" unfolding tk by simp
  have "card (dom (dict_map d)) \<le> unat i"
    unfolding Suc.prems(3) by (rule order_trans [OF card_image_le]) (auto intro: order_trans [OF card_length])
  then have "card (dom (dict_map d)) < 2 ^ 60" using lt assms(3) by simp
  then obtain d' where d': "dictAdd (setDictType env) (se_rz env) () d (ll_str ?v) () = Some (d', ll_str ?v \<notin> dom (dict_map d))"
      "dict_good (setDictType env) d'" "dom (dict_map d') = insert (ll_str ?v) (dom (dict_map d))"
    using set_dictAdd [OF Suc.prems(2)] by blast
  have fresh: "ll_str ?v \<notin> dom (dict_map d)" using new unfolding Suc.prems(3) by auto
  have "convert_loop env (OBJ_ENCODING_INTSET s) (Pos_intset i) d = convert_loop env (OBJ_ENCODING_INTSET s) (Pos_intset (i + 1)) d'"
    using lt d'(1) fresh
    by (subst convert_loop.simps) (simp add: setTypeNext_def intsetGet_vals [OF inv] word_less_nat_alt sds_of_longlong_ok)
  moreover have "\<exists>d''. convert_loop env (OBJ_ENCODING_INTSET s) (Pos_intset (i + 1)) d' = Some d'' \<and>
      dict_good (setDictType env) d'' \<and> dom (dict_map d'') = ll_str ` intset_abs s"
    using Suc.hyps(2) lt ui d'(2,3) Suc.prems(3) tk by (intro Suc.hyps(1)) auto
  ultimately show ?case by simp
qed

lemma setTypeConvert_ok:
  assumes "intset_inv s" and "unat (is_length s) \<le> 2 ^ 29"
  shows "\<exists>d. setTypeConvert env (OBJ_ENCODING_INTSET s) = Some (OBJ_ENCODING_HT d) \<and> dict_good (setDictType env) d \<and>
    dom (dict_map d) = ll_str ` intset_abs s"
proof -
  obtain d ok where e: "dictExpand (dictCreate :: (buffer, unit) dict) (ucast (intsetLen s)) = (d, ok)" by fastforce
  note x = dictExpand_empty(1) [OF e, of env] dictExpand_empty(2) [OF e]
  have "\<exists>d'. convert_loop env (OBJ_ENCODING_INTSET s) (Pos_intset 0) d = Some d' \<and> dict_good (setDictType env) d' \<and>
      dom (dict_map d') = ll_str ` intset_abs s"
    using assms x by (intro convert_loop_ok) simp_all
  then show ?thesis by (auto simp: setTypeConvert_def setTypeInitIterator_def e)
qed

lemma card_ll: "card (ll_str ` X) = card X"
  by (rule card_image) (simp add: inj_on_def)

lemma unat_ucast_u32: "unat (ucast (w :: u32) :: u64) = unat w"
proof -
  have "unat w < 2 ^ LENGTH(32)" by (rule unsigned_less)
  then have "unat w < 2 ^ 64" by simp
  then show ?thesis by (simp add: unsigned_ucast_eq take_bit_nat_eq_self)
qed

lemma mem_ll: "ll_str v \<in> ll_str ` X \<longleftrightarrow> v \<in> X"
  by (rule inj_image_mem_iff [OF inj_ll_str])

lemma set_inv_cases:
  assumes "set_inv env ob"
  obtains (ht) d where "ob = OBJ_ENCODING_HT d" "dict_good (setDictType env) d"
  | (ints) s where "ob = OBJ_ENCODING_INTSET s" "intset_inv s" "unat (is_length s) \<le> intset_limit env"
  using assms by (cases ob) (auto simp: set_inv_def)

lemma setTypeAdd_ok:
  assumes "set_inv env ob" and room: "Suc (card (set_abs ob)) \<le> 2 ^ 29"
  shows "\<exists>ob'. setTypeAdd env ob val = Some (ob', val \<notin> set_abs ob) \<and> set_inv env ob' \<and> set_abs ob' = insert val (set_abs ob)"
  using assms(1)
proof (cases rule: set_inv_cases)
  case (ht d)
  have g: "dict_inv (setDictType env) d" "keys_by_equality (setDictType env)" using ht(2) by (auto simp: dict_good_def)
  have l: "length (dict_entries d) < 2 ^ 60" using room ht(1) card_dict_map(1) [OF g(1)] by (simp add: set_abs_def)
  from dictAddRaw_ok [OF g l, of "se_rz env" "()" val] show ?thesis
  proof (elim disjE exE conjE)
    fix d' r v
    assume a: "dictAddRaw (setDictType env) (se_rz env) () d val = Some (d', Inl (Some r))" "dict_inv (setDictType env) d'"
      "mset (dict_entries d') = mset (dict_entries d)" "dict_map d val = Some v"
    have "dict_map d' = dict_map d" by (rule mset_same(1) [OF g(1) a(3)])
    then show ?thesis using ht(1) a g(2) by (auto simp: setTypeAdd_def set_abs_def set_inv_def dict_good_def)
  next
    fix d1 r
    assume a: "dictAddRaw (setDictType env) (se_rz env) () d val = Some (d1, Inr r)" "dict_inv (setDictType env) d1"
      "mset (dict_entries d1) = add_mset (val, ()) (mset (dict_entries d))" "place_ok (setDictType env) d1 val r" "dict_map d val = None"
    obtain d' where d': "dictSetVal d1 r () = Some d'" "dict_inv (setDictType env) d'" "dict_map d' = (dict_map d1)(val \<mapsto> ())"
      using dictSetVal_ok [OF a(2,4), of "()"] by blast
    have "dom (dict_map d1) = insert val (dom (dict_map d))"
    proof -
      have "set (dict_entries d1) = insert (val, ()) (set (dict_entries d))"
        using a(3) by (metis set_mset_add_mset_insert set_mset_mset)
      then show ?thesis by (simp add: dict_map_def dom_map_of_conv_image_fst)
    qed
    then have "dom (dict_map d') = insert val (dom (dict_map d))" using d'(3) by auto
    then show ?thesis using ht(1) a(1,5) d'(1,2) g(2) by (auto simp: setTypeAdd_def set_abs_def set_inv_def dict_good_def)
  qed
next
  case (ints s)
  have cs: "unat (is_length s) < 2 ^ 29" using room ints card_intset_abs [OF ints(2)] by (simp add: set_abs_def card_ll)
  show ?thesis
  proof (cases "isSdsRepresentableAsLongLong val")
    case None
    obtain d where d: "setTypeConvert env (OBJ_ENCODING_INTSET s) = Some (OBJ_ENCODING_HT d)" "dict_good (setDictType env) d"
        "dom (dict_map d) = ll_str ` intset_abs s"
      using setTypeConvert_ok [OF ints(2), of env] cs by auto
    have "card (dom (dict_map d)) < 2 ^ 60" using d(3) cs card_intset_abs [OF ints(2)] by (simp add: card_ll)
    then obtain d' where d': "dictAdd (setDictType env) (se_rz env) () d val () = Some (d', val \<notin> dom (dict_map d))"
        "dict_good (setDictType env) d'" "dom (dict_map d') = insert val (dom (dict_map d))"
      using set_dictAdd [OF d(2)] by blast
    have "val \<notin> ll_str ` intset_abs s" using not_representable [OF None] by blast
    then show ?thesis using ints(1) None d d' by (auto simp: setTypeAdd_def set_abs_def set_inv_def)
  next
    case (Some llval)
    then have v: "val = ll_str llval" by (simp add: representable_iff)
    obtain s' where s': "intsetAdd (se_junk env) s llval = Some (s', llval \<notin> intset_abs s)" "intset_inv s'"
        "intset_abs s' = insert llval (intset_abs s)"
      using intsetAdd_inv [OF ints(2) cs] by blast
    have mem: "val \<in> ll_str ` intset_abs s \<longleftrightarrow> llval \<in> intset_abs s" unfolding v by (rule mem_ll)
    define mx :: u64 where "mx = (if push_bit 30 1 \<le> se_max env then push_bit 30 1 else se_max env)"
    have fin: "finite (intset_abs s)" by (simp add: intset_abs_def)
    have lim: "\<not> mx < ucast (intsetLen s') \<longleftrightarrow> unat (is_length s') \<le> intset_limit env"
      by (auto simp: mx_def intset_limit_def intsetLen_def word_less_nat_alt word_le_nat_alt push_bit_eq_mult unat_ucast_u32)
    have old: "unat (is_length s') \<le> intset_limit env" if "llval \<in> intset_abs s"
      using that ints(3) card_intset_abs [OF s'(2)] card_intset_abs [OF ints(2)] s'(3) by (simp add: insert_absorb)
    show ?thesis
    proof (cases "llval \<in> intset_abs s \<or> \<not> mx < ucast (intsetLen s')")
      case True
      then show ?thesis
        using ints(1) Some s' mem v lim old unfolding mx_def by (auto simp: setTypeAdd_def set_abs_def set_inv_def Let_def)
    next
      case False
      have "unat (is_length s') \<le> 2 ^ 29"
        using card_intset_abs [OF s'(2)] card_intset_abs [OF ints(2)] cs s'(3) fin False by (simp add: card_insert_if)
      then obtain d where d: "setTypeConvert env (OBJ_ENCODING_INTSET s') = Some (OBJ_ENCODING_HT d)" "dict_good (setDictType env) d"
          "dom (dict_map d) = ll_str ` intset_abs s'"
        using setTypeConvert_ok [OF s'(2), of env] by auto
      then show ?thesis
        using ints(1) Some s' mem v False unfolding mx_def by (auto simp: setTypeAdd_def set_abs_def set_inv_def Let_def)
    qed
  qed
qed

lemma dictResize_ok:
  assumes "dict_good ty d"
  shows "dict_good ty (fst (dictResize rz d))" and "dict_map (fst (dictResize rz d)) = dict_map d"
proof -
  have g: "dict_inv ty d" "keys_by_equality ty" using assms by (auto simp: dict_good_def)
  have x: "dict_good ty (fst (dictExpand d n)) \<and> dict_map (fst (dictExpand d n)) = dict_map d" for n
  proof -
    obtain d' b f where e: "priv_dictExpand d n None = (d', b, f)" by (metis prod_cases3)
    show ?thesis
      using priv_dictExpand_ok(1,2) [OF g(1) e] g(2) by (simp add: dictExpand_def e dict_good_def dict_map_def)
  qed
  show "dict_good ty (fst (dictResize rz d))" "dict_map (fst (dictResize rz d)) = dict_map d"
    using x assms by (simp_all add: dictResize_def Let_def)
qed

lemma setTypeRemove_ok:
  assumes "set_inv env ob" and room: "card (set_abs ob) \<le> 2 ^ 29"
  shows "\<exists>ob'. setTypeRemove env ob val = Some (ob', val \<in> set_abs ob) \<and> set_inv env ob' \<and> set_abs ob' = set_abs ob - {val}"
  using assms(1)
proof (cases rule: set_inv_cases)
  case (ht d)
  have g: "dict_inv (setDictType env) d" "keys_by_equality (setDictType env)" using ht(2) by (auto simp: dict_good_def)
  obtain d' where d': "dictGenericDelete (setDictType env) (se_rz env) d val = Some (d', map_option (Pair val) (dict_map d val))"
      "dict_inv (setDictType env) d'" "dict_map d' = (dict_map d)(val := None)"
    using dictGenericDelete_ok [OF g, of "se_rz env" val] by blast
  have good: "dict_good (setDictType env) d'" using d'(2) g(2) by (simp add: dict_good_def)
  define d2 where "d2 = (if htNeedsResize d' then fst (dictResize (se_rz env) d') else d')"
  have "dict_good (setDictType env) d2" "dict_map d2 = dict_map d'"
    using good dictResize_ok [OF good, of "se_rz env"] by (simp_all add: d2_def)
  then show ?thesis
    using ht(1) d'(1,3) good
    by (cases "dict_map d val") (auto simp: setTypeRemove_def dictDelete_def set_abs_def set_inv_def d2_def [symmetric])
next
  case (ints s)
  have cs: "unat (is_length s) \<le> 2 ^ 29" using room ints card_intset_abs [OF ints(2)] by (simp add: set_abs_def card_ll)
  show ?thesis
  proof (cases "isSdsRepresentableAsLongLong val")
    case None
    then have "val \<notin> ll_str ` intset_abs s" using not_representable [OF None] by blast
    then show ?thesis using ints None by (auto simp: setTypeRemove_def set_abs_def set_inv_def)
  next
    case (Some llval)
    then have v: "val = ll_str llval" by (simp add: representable_iff)
    obtain s' where s': "intsetRemove (se_junk env) s llval = Some (s', llval \<in> intset_abs s)" "intset_inv s'"
        "intset_abs s' = intset_abs s - {llval}"
      using intsetRemove_inv [OF ints(2) cs] by blast
    have "setTypeRemove env ob val = Some (OBJ_ENCODING_INTSET s', val \<in> set_abs ob)"
      using ints(1) Some s'(1) mem_ll [of llval "intset_abs s"] by (simp add: setTypeRemove_def set_abs_def v)
    moreover have "set_abs (OBJ_ENCODING_INTSET s') = set_abs ob - {val}"
      unfolding ints(1) v by (simp add: set_abs_def s'(3) image_set_diff inj_ll_str)
    moreover have "unat (is_length s') \<le> unat (is_length s)"
      using card_intset_abs [OF s'(2)] card_intset_abs [OF ints(2)] s'(3)
      by (metis card_Diff1_le)
    ultimately show ?thesis using s'(2) ints(3) by (simp add: set_inv_def)
  qed
qed

lemma place_dom: "dict_inv ty d \<Longrightarrow> place_ok ty d key r \<Longrightarrow> key \<in> dom (dict_map d)"
  by (cases r) (auto dest: place_entry(5))

lemma setTypeIsMember_ok:
  assumes "set_inv env ob" and room: "card (set_abs ob) \<le> 2 ^ 29"
  shows "\<exists>ob'. setTypeIsMember env ob val = Some (ob', val \<in> set_abs ob) \<and> set_inv env ob' \<and> set_abs ob' = set_abs ob"
  using assms(1)
proof (cases rule: set_inv_cases)
  case (ht d)
  have g: "dict_inv (setDictType env) d" "keys_by_equality (setDictType env)" using ht(2) by (auto simp: dict_good_def)
  obtain d' r where d': "dictFind (setDictType env) (se_rz env) d val = Some (d', r)" "dict_inv (setDictType env) d'"
      "mset (dict_entries d') = mset (dict_entries d)" "case r of None \<Rightarrow> dict_map d val = None | Some r \<Rightarrow> place_ok (setDictType env) d' val r"
    using dictFind_ok [OF g, of "se_rz env" val] by blast
  have same: "dict_map d' = dict_map d" by (rule mset_same(1) [OF g(1) d'(3)])
  have "r \<noteq> None \<longleftrightarrow> val \<in> dom (dict_map d)"
  proof (cases r)
    case None
    then show ?thesis using d'(4) by auto
  next
    case (Some x)
    then have "val \<in> dom (dict_map d')" using d'(4) place_dom [OF d'(2)] by simp
    then show ?thesis using Some same by simp
  qed
  then show ?thesis using ht(1) d'(1,2) same g(2) by (auto simp: setTypeIsMember_def set_abs_def set_inv_def dict_good_def)
next
  case (ints s)
  have cs: "unat (is_length s) \<le> 2 ^ 29" using room ints card_intset_abs [OF ints(2)] by (simp add: set_abs_def card_ll)
  show ?thesis
  proof (cases "isSdsRepresentableAsLongLong val")
    case None
    then have "val \<notin> ll_str ` intset_abs s" using not_representable [OF None] by blast
    then show ?thesis using ints None by (auto simp: setTypeIsMember_def set_abs_def set_inv_def)
  next
    case (Some llval)
    then have v: "val = ll_str llval" by (simp add: representable_iff)
    have "intsetFind s llval = Some (llval \<in> intset_abs s)"
      using intsetFind_irep [OF inv_irep [OF ints(2)], of llval] cs by simp
    then show ?thesis
      using ints Some mem_ll [of llval "intset_abs s"] by (simp add: setTypeIsMember_def set_abs_def set_inv_def v)
  qed
qed

interpretation tset: set_impl "set_inv env" set_abs "\<lambda>n. n \<le> 2 ^ 29"
    "setTypeAdd env" "setTypeRemove env" "setTypeIsMember env"
  for env :: set_env
proof unfold_locales
  fix ob val assume i: "set_inv env ob"
  show "finite (set_abs ob)"
    using i by (cases rule: set_inv_cases) (auto simp: set_abs_def intset_abs_def dict_room)
  show "\<exists>s'. setTypeAdd env ob val = Some (s', val \<notin> set_abs ob) \<and> set_inv env s' \<and> set_abs s' = insert val (set_abs ob)"
    if "Suc (card (set_abs ob)) \<le> 2 ^ 29" by (rule setTypeAdd_ok [OF i that])
  show "\<exists>s'. setTypeRemove env ob val = Some (s', val \<in> set_abs ob) \<and> set_inv env s' \<and> set_abs s' = set_abs ob - {val}"
    if "card (set_abs ob) \<le> 2 ^ 29" by (rule setTypeRemove_ok [OF i that])
  show "\<exists>s'. setTypeIsMember env ob val = Some (s', val \<in> set_abs ob) \<and> set_inv env s' \<and> set_abs s' = set_abs ob"
    if "card (set_abs ob) \<le> 2 ^ 29" by (rule setTypeIsMember_ok [OF i that])
qed simp

lemma setTypeCreate_inv: "set_inv env (setTypeCreate val)" "set_abs (setTypeCreate val) = {}"
proof -
  have d: "dict_good (setDictType env) (dictCreate :: (buffer, unit) dict)" "dict_map (dictCreate :: (buffer, unit) dict) = Map.empty"
    by (rule dictCreate_good [OF setDictType_keys])+
  have z: "is_length intsetNew = 0" by (simp add: intsetNew_def)
  show "set_inv env (setTypeCreate val)" "set_abs (setTypeCreate val) = {}"
    using d intsetNew_inv z
    by (simp_all add: setTypeCreate_def createIntsetObject_def createSetObject_def set_inv_def set_abs_def)
qed



section \<open>Size and duplication\<close>

lemma setTypeSize_ok:
  assumes "set_inv env ob"
  shows "unat (setTypeSize ob) = card (set_abs ob)"
  using assms
proof (cases rule: set_inv_cases)
  case (ht d)
  have g: "dict_inv (setDictType env) d" using ht(2) by (simp add: dict_good_def)
  show ?thesis using ht(1) dictSize_entries [OF g] card_dict_map(1) [OF g] by (simp add: setTypeSize_def set_abs_def)
next
  case (ints s)
  then show ?thesis using card_intset_abs [OF ints(2)]
    by (simp add: setTypeSize_def set_abs_def card_ll intsetLen_def unat_ucast_u32)
qed

lemma blob_roundtrip: "intset_of_blob (blob_of_intset s) = s"
  by (simp add: intset_of_blob_def blob_of_intset_def le_dec_enc)

lemma blob_length:
  assumes "intset_inv s"
  shows "unat (intsetBlobLen s) = length (blob_of_intset s)"
proof -
  have e: "unat (is_encoding s) \<le> 8" and l: "length (is_contents s) = unat (is_encoding s) * unat (is_length s)"
    using assms by (auto simp: intset_inv_def enc_ok_def)
  have n: "unat (is_length s) < 2 ^ LENGTH(32)" by (rule unsigned_less)
  then have "unat (is_length s) * unat (is_encoding s) \<le> 2 ^ 32 * 8" using e by (intro mult_le_mono) simp_all
  then have "unat (intsetBlobLen s) = 8 + unat (is_length s) * unat (is_encoding s)"
    by (simp add: intsetBlobLen_def unat_word_ariths unat_ucast_u32)
  then show ?thesis by (simp add: blob_of_intset_def l mult.commute)
qed

lemma dup_loop_ok:
  assumes "dict_inv ty d" and "next_post d es (dictNext fp d di)" and "set_inv env acc" and "card (set_abs acc) + length es \<le> 2 ^ 29"
  shows "\<exists>acc'. dup_loop env fp (OBJ_ENCODING_HT d) (Pos_ht di) acc = Some acc' \<and> set_inv env acc' \<and>
    set_abs acc' = set_abs acc \<union> fst ` set es \<and> ((\<exists>h. acc = OBJ_ENCODING_HT h) \<longrightarrow> (\<exists>h. acc' = OBJ_ENCODING_HT h))"
  using assms
proof (induction es arbitrary: d di acc)
  case Nil
  then show ?case by (subst dup_loop.simps) (auto simp: next_post_def setTypeNext_def)
next
  case (Cons e es)
  obtain d' di' where n: "dictNext fp d di = Some (d', di', Some e)" "same_tables d d'"
      "it_entry di' = Some e" "it_ok d di'" "0 \<le> it_index di'" "it_next di' @ it_rest d di' = es"
    using Cons.prems(2) by (auto simp: next_post_def)
  note eqs = same_tables_simps [OF n(2)]
  obtain k v where e: "e = (k, v)" by (cases e)
  obtain acc1 where a: "setTypeAdd env acc k = Some (acc1, k \<notin> set_abs acc)" "set_inv env acc1" "set_abs acc1 = insert k (set_abs acc)"
    using setTypeAdd_ok [OF Cons.prems(3), of k] Cons.prems(4) by auto
  have "finite (set_abs acc)" by (rule tset.abs_finite [OF Cons.prems(3)])
  then have c: "card (set_abs acc1) + length es \<le> 2 ^ 29" using Cons.prems(4) a(3) by (simp add: card_insert_if)
  have "next_post d' (it_next di' @ it_rest d' di') (dictNext fp d' di')"
    using Cons.prems(1) n(3-5) by (intro dictNext_some) (simp_all add: eqs)
  then have "\<exists>acc'. dup_loop env fp (OBJ_ENCODING_HT d') (Pos_ht di') acc1 = Some acc' \<and> set_inv env acc' \<and>
      set_abs acc' = set_abs acc1 \<union> fst ` set es \<and> ((\<exists>h. acc1 = OBJ_ENCODING_HT h) \<longrightarrow> (\<exists>h. acc' = OBJ_ENCODING_HT h))"
    using Cons.prems(1) n(6) a(2) c by (intro Cons.IH) (simp_all add: eqs)
  moreover have "dup_loop env fp (OBJ_ENCODING_HT d) (Pos_ht di) acc = dup_loop env fp (OBJ_ENCODING_HT d') (Pos_ht di') acc1"
    using n(1) a(1) e by (subst dup_loop.simps) (simp add: setTypeNext_def)
  moreover have "\<exists>h. acc1 = OBJ_ENCODING_HT h" if "acc = OBJ_ENCODING_HT h0" for h0
    using a(1) that by (auto simp: setTypeAdd_def split: Option.bind_splits sum.splits)
  ultimately show ?case using a(3) e by auto
qed



end
