(* ===== verification/Redis_Listpack.thy ===== *)
theory Redis_Listpack
  imports Redis_Util
begin

text \<open>
  Listpacks, \<open>listpack.c\<close>: a list of strings and integers serialised into one block of memory. The
  block is a byte list, its length is the usable size of the allocation, and a pointer into it is
  an offset. \<open>None\<close> is a failed assertion or an access outside the block. The entries carry their
  length in front and, in a reversed variable length code, behind, so that a listpack can be walked
  in both directions.
\<close>

section \<open>Constants and header\<close>

definition LP_HDR_SIZE :: nat where "LP_HDR_SIZE = 6"
definition LP_HDR_NUMELE_UNKNOWN :: u32 where "LP_HDR_NUMELE_UNKNOWN = 65535"
definition LP_INTBUF_SIZE :: nat where "LP_INTBUF_SIZE = 21"
definition LP_EOF :: byte where "LP_EOF = 0xFF"
definition UINT32_MAX :: u64 where "UINT32_MAX = 0xFFFFFFFF"
definition UINT64_MAX :: u64 where "UINT64_MAX = 0xFFFFFFFFFFFFFFFF"
definition LISTPACK_MAX_SAFETY_SIZE :: u64 where "LISTPACK_MAX_SAFETY_SIZE = push_bit 30 1"

definition LP_ENCODING_IS_7BIT_UINT :: "byte \<Rightarrow> bool" where "LP_ENCODING_IS_7BIT_UINT b \<longleftrightarrow> b AND 0x80 = 0"
definition LP_ENCODING_IS_6BIT_STR :: "byte \<Rightarrow> bool" where "LP_ENCODING_IS_6BIT_STR b \<longleftrightarrow> b AND 0xC0 = 0x80"
definition LP_ENCODING_IS_13BIT_INT :: "byte \<Rightarrow> bool" where "LP_ENCODING_IS_13BIT_INT b \<longleftrightarrow> b AND 0xE0 = 0xC0"
definition LP_ENCODING_IS_12BIT_STR :: "byte \<Rightarrow> bool" where "LP_ENCODING_IS_12BIT_STR b \<longleftrightarrow> b AND 0xF0 = 0xE0"
definition LP_ENCODING_IS_16BIT_INT :: "byte \<Rightarrow> bool" where "LP_ENCODING_IS_16BIT_INT b \<longleftrightarrow> b AND 0xFF = 0xF1"
definition LP_ENCODING_IS_24BIT_INT :: "byte \<Rightarrow> bool" where "LP_ENCODING_IS_24BIT_INT b \<longleftrightarrow> b AND 0xFF = 0xF2"
definition LP_ENCODING_IS_32BIT_INT :: "byte \<Rightarrow> bool" where "LP_ENCODING_IS_32BIT_INT b \<longleftrightarrow> b AND 0xFF = 0xF3"
definition LP_ENCODING_IS_64BIT_INT :: "byte \<Rightarrow> bool" where "LP_ENCODING_IS_64BIT_INT b \<longleftrightarrow> b AND 0xFF = 0xF4"
definition LP_ENCODING_IS_32BIT_STR :: "byte \<Rightarrow> bool" where "LP_ENCODING_IS_32BIT_STR b \<longleftrightarrow> b AND 0xFF = 0xF0"

definition LP_ENCODING_6BIT_STR_LEN :: "buffer \<Rightarrow> nat \<Rightarrow> u32 option" where
  "LP_ENCODING_6BIT_STR_LEN lp p = do { b \<leftarrow> rd lp p; Some (ucast (b AND 0x3F)) }"

definition LP_ENCODING_12BIT_STR_LEN :: "buffer \<Rightarrow> nat \<Rightarrow> u32 option" where
  "LP_ENCODING_12BIT_STR_LEN lp p =
     do { b \<leftarrow> rd lp p; b1 \<leftarrow> rd lp (p + 1); Some (push_bit 8 (ucast (b AND 0xF)) OR ucast b1) }"

definition LP_ENCODING_32BIT_STR_LEN :: "buffer \<Rightarrow> nat \<Rightarrow> u32 option" where
  "LP_ENCODING_32BIT_STR_LEN lp p = do { bs \<leftarrow> rdn lp (p + 1) 4; Some (le_dec bs) }"

definition lpGetTotalBytes :: "buffer \<Rightarrow> u32 option" where
  "lpGetTotalBytes lp = do { bs \<leftarrow> rdn lp 0 4; Some (le_dec bs) }"

definition lpGetNumElements :: "buffer \<Rightarrow> u32 option" where
  "lpGetNumElements lp = do { bs \<leftarrow> rdn lp 4 2; Some (le_dec bs) }"

definition lpSetTotalBytes :: "buffer \<Rightarrow> u64 \<Rightarrow> buffer option" where
  "lpSetTotalBytes lp v = wrn lp 0 (le_enc 4 v)"

definition lpSetNumElements :: "buffer \<Rightarrow> u64 \<Rightarrow> buffer option" where
  "lpSetNumElements lp v = wrn lp 4 (le_enc 2 v)"

definition lpBytes :: "buffer \<Rightarrow> u64 option" where
  "lpBytes lp = do { n \<leftarrow> lpGetTotalBytes lp; Some (ucast n) }"

definition ASSERT_INTEGRITY :: "buffer \<Rightarrow> nat \<Rightarrow> unit option" where
  "ASSERT_INTEGRITY lp p =
     do { n \<leftarrow> lpGetTotalBytes lp; if LP_HDR_SIZE \<le> p \<and> p < unat n then Some () else None }"

definition ASSERT_INTEGRITY_LEN :: "buffer \<Rightarrow> nat \<Rightarrow> u32 \<Rightarrow> unit option" where
  "ASSERT_INTEGRITY_LEN lp p len =
     do { n \<leftarrow> lpGetTotalBytes lp; if LP_HDR_SIZE \<le> p \<and> p + unat len < unat n then Some () else None }"

text \<open>A null pointer is \<open>None\<close>.\<close>

definition lpSafeToAdd :: "buffer option \<Rightarrow> u64 \<Rightarrow> bool option" where
  "lpSafeToAdd lp add =
     do {
       len \<leftarrow> (case lp of None \<Rightarrow> Some 0 | Some lp \<Rightarrow> lpBytes lp);
       Some (\<not> LISTPACK_MAX_SAFETY_SIZE < len + add)
     }"

text \<open>
  The allocator: how many bytes more than requested a block has, and what fresh memory holds. A
  request that cannot be satisfied aborts the server, so the allocation functions return no null
  pointer.
\<close>

record lp_alloc =
  lp_slack :: "nat \<Rightarrow> nat"
  lp_junk :: "nat \<Rightarrow> byte"

definition lp_malloc :: "lp_alloc \<Rightarrow> nat \<Rightarrow> buffer" where
  "lp_malloc al n = map (lp_junk al) [0..<n + lp_slack al n]"

definition lp_realloc :: "lp_alloc \<Rightarrow> buffer \<Rightarrow> nat \<Rightarrow> buffer" where
  "lp_realloc al lp n = take n lp @ map (lp_junk al) [min n (length lp)..<n + lp_slack al n]"

definition memmove :: "buffer \<Rightarrow> nat \<Rightarrow> nat \<Rightarrow> nat \<Rightarrow> buffer option" where
  "memmove m dst src n = do { xs \<leftarrow> rdn m src n; wrn m dst xs }"

definition lpNew :: "lp_alloc \<Rightarrow> u64 \<Rightarrow> buffer option" where
  "lpNew al capacity =
     do {
       let lp = lp_malloc al (if LP_HDR_SIZE + 1 < unat capacity then unat capacity else LP_HDR_SIZE + 1);
       lp \<leftarrow> lpSetTotalBytes lp (of_nat (LP_HDR_SIZE + 1));
       lp \<leftarrow> lpSetNumElements lp 0;
       wr lp LP_HDR_SIZE LP_EOF
     }"

definition lpShrinkToFit :: "lp_alloc \<Rightarrow> buffer \<Rightarrow> buffer option" where
  "lpShrinkToFit al lp =
     do {
       size \<leftarrow> lpGetTotalBytes lp;
       Some (if unat size < length lp then lp_realloc al lp (unat size) else lp)
     }"

section \<open>Encoding\<close>

text \<open>The digit loop is that of \<open>string2ll\<close>; \<open>None\<close> is the return value 0.\<close>

definition lpStringToInt64 :: "buffer \<Rightarrow> u64 option" where
  "lpStringToInt64 s =
     (if length s = 0 \<or> LONG_STR_SIZE \<le> length s then None
      else if length s = 1 \<and> hd s = ch (CHR ''0'') then Some 0
      else
        let negative = (hd s = ch (CHR ''-'')); p = (if negative then tl s else s) in
        if negative \<and> length s = 1 then None
        else if ch (CHR ''1'') \<le> hd p \<and> hd p \<le> ch (CHR ''9'') then
          (case string2ll_loop (tl p) (ucast (hd p - ch (CHR ''0''))) of
             None \<Rightarrow> None
           | Some (v, rest) \<Rightarrow>
               if rest \<noteq> [] then None
               else if negative then (if LLONG_MIN < v then None else Some (- v))
               else if LLONG_MAX < v then None
               else Some v)
        else None)"

text \<open>The bytes of \<open>intenc\<close>; \<open>enclen\<close> is their number.\<close>

definition lpEncodeIntegerGetType :: "u64 \<Rightarrow> buffer" where
  "lpEncodeIntegerGetType v =
     (if 0 \<le>s v \<and> v \<le>s 127 then [ucast v]
      else if - 4096 \<le>s v \<and> v \<le>s 4095 then
        (let v = (if v <s 0 then push_bit 13 1 + v else v)
         in [ucast (drop_bit 8 v) OR 0xC0, ucast (v AND 0xff)])
      else if - 32768 \<le>s v \<and> v \<le>s 32767 then
        (let v = (if v <s 0 then push_bit 16 1 + v else v)
         in [0xF1, ucast (v AND 0xff), ucast (drop_bit 8 v)])
      else if - 8388608 \<le>s v \<and> v \<le>s 8388607 then
        (let v = (if v <s 0 then push_bit 24 1 + v else v)
         in [0xF2, ucast (v AND 0xff), ucast (drop_bit 8 v AND 0xff), ucast (drop_bit 16 v)])
      else if - 2147483648 \<le>s v \<and> v \<le>s 2147483647 then
        (let v = (if v <s 0 then push_bit 32 1 + v else v)
         in [0xF3, ucast (v AND 0xff), ucast (drop_bit 8 v AND 0xff), ucast (drop_bit 16 v AND 0xff),
             ucast (drop_bit 24 v)])
      else 0xF4 # map (\<lambda>i. ucast (drop_bit (8 * i) v AND 0xff)) [0..<8])"

text \<open>The integer encoding if there is one, and the length of the encoded element.\<close>

definition lpEncodeGetType :: "buffer \<Rightarrow> u32 \<Rightarrow> buffer option \<times> u64" where
  "lpEncodeGetType ele sz =
     (case lpStringToInt64 (take (unat sz) ele) of
        Some v \<Rightarrow> let intenc = lpEncodeIntegerGetType v in (Some intenc, of_nat (length intenc))
      | None \<Rightarrow>
          (None, if sz < 64 then 1 + ucast sz else if sz < 4096 then 2 + ucast sz else 5 + ucast sz))"

text \<open>The bytes stored in \<open>buf\<close>; the return value is their number.\<close>

definition lpEncodeBacklen :: "u64 \<Rightarrow> buffer" where
  "lpEncodeBacklen l =
     (if l \<le> 127 then [ucast l]
      else if l < 16383 then [ucast (drop_bit 7 l), ucast ((l AND 127) OR 128)]
      else if l < 2097151 then
        [ucast (drop_bit 14 l), ucast ((drop_bit 7 l AND 127) OR 128), ucast ((l AND 127) OR 128)]
      else if l < 268435455 then
        [ucast (drop_bit 21 l), ucast ((drop_bit 14 l AND 127) OR 128), ucast ((drop_bit 7 l AND 127) OR 128),
         ucast ((l AND 127) OR 128)]
      else
        [ucast (drop_bit 28 l), ucast ((drop_bit 21 l AND 127) OR 128), ucast ((drop_bit 14 l AND 127) OR 128),
         ucast ((drop_bit 7 l AND 127) OR 128), ucast ((l AND 127) OR 128)])"

abbreviation backlen_size :: "u64 \<Rightarrow> u64" where
  "backlen_size l \<equiv> of_nat (length (lpEncodeBacklen l))"

function decode_backlen :: "buffer \<Rightarrow> nat \<Rightarrow> u64 \<Rightarrow> nat \<Rightarrow> u64 option" where
  "decode_backlen lp p val shift =
     do {
       b \<leftarrow> rd lp p;
       let val = val OR push_bit shift (ucast (b AND 127));
       if b AND 128 = 0 then Some val
       else if 28 < shift + 7 then Some UINT64_MAX
       else if p = 0 then None
       else decode_backlen lp (p - 1) val (shift + 7)
     }"
  by pat_completeness auto
termination
  by (relation "measure (\<lambda>(lp, p, val, shift). 28 - shift)") auto

declare decode_backlen.simps [simp del]

definition lpDecodeBacklen :: "buffer \<Rightarrow> nat \<Rightarrow> u64 option" where
  "lpDecodeBacklen lp p = decode_backlen lp p 0 0"

definition lpEncodeString :: "buffer \<Rightarrow> nat \<Rightarrow> buffer \<Rightarrow> u32 \<Rightarrow> buffer option" where
  "lpEncodeString lp buf s len =
     do {
       let hdr = (if len < 64 then [ucast (len OR 0x80)]
                  else if len < 4096 then [ucast (drop_bit 8 len OR 0xE0), ucast (len AND 0xff)]
                  else 0xF0 # map (\<lambda>i. ucast (drop_bit (8 * i) len AND 0xff)) [0..<4]);
       lp \<leftarrow> wrn lp buf hdr;
       xs \<leftarrow> rdn s 0 (unat len);
       wrn lp (buf + length hdr) xs
     }"

section \<open>Traversal\<close>

definition lpCurrentEncodedSizeUnsafe :: "buffer \<Rightarrow> nat \<Rightarrow> u32 option" where
  "lpCurrentEncodedSizeUnsafe lp p =
     do {
       b \<leftarrow> rd lp p;
       if LP_ENCODING_IS_7BIT_UINT b then Some 1
       else if LP_ENCODING_IS_6BIT_STR b then do { n \<leftarrow> LP_ENCODING_6BIT_STR_LEN lp p; Some (1 + n) }
       else if LP_ENCODING_IS_13BIT_INT b then Some 2
       else if LP_ENCODING_IS_16BIT_INT b then Some 3
       else if LP_ENCODING_IS_24BIT_INT b then Some 4
       else if LP_ENCODING_IS_32BIT_INT b then Some 5
       else if LP_ENCODING_IS_64BIT_INT b then Some 9
       else if LP_ENCODING_IS_12BIT_STR b then do { n \<leftarrow> LP_ENCODING_12BIT_STR_LEN lp p; Some (2 + n) }
       else if LP_ENCODING_IS_32BIT_STR b then do { n \<leftarrow> LP_ENCODING_32BIT_STR_LEN lp p; Some (5 + n) }
       else if b = LP_EOF then Some 1
       else Some 0
     }"

definition lpCurrentEncodedSizeBytes :: "buffer \<Rightarrow> nat \<Rightarrow> u32 option" where
  "lpCurrentEncodedSizeBytes lp p =
     do {
       b \<leftarrow> rd lp p;
       if LP_ENCODING_IS_7BIT_UINT b then Some 1
       else if LP_ENCODING_IS_6BIT_STR b then Some 1
       else if LP_ENCODING_IS_13BIT_INT b then Some 1
       else if LP_ENCODING_IS_16BIT_INT b then Some 1
       else if LP_ENCODING_IS_24BIT_INT b then Some 1
       else if LP_ENCODING_IS_32BIT_INT b then Some 1
       else if LP_ENCODING_IS_64BIT_INT b then Some 1
       else if LP_ENCODING_IS_12BIT_STR b then Some 2
       else if LP_ENCODING_IS_32BIT_STR b then Some 5
       else if b = LP_EOF then Some 1
       else Some 0
     }"

definition lpSkip :: "buffer \<Rightarrow> nat \<Rightarrow> nat option" where
  "lpSkip lp p =
     do {
       n \<leftarrow> lpCurrentEncodedSizeUnsafe lp p;
       let entrylen = (ucast n :: u64);
       let entrylen = entrylen + backlen_size entrylen;
       Some (p + unat entrylen)
     }"

text \<open>The return value and the new value of \<open>*pp\<close>.\<close>

definition lpValidateNext :: "buffer \<Rightarrow> nat option \<Rightarrow> nat \<Rightarrow> (bool \<times> nat option) option" where
  "lpValidateNext lp pp lpbytes =
     (let out_of_range = (\<lambda>p. p < LP_HDR_SIZE \<or> lpbytes < p + 1) in
      case pp of
        None \<Rightarrow> Some (False, pp)
      | Some p \<Rightarrow>
          if out_of_range p then Some (False, pp)
          else do {
            b \<leftarrow> rd lp p;
            if b = LP_EOF then Some (True, None)
            else do {
              lenbytes \<leftarrow> lpCurrentEncodedSizeBytes lp p;
              if lenbytes = 0 then Some (False, pp)
              else if out_of_range (p + unat lenbytes) then Some (False, pp)
              else do {
                n \<leftarrow> lpCurrentEncodedSizeUnsafe lp p;
                let entrylen = (ucast n :: u64);
                let encodedBacklen = backlen_size entrylen;
                let entrylen = entrylen + encodedBacklen;
                if out_of_range (p + unat entrylen) then Some (False, pp)
                else do {
                  let p = p + unat entrylen;
                  prevlen \<leftarrow> lpDecodeBacklen lp (p - 1);
                  if prevlen + encodedBacklen \<noteq> entrylen then Some (False, pp)
                  else Some (True, Some p)
                }
              }
            }
          })"

definition lpAssertValidEntry :: "buffer \<Rightarrow> nat \<Rightarrow> nat \<Rightarrow> unit option" where
  "lpAssertValidEntry lp lpbytes p =
     do { (ok, _) \<leftarrow> lpValidateNext lp (Some p) lpbytes; if ok then Some () else None }"

text \<open>A returned null pointer is \<open>Some None\<close>.\<close>

definition lpNext :: "buffer \<Rightarrow> nat \<Rightarrow> nat option option" where
  "lpNext lp p =
     do {
       p \<leftarrow> lpSkip lp p;
       b \<leftarrow> rd lp p;
       if b = LP_EOF then Some None
       else do { bytes \<leftarrow> lpBytes lp; lpAssertValidEntry lp (unat bytes) p; Some (Some p) }
     }"

definition lpPrev :: "buffer \<Rightarrow> nat \<Rightarrow> nat option option" where
  "lpPrev lp p =
     (if p = LP_HDR_SIZE then Some None
      else if p = 0 then None
      else do {
        let p = p - 1;
        prevlen \<leftarrow> lpDecodeBacklen lp p;
        let prevlen = prevlen + backlen_size prevlen;
        if p < unat (prevlen - 1) then None
        else do {
          let p = p - unat (prevlen - 1);
          bytes \<leftarrow> lpBytes lp;
          lpAssertValidEntry lp (unat bytes) p;
          Some (Some p)
        }
      })"

definition lpFirst :: "buffer \<Rightarrow> nat option option" where
  "lpFirst lp =
     do {
       let p = LP_HDR_SIZE;
       b \<leftarrow> rd lp p;
       if b = LP_EOF then Some None
       else do { bytes \<leftarrow> lpBytes lp; lpAssertValidEntry lp (unat bytes) p; Some (Some p) }
     }"

definition lpLast :: "buffer \<Rightarrow> nat option option" where
  "lpLast lp = do { n \<leftarrow> lpGetTotalBytes lp; if n = 0 then None else lpPrev lp (unat n - 1) }"

partial_function (option) length_loop :: "buffer \<Rightarrow> nat option \<Rightarrow> u32 \<Rightarrow> u32 option" where
  "length_loop lp p count =
     (case p of
        None \<Rightarrow> Some count
      | Some p \<Rightarrow> do { p \<leftarrow> lpNext lp p; length_loop lp p (count + 1) })"

definition lpLength :: "buffer \<Rightarrow> (buffer \<times> u64) option" where
  "lpLength lp =
     do {
       numele \<leftarrow> lpGetNumElements lp;
       if numele \<noteq> LP_HDR_NUMELE_UNKNOWN then Some (lp, ucast numele)
       else do {
         p \<leftarrow> lpFirst lp;
         count \<leftarrow> length_loop lp p 0;
         lp \<leftarrow> (if count < LP_HDR_NUMELE_UNKNOWN then lpSetNumElements lp (ucast count) else Some lp);
         Some (lp, ucast count)
       }
     }"

text \<open>
  The index is a \<open>long\<close>; no operation on it leaves the range, so it is an integer here.
\<close>

fun seek_forward :: "buffer \<Rightarrow> nat option \<Rightarrow> nat \<Rightarrow> nat option option" where
  "seek_forward lp (Some ele) (Suc n) = do { ele \<leftarrow> lpNext lp ele; seek_forward lp ele n }"
| "seek_forward lp ele _ = Some ele"

fun seek_backward :: "buffer \<Rightarrow> nat option \<Rightarrow> nat \<Rightarrow> nat option option" where
  "seek_backward lp (Some ele) (Suc n) = do { ele \<leftarrow> lpPrev lp ele; seek_backward lp ele n }"
| "seek_backward lp ele _ = Some ele"

definition lpSeek :: "buffer \<Rightarrow> int \<Rightarrow> nat option option" where
  "lpSeek lp index =
     do {
       n \<leftarrow> lpGetNumElements lp;
       let numele = uint n;
       let known = (n \<noteq> LP_HDR_NUMELE_UNKNOWN);
       let index = (if known \<and> index < 0 then numele + index else index);
       if known \<and> (index < 0 \<or> numele \<le> index) then Some None
       else do {
         let forward = (if known then \<not> numele div 2 < index else \<not> index < 0);
         let index = (if known \<and> \<not> forward then index - numele else index);
         if forward then do { ele \<leftarrow> lpFirst lp; seek_forward lp ele (nat index) }
         else do { ele \<leftarrow> lpLast lp; seek_backward lp ele (nat (- 1 - index)) }
       }
     }"

section \<open>Reading elements\<close>

text \<open>
  What \<open>lpGet\<close> returns: a pointer into the listpack with the length, an integer, or with an
  \<open>intbuf\<close> the filled buffer with the length.
\<close>

datatype lp_val = LV_str nat u64 | LV_int u64 | LV_buf buffer u64

definition get_integer :: "u64 \<Rightarrow> u64 \<Rightarrow> u64 \<Rightarrow> u64" where
  "get_integer uval negstart negmax = (if negstart \<le> uval then - (negmax - uval) - 1 else uval)"

text \<open>The second result is \<open>entry_size\<close>, which is not set for an unknown encoding.\<close>

definition lpGetWithSize :: "buffer \<Rightarrow> nat \<Rightarrow> buffer option \<Rightarrow> (lp_val \<times> u64 option) option" where
  "lpGetWithSize lp p intbuf =
     do {
       let integer = (\<lambda>uval negstart negmax entry_size.
         let val = get_integer uval negstart negmax in
         case intbuf of
           None \<Rightarrow> Some (LV_int val, entry_size)
         | Some buf \<Rightarrow> do { (buf, count) \<leftarrow> ll2string buf LP_INTBUF_SIZE val; Some (LV_buf buf (ucast count), entry_size) });
       b \<leftarrow> rd lp p;
       if LP_ENCODING_IS_7BIT_UINT b then integer (ucast (b AND 0x7f)) UINT64_MAX 0 (Some 2)
       else if LP_ENCODING_IS_6BIT_STR b then do {
         n \<leftarrow> LP_ENCODING_6BIT_STR_LEN lp p;
         let count = (ucast n :: u64);
         Some (LV_str (p + 1) count, Some (1 + count + backlen_size (count + 1)))
       }
       else if LP_ENCODING_IS_13BIT_INT b then do {
         b1 \<leftarrow> rd lp (p + 1);
         integer (push_bit 8 (ucast (b AND 0x1f)) OR ucast b1) (push_bit 12 1) 8191 (Some 3)
       }
       else if LP_ENCODING_IS_16BIT_INT b then do {
         bs \<leftarrow> rdn lp (p + 1) 2; integer (le_dec bs) (push_bit 15 1) 0xFFFF (Some 4)
       }
       else if LP_ENCODING_IS_24BIT_INT b then do {
         bs \<leftarrow> rdn lp (p + 1) 3; integer (le_dec bs) (push_bit 23 1) 0xFFFFFF (Some 5)
       }
       else if LP_ENCODING_IS_32BIT_INT b then do {
         bs \<leftarrow> rdn lp (p + 1) 4; integer (le_dec bs) (push_bit 31 1) 0xFFFFFFFF (Some 6)
       }
       else if LP_ENCODING_IS_64BIT_INT b then do {
         bs \<leftarrow> rdn lp (p + 1) 8; integer (le_dec bs) (push_bit 63 1) UINT64_MAX (Some 10)
       }
       else if LP_ENCODING_IS_12BIT_STR b then do {
         n \<leftarrow> LP_ENCODING_12BIT_STR_LEN lp p;
         let count = (ucast n :: u64);
         Some (LV_str (p + 2) count, Some (2 + count + backlen_size (count + 2)))
       }
       else if LP_ENCODING_IS_32BIT_STR b then do {
         n \<leftarrow> LP_ENCODING_32BIT_STR_LEN lp p;
         let count = (ucast n :: u64);
         Some (LV_str (p + 5) count, Some (5 + count + backlen_size (count + 5)))
       }
       else integer (12345678900000000 + ucast b) UINT64_MAX 0 None
     }"

definition lpGet :: "buffer \<Rightarrow> nat \<Rightarrow> buffer option \<Rightarrow> lp_val option" where
  "lpGet lp p intbuf = do { (v, _) \<leftarrow> lpGetWithSize lp p intbuf; Some v }"

text \<open>A pointer with the length as \<open>unsigned int\<close>, or the integer.\<close>

definition lpGetValue :: "buffer \<Rightarrow> nat \<Rightarrow> (nat \<times> u32 + u64) option" where
  "lpGetValue lp p =
     do {
       v \<leftarrow> lpGet lp p None;
       case v of
         LV_str vstr ele_len \<Rightarrow> Some (Inl (vstr, ucast ele_len))
       | LV_int ele_len \<Rightarrow> Some (Inr ele_len)
       | LV_buf _ _ \<Rightarrow> None
     }"

definition lpCompare :: "buffer \<Rightarrow> nat \<Rightarrow> buffer \<Rightarrow> u32 \<Rightarrow> bool option" where
  "lpCompare lp p s slen =
     do {
       b \<leftarrow> rd lp p;
       if b = LP_EOF then Some False
       else do {
         v \<leftarrow> lpGet lp p None;
         case v of
           LV_str vstr sz \<Rightarrow>
             if ucast slen = sz then do { xs \<leftarrow> rdn lp vstr (unat slen); ys \<leftarrow> rdn s 0 (unat slen); Some (xs = ys) }
             else Some False
         | LV_int sz \<Rightarrow>
             (case lpStringToInt64 (take (unat slen) s) of Some sval \<Rightarrow> Some (sz = sval) | None \<Rightarrow> Some False)
         | LV_buf _ _ \<Rightarrow> None
       }
     }"

text \<open>
  \<open>venc\<close> is \<open>None\<close> while \<open>vencoding\<close> is 0, \<open>Some None\<close> when it is \<open>UCHAR_MAX\<close> and \<open>Some (Some vll)\<close>
  when it is 1. The comparison of one entry gives whether it matches, \<open>venc\<close> and \<open>entry_size\<close>.
\<close>

definition find_compare :: "buffer \<Rightarrow> nat \<Rightarrow> buffer \<Rightarrow> u32 \<Rightarrow> nat \<Rightarrow> u64 option option \<Rightarrow> u64 \<Rightarrow>
    (bool \<times> u64 option option \<times> u64) option" where
  "find_compare lp p s slen lp_bytes venc entry_size =
     do {
       (v, es) \<leftarrow> lpGetWithSize lp p None;
       let entry_size = (case es of Some e \<Rightarrow> e | None \<Rightarrow> entry_size);
       case v of
         LV_str vstr ll \<Rightarrow>
           if LP_HDR_SIZE \<le> p \<and> p + unat entry_size < lp_bytes then
             if ucast slen = ll then do {
               xs \<leftarrow> rdn lp vstr (unat slen);
               ys \<leftarrow> rdn s 0 (unat slen);
               Some (xs = ys, venc, entry_size)
             }
             else Some (False, venc, entry_size)
           else None
       | LV_int ll \<Rightarrow>
           let venc = (case venc of
                 None \<Rightarrow> Some (if 32 \<le> slen \<or> slen = 0 then None else lpStringToInt64 (take (unat slen) s))
               | Some _ \<Rightarrow> venc)
           in Some (venc = Some (Some ll), venc, entry_size)
       | LV_buf _ _ \<Rightarrow> None
     }"

partial_function (option) find_loop :: "buffer \<Rightarrow> buffer \<Rightarrow> u32 \<Rightarrow> u32 \<Rightarrow> nat \<Rightarrow>
    nat \<Rightarrow> u32 \<Rightarrow> u64 option option \<Rightarrow> u64 \<Rightarrow> nat option option" where
  "find_loop lp s slen skip lp_bytes p skipcnt venc entry_size =
     do {
       (found, p', skipcnt, venc, entry_size) \<leftarrow>
         (if skipcnt = 0 then do {
            (found, venc, entry_size) \<leftarrow> find_compare lp p s slen lp_bytes venc entry_size;
            Some (found, p + unat entry_size, skip, venc, entry_size)
          }
          else do { p' \<leftarrow> lpSkip lp p; Some (False, p', skipcnt - 1, venc, entry_size) });
       if found then Some (Some p)
       else do {
         (if lp_bytes \<le> p' + 8 then lpAssertValidEntry lp lp_bytes p'
          else if LP_HDR_SIZE \<le> p' \<and> p' < lp_bytes then Some () else None);
         b \<leftarrow> rd lp p';
         if b = LP_EOF then Some None
         else find_loop lp s slen skip lp_bytes p' skipcnt venc entry_size
       }
     }"

definition lpFind :: "buffer \<Rightarrow> nat \<Rightarrow> buffer \<Rightarrow> u32 \<Rightarrow> u32 \<Rightarrow> nat option option" where
  "lpFind lp p s slen skip =
     do {
       lp_bytes \<leftarrow> lpBytes lp;
       find_loop lp s slen skip (unat lp_bytes) p 0 None 123456789
     }"

section \<open>Modification\<close>

datatype lp_where = LP_BEFORE | LP_AFTER | LP_REPLACE

text \<open>A null pointer, or the listpack with the new element pointer.\<close>

datatype lp_result = LP_null | LP_ok buffer "nat option"

text \<open>How the element is stored: its integer encoding, as a string, or not at all.\<close>

datatype lp_enctype = ENC_INT buffer | ENC_STR buffer u32 | ENC_NONE

definition insert_encoding :: "buffer option \<Rightarrow> buffer option \<Rightarrow> u32 \<Rightarrow> lp_enctype \<times> u64" where
  "insert_encoding elestr eleint sz =
     (case elestr of
        Some s \<Rightarrow>
          (case lpEncodeGetType s sz of
             (Some intenc, enclen) \<Rightarrow> (ENC_INT intenc, enclen)
           | (None, enclen) \<Rightarrow> (ENC_STR s sz, enclen))
      | None \<Rightarrow>
          (case eleint of Some intenc \<Rightarrow> (ENC_INT intenc, ucast sz) | None \<Rightarrow> (ENC_NONE, 0)))"

definition store_entry :: "buffer \<Rightarrow> nat \<Rightarrow> lp_enctype \<Rightarrow> u64 \<Rightarrow> buffer \<Rightarrow> buffer option" where
  "store_entry lp dst enc enclen backlen =
     (case enc of
        ENC_NONE \<Rightarrow> Some lp
      | ENC_INT intenc \<Rightarrow> do {
          xs \<leftarrow> rdn intenc 0 (unat enclen);
          lp \<leftarrow> wrn lp dst xs;
          wrn lp (dst + unat enclen) backlen
        }
      | ENC_STR s sz \<Rightarrow> do {
          lp \<leftarrow> lpEncodeString lp dst s sz;
          wrn lp (dst + unat enclen) backlen
        })"

definition lpInsert :: "lp_alloc \<Rightarrow> buffer \<Rightarrow> buffer option \<Rightarrow> buffer option \<Rightarrow> u32 \<Rightarrow> nat \<Rightarrow> lp_where \<Rightarrow> lp_result option" where
  "lpInsert al lp elestr eleint sz p whr =
     do {
       let delete = (elestr = None \<and> eleint = None);
       let whr = (if delete then LP_REPLACE else whr);
       (p, whr) \<leftarrow>
         (if whr = LP_AFTER then do { p \<leftarrow> lpSkip lp p; ASSERT_INTEGRITY lp p; Some (p, LP_BEFORE) }
          else Some (p, whr));
       let poff = p;
       let (enc, enclen) = insert_encoding elestr eleint sz;
       let backlen = (if \<not> delete then lpEncodeBacklen enclen else []);
       let backlen_sz = (of_nat (length backlen) :: u64);
       total \<leftarrow> lpGetTotalBytes lp;
       let old_listpack_bytes = (ucast total :: u64);
       replaced_len \<leftarrow>
         (if whr = LP_REPLACE then do {
            n \<leftarrow> lpCurrentEncodedSizeUnsafe lp p;
            let n = n + ucast (backlen_size (ucast n));
            ASSERT_INTEGRITY_LEN lp p n;
            Some n
          }
          else Some 0);
       let new_listpack_bytes = old_listpack_bytes + enclen + backlen_sz - ucast replaced_len;
       if UINT32_MAX < new_listpack_bytes then Some LP_null
       else do {
         let lp = (if old_listpack_bytes < new_listpack_bytes \<and> length lp < unat new_listpack_bytes
                   then lp_realloc al lp (unat new_listpack_bytes) else lp);
         lp \<leftarrow>
           (if whr = LP_BEFORE then
              memmove lp (poff + unat enclen + unat backlen_sz) poff (unat (old_listpack_bytes - of_nat poff))
            else
              let lendiff = enclen + backlen_sz - ucast replaced_len in
              memmove lp (poff + unat (ucast replaced_len + lendiff)) (poff + unat replaced_len)
                (unat (old_listpack_bytes - of_nat poff - ucast replaced_len)));
         let lp = (if new_listpack_bytes < old_listpack_bytes then lp_realloc al lp (unat new_listpack_bytes) else lp);
         newp \<leftarrow>
           (if delete then do { b \<leftarrow> rd lp poff; Some (if b = LP_EOF then None else Some poff) }
            else Some (Some poff));
         lp \<leftarrow> store_entry lp poff enc enclen backlen;
         lp \<leftarrow>
           (if whr \<noteq> LP_REPLACE \<or> delete then do {
              num_elements \<leftarrow> lpGetNumElements lp;
              if num_elements \<noteq> LP_HDR_NUMELE_UNKNOWN then
                lpSetNumElements lp (ucast (if \<not> delete then num_elements + 1 else num_elements - 1))
              else Some lp
            }
            else Some lp);
         lp \<leftarrow> lpSetTotalBytes lp new_listpack_bytes;
         Some (LP_ok lp newp)
       }
     }"

definition lpInsertString :: "lp_alloc \<Rightarrow> buffer \<Rightarrow> buffer \<Rightarrow> u32 \<Rightarrow> nat \<Rightarrow> lp_where \<Rightarrow> lp_result option" where
  "lpInsertString al lp s slen p whr = lpInsert al lp (Some s) None slen p whr"

definition lpInsertInteger :: "lp_alloc \<Rightarrow> buffer \<Rightarrow> u64 \<Rightarrow> nat \<Rightarrow> lp_where \<Rightarrow> lp_result option" where
  "lpInsertInteger al lp lval p whr =
     (let intenc = lpEncodeIntegerGetType lval
      in lpInsert al lp None (Some intenc) (of_nat (length intenc)) p whr)"

definition lpAppend :: "lp_alloc \<Rightarrow> buffer \<Rightarrow> buffer \<Rightarrow> u32 \<Rightarrow> lp_result option" where
  "lpAppend al lp ele sz =
     do {
       listpack_bytes \<leftarrow> lpGetTotalBytes lp;
       if listpack_bytes = 0 then None
       else lpInsert al lp (Some ele) None sz (unat listpack_bytes - 1) LP_BEFORE
     }"

definition lpAppendInteger :: "lp_alloc \<Rightarrow> buffer \<Rightarrow> u64 \<Rightarrow> lp_result option" where
  "lpAppendInteger al lp lval =
     do {
       listpack_bytes \<leftarrow> lpGetTotalBytes lp;
       if listpack_bytes = 0 then None
       else lpInsertInteger al lp lval (unat listpack_bytes - 1) LP_BEFORE
     }"

definition lpPrepend :: "lp_alloc \<Rightarrow> buffer \<Rightarrow> buffer \<Rightarrow> u32 \<Rightarrow> lp_result option" where
  "lpPrepend al lp s slen =
     do {
       p \<leftarrow> lpFirst lp;
       case p of None \<Rightarrow> lpAppend al lp s slen | Some p \<Rightarrow> lpInsert al lp (Some s) None slen p LP_BEFORE
     }"

definition lpPrependInteger :: "lp_alloc \<Rightarrow> buffer \<Rightarrow> u64 \<Rightarrow> lp_result option" where
  "lpPrependInteger al lp lval =
     do {
       p \<leftarrow> lpFirst lp;
       case p of None \<Rightarrow> lpAppendInteger al lp lval | Some p \<Rightarrow> lpInsertInteger al lp lval p LP_BEFORE
     }"

definition lpReplace :: "lp_alloc \<Rightarrow> buffer \<Rightarrow> nat \<Rightarrow> buffer \<Rightarrow> u32 \<Rightarrow> lp_result option" where
  "lpReplace al lp p s slen = lpInsert al lp (Some s) None slen p LP_REPLACE"

definition lpReplaceInteger :: "lp_alloc \<Rightarrow> buffer \<Rightarrow> nat \<Rightarrow> u64 \<Rightarrow> lp_result option" where
  "lpReplaceInteger al lp p lval = lpInsertInteger al lp lval p LP_REPLACE"

definition lpDelete :: "lp_alloc \<Rightarrow> buffer \<Rightarrow> nat \<Rightarrow> lp_result option" where
  "lpDelete al lp p = lpInsert al lp None None 0 p LP_REPLACE"

text \<open>The loop counts the deleted entries and stops at the end of the listpack.\<close>

fun range_loop :: "buffer \<Rightarrow> nat \<Rightarrow> nat \<Rightarrow> nat \<Rightarrow> u64 \<Rightarrow> (nat \<times> u64) option" where
  "range_loop lp bytes 0 tail deleted = Some (tail, deleted)"
| "range_loop lp bytes (Suc num) tail deleted =
     do {
       let deleted = deleted + 1;
       tail \<leftarrow> lpSkip lp tail;
       b \<leftarrow> rd lp tail;
       if b = LP_EOF then Some (tail, deleted)
       else do { lpAssertValidEntry lp bytes tail; range_loop lp bytes num tail deleted }
     }"

definition lpDeleteRangeWithEntry :: "lp_alloc \<Rightarrow> buffer \<Rightarrow> nat \<Rightarrow> u64 \<Rightarrow> (buffer \<times> nat option) option" where
  "lpDeleteRangeWithEntry al lp p num =
     do {
       bytes \<leftarrow> lpBytes lp;
       if num = 0 then Some (lp, Some p)
       else do {
         (tail, deleted) \<leftarrow> range_loop lp (unat bytes) (unat num) p 0;
         let poff = p;
         lp \<leftarrow> (if tail < unat bytes then memmove lp p tail (unat bytes - 1 - tail + 1) else None);
         lp \<leftarrow> lpSetTotalBytes lp (bytes - of_nat (tail - p));
         numele \<leftarrow> lpGetNumElements lp;
         lp \<leftarrow> (if numele \<noteq> LP_HDR_NUMELE_UNKNOWN then lpSetNumElements lp (ucast numele - deleted) else Some lp);
         lp \<leftarrow> lpShrinkToFit al lp;
         b \<leftarrow> rd lp poff;
         Some (lp, if b = LP_EOF then None else Some poff)
       }
     }"

definition lpDeleteRange :: "lp_alloc \<Rightarrow> buffer \<Rightarrow> int \<Rightarrow> u64 \<Rightarrow> buffer option" where
  "lpDeleteRange al lp index num =
     do {
       numele \<leftarrow> lpGetNumElements lp;
       if num = 0 then Some lp
       else do {
         r \<leftarrow> lpSeek lp index;
         case r of
           None \<Rightarrow> Some lp
         | Some p \<Rightarrow> do {
             let known = (numele \<noteq> LP_HDR_NUMELE_UNKNOWN);
             let index = (if known \<and> index < 0 then uint numele + index else index);
             if known \<and> ucast numele - word_of_int index \<le> num then do {
               lp \<leftarrow> wr lp p LP_EOF;
               lp \<leftarrow> lpSetTotalBytes lp (of_nat (p + 1));
               lp \<leftarrow> lpSetNumElements lp (word_of_int index);
               lpShrinkToFit al lp
             }
             else do { (lp, _) \<leftarrow> lpDeleteRangeWithEntry al lp p num; Some lp }
           }
       }
     }"

text \<open>
  The two listpacks are different blocks and neither pointer is null. The result is the merged
  listpack and whether it took the place of the first one.
\<close>

definition lpMerge :: "lp_alloc \<Rightarrow> buffer \<Rightarrow> buffer \<Rightarrow> (buffer \<times> bool) option" where
  "lpMerge al first second =
     do {
       first_bytes \<leftarrow> lpBytes first;
       (first, first_len) \<leftarrow> lpLength first;
       second_bytes \<leftarrow> lpBytes second;
       (second, second_len) \<leftarrow> lpLength second;
       let append = (second_bytes \<le> first_bytes);
       let (target, target_bytes, source, source_bytes) =
         (if append then (first, unat first_bytes, second, unat second_bytes)
          else (second, unat second_bytes, first, unat first_bytes));
       let lpbytes = first_bytes + second_bytes - of_nat LP_HDR_SIZE - 1;
       if \<not> lpbytes < UINT32_MAX then None
       else do {
         let lplength = first_len + second_len;
         let lplength = (if lplength < 65535 then lplength else 65535);
         let target = lp_realloc al target (unat lpbytes);
         target \<leftarrow>
           (if target_bytes = 0 \<or> source_bytes = 0 \<or> source_bytes < LP_HDR_SIZE \<or> target_bytes < LP_HDR_SIZE then None
            else if append then do {
              xs \<leftarrow> rdn source LP_HDR_SIZE (source_bytes - LP_HDR_SIZE);
              wrn target (target_bytes - 1) xs
            }
            else do {
              target \<leftarrow> memmove target (source_bytes - 1) LP_HDR_SIZE (target_bytes - LP_HDR_SIZE);
              xs \<leftarrow> rdn source 0 (source_bytes - 1);
              wrn target 0 xs
            });
         target \<leftarrow> lpSetNumElements target lplength;
         target \<leftarrow> lpSetTotalBytes target lpbytes;
         Some (target, append)
       }
     }"

section \<open>Validation\<close>

definition lpValidateFirst :: "buffer \<Rightarrow> nat option option" where
  "lpValidateFirst lp = do { b \<leftarrow> rd lp LP_HDR_SIZE; Some (if b = LP_EOF then None else Some LP_HDR_SIZE) }"

text \<open>The callback gets the entry pointer, the element count of the header and its user data.\<close>

partial_function (option) validate_loop :: "(nat \<Rightarrow> u32 \<Rightarrow> 'u \<Rightarrow> bool \<times> 'u) option \<Rightarrow> buffer \<Rightarrow> nat \<Rightarrow> u32 \<Rightarrow>
    nat option \<Rightarrow> u32 \<Rightarrow> 'u \<Rightarrow> (bool \<times> nat option \<times> u32 \<times> 'u) option" where
  "validate_loop entry_cb lp bytes numele p count cb_userdata =
     (case p of
        None \<Rightarrow> Some (True, p, count, cb_userdata)
      | Some prev \<Rightarrow> do {
          b \<leftarrow> rd lp prev;
          if b = LP_EOF then Some (True, p, count, cb_userdata)
          else do {
            (ok, p) \<leftarrow> lpValidateNext lp p bytes;
            if \<not> ok then Some (False, p, count, cb_userdata)
            else do {
              let (ok, cb_userdata) =
                (case entry_cb of None \<Rightarrow> (True, cb_userdata) | Some cb \<Rightarrow> cb prev numele cb_userdata);
              if \<not> ok then Some (False, p, count, cb_userdata)
              else validate_loop entry_cb lp bytes numele p (count + 1) cb_userdata
            }
          }
        })"

declare validate_loop.simps [code]

definition lpValidateIntegrity :: "(nat \<Rightarrow> u32 \<Rightarrow> 'u \<Rightarrow> bool \<times> 'u) option \<Rightarrow> buffer \<Rightarrow> u64 \<Rightarrow> bool \<Rightarrow> 'u \<Rightarrow> (bool \<times> 'u) option" where
  "lpValidateIntegrity entry_cb lp size' deep cb_userdata =
     (if unat size' < LP_HDR_SIZE + 1 then Some (False, cb_userdata)
      else do {
        bytes \<leftarrow> lpBytes lp;
        if bytes \<noteq> size' then Some (False, cb_userdata)
        else do {
          b \<leftarrow> rd lp (unat size' - 1);
          if b \<noteq> LP_EOF then Some (False, cb_userdata)
          else if \<not> deep then Some (True, cb_userdata)
          else do {
            numele \<leftarrow> lpGetNumElements lp;
            (ok, p, count, cb_userdata) \<leftarrow>
              validate_loop entry_cb lp (unat bytes) numele (Some LP_HDR_SIZE) 0 cb_userdata;
            if \<not> ok then Some (False, cb_userdata)
            else if p \<noteq> Some (unat size' - 1) then Some (False, cb_userdata)
            else if numele \<noteq> LP_HDR_NUMELE_UNKNOWN \<and> numele \<noteq> count then Some (False, cb_userdata)
            else Some (True, cb_userdata)
          }
        }
      })"

end
