(* ===== verification/Redis_Listpack_Entry.thy ===== *)
theory Redis_Listpack_Entry
  imports Redis_Listpack
begin

text \<open>
  The bytes of one listpack entry: reading an entry looks at no byte outside it, the back length is
  decoded from its last byte on, and the encodings of strings and integers are entries that read
  back as what was encoded. \<open>lp_rep lp es\<close> is the layout of a whole listpack with the entries \<open>es\<close>.
\<close>

section \<open>Locality of reads\<close>

text \<open>
  A computation on a part of a block that succeeds also succeeds on the whole block, with the
  result adapted by \<open>f\<close>.
\<close>

definition lifts :: "('a \<Rightarrow> 'b) \<Rightarrow> 'a option \<Rightarrow> 'b option \<Rightarrow> bool" where
  "lifts f x y \<longleftrightarrow> (\<forall>v. x = Some v \<longrightarrow> y = Some (f v))"

named_theorems lifts_intro

lemma lifts_bind [lifts_intro]:
  "lifts id x y \<Longrightarrow> (\<And>a. lifts f (g a) (h a)) \<Longrightarrow> lifts f (x \<bind> g) (y \<bind> h)"
  by (cases x) (auto simp: lifts_def)

lemma lifts_if [lifts_intro]:
  "lifts f x y \<Longrightarrow> lifts f x' y' \<Longrightarrow> lifts f (if c then x else x') (if c then y else y')"
  by simp

lemma lifts_Some [lifts_intro]: "b = f a \<Longrightarrow> lifts f (Some a) (Some b)"
  by (simp add: lifts_def)

lemma lifts_rd [lifts_intro]:
  "lifts id (rd e 0) (rd (A @ e @ B) (length A))"
  "lifts id (rd e (0 + i)) (rd (A @ e @ B) (length A + i))"
  by (auto simp: lifts_def rd_def nth_append)

lemma lifts_rdn [lifts_intro]: "lifts id (rdn e (0 + i) n) (rdn (A @ e @ B) (length A + i) n)"
  by (auto simp: lifts_def rdn_def)

lemma rd_app: "rd e i = Some x \<Longrightarrow> rd (A @ e @ B) (length A + i) = Some x"
  using lifts_rd(2) [of e i A B] by (simp add: lifts_def)

named_theorems lp_enc_defs \<open>encoding predicates and length fields\<close>

lemmas [lp_enc_defs] = LP_ENCODING_6BIT_STR_LEN_def LP_ENCODING_12BIT_STR_LEN_def LP_ENCODING_32BIT_STR_LEN_def

lemma lifts_size:
  "lifts id (lpCurrentEncodedSizeUnsafe e 0) (lpCurrentEncodedSizeUnsafe (A @ e @ B) (length A))"
  "lifts id (lpCurrentEncodedSizeBytes e 0) (lpCurrentEncodedSizeBytes (A @ e @ B) (length A))"
  unfolding lpCurrentEncodedSizeUnsafe_def lpCurrentEncodedSizeBytes_def lp_enc_defs
  by (intro lifts_intro; simp)+

lemma size_app: "lpCurrentEncodedSizeUnsafe e 0 = Some n \<Longrightarrow> lpCurrentEncodedSizeUnsafe (A @ e @ B) (length A) = Some n"
  using lifts_size(1) [of e A B] by (simp add: lifts_def)

lemma size_bytes_app: "lpCurrentEncodedSizeBytes e 0 = Some n \<Longrightarrow> lpCurrentEncodedSizeBytes (A @ e @ B) (length A) = Some n"
  using lifts_size(2) [of e A B] by (simp add: lifts_def)

fun shift_val :: "nat \<Rightarrow> lp_val \<Rightarrow> lp_val" where
  "shift_val k (LV_str off n) = LV_str (k + off) n"
| "shift_val k (LV_int v) = LV_int v"
| "shift_val k (LV_buf b n) = LV_buf b n"

lemma lifts_get:
  "lifts (map_prod (shift_val (length A)) id) (lpGetWithSize e 0 None) (lpGetWithSize (A @ e @ B) (length A) None)"
  unfolding lpGetWithSize_def lp_enc_defs Let_def option.case
  by (intro lifts_intro; simp)

section \<open>The back length\<close>

lemma bit_127: "bit (127 :: int) n \<longleftrightarrow> n < 7"
proof -
  have "(127 :: int) = mask 7" by (simp add: mask_eq_exp_minus_1)
  then show ?thesis by (simp only: bit_mask_iff) auto
qed

lemma bit_128: "bit (128 :: int) n \<longleftrightarrow> n = 7"
proof -
  have "(128 :: int) = 2 ^ 7" by simp
  then show ?thesis by (simp only: bit_exp_iff) auto
qed

lemmas bit_low7 = bit_127 bit_128 bit_and_iff bit_or_iff bit_ucast_iff bit_take_bit_iff

lemma cont_byte:
  "(ucast ((ucast (((w :: u64) AND 127) OR 128) :: byte) AND 127) :: u64) = take_bit 7 w"
  "((ucast ((w AND 127) OR 128) :: byte) AND 128) \<noteq> 0"
proof -
  show "(ucast ((ucast ((w AND 127) OR 128) :: byte) AND 127) :: u64) = take_bit 7 w"
    by (rule bit_word_eqI) (auto simp: bit_low7)
  have "bit ((ucast ((w AND 127) OR 128) :: byte) AND 128) 7"
    by (simp add: bit_low7)
  then show "((ucast ((w AND 127) OR 128) :: byte) AND 128) \<noteq> 0"
    by (metis bit_0_eq bot_apply bot_bool_def)
qed

lemma last_byte:
  assumes "unat (w :: u64) < 128"
  shows "(ucast ((ucast w :: byte) AND 127) :: u64) = w" "((ucast w :: byte) AND 128) = 0"
proof -
  have s: "i < 7" if "bit w i" for i
    using bit_small [of w 7 i] assms that by (simp add: not_le [symmetric]) blast
  show "(ucast ((ucast w :: byte) AND 127) :: u64) = w"
    by (rule bit_word_eqI) (auto simp: bit_low7 dest: s)
  show "((ucast w :: byte) AND 128) = 0"
    by (rule bit_word_eqI) (auto simp: bit_low7 dest: s)
qed

lemma take_bit_step: "take_bit s l OR push_bit s (take_bit n (drop_bit s l)) = take_bit (s + n) (l :: 'a::len word)"
  by (rule bit_word_eqI) (auto simp: bit_simps)

lemma decode_more:
  assumes "rd lp p = Some (ucast ((drop_bit s l AND 127) OR 128))" and "s + 7 \<le> 28" and "0 < p"
  shows "decode_backlen lp p (take_bit s l) s = decode_backlen lp (p - 1) (take_bit (s + 7) l) (s + 7)"
  using assms by (subst decode_backlen.simps) (simp add: cont_byte take_bit_step)

lemma decode_last:
  assumes "rd lp p = Some (ucast (drop_bit s l))" and "unat (l :: u64) < 2 ^ (s + 7)"
  shows "decode_backlen lp p (take_bit s l) s = Some l"
proof -
  have "unat (drop_bit s l) = unat l div 2 ^ s"
    by (metis unat_drop_bit_eq drop_bit_eq_div)
  moreover have "unat l div 2 ^ s < 2 ^ 7"
    using assms(2) by (intro less_mult_imp_div_less) (simp add: power_add mult.commute)
  ultimately have "unat (drop_bit s l) < 2 ^ 7" by simp
  then have *: "unat (drop_bit s l) < 128" by simp
  have "take_bit s l OR push_bit s (drop_bit s l) = l"
    by (rule bit_word_eqI) (auto simp: bit_simps, metis not_le le_add_diff_inverse)
  then show ?thesis using assms(1) last_byte [OF *] by (subst decode_backlen.simps) simp
qed

lemma length_backlen: "1 \<le> length (lpEncodeBacklen l)" "length (lpEncodeBacklen l) \<le> 5"
  by (simp_all add: lpEncodeBacklen_def)

lemma decode_more0:
  assumes "rd lp p = Some (ucast ((l AND 127) OR 128))" and "0 < p"
  shows "lpDecodeBacklen lp p = decode_backlen lp (p - 1) (take_bit 7 l) 7"
  using decode_more [of lp p 0 l] assms by (simp add: lpDecodeBacklen_def)

lemma decode_last0:
  assumes "rd lp p = Some (ucast l)" and "unat (l :: u64) < 128"
  shows "lpDecodeBacklen lp p = Some l"
  using decode_last [of lp p 0 l] assms by (simp add: lpDecodeBacklen_def)

text \<open>Decoding from the last byte gives back the length.\<close>

lemma decode_backlen_at:
  assumes "unat l < 2 ^ 35"
  shows "lpDecodeBacklen (A @ lpEncodeBacklen l @ B) (length A + length (lpEncodeBacklen l) - 1) = Some l"
proof -
  define lp where "lp = A @ lpEncodeBacklen l @ B"
  have r: "rd lp (length A + i) = Some (lpEncodeBacklen l ! i)" if "i < length (lpEncodeBacklen l)" for i
    unfolding lp_def using that by (intro rd_app) (simp add: rd_def)
  consider (1) "l \<le> 127" | (2) "\<not> l \<le> 127" "l < 16383" | (3) "\<not> l \<le> 127" "\<not> l < 16383" "l < 2097151"
    | (4) "\<not> l \<le> 127" "\<not> l < 16383" "\<not> l < 2097151" "l < 268435455"
    | (5) "\<not> l \<le> 127" "\<not> l < 16383" "\<not> l < 2097151" "\<not> l < 268435455" by blast
  then have "lpDecodeBacklen lp (length A + length (lpEncodeBacklen l) - 1) = Some l"
  proof cases
    case 1
    then have "unat l < 128" by (simp add: word_le_nat_alt)
    with 1 r [of 0] show ?thesis by (simp add: lpEncodeBacklen_def decode_last0)
  next
    case 2
    then have e: "lpEncodeBacklen l = [ucast (drop_bit 7 l), ucast ((l AND 127) OR 128)]" and u: "unat l < 2 ^ (7 + 7)"
      by (simp_all add: lpEncodeBacklen_def word_less_nat_alt)
    show ?thesis
      using r [of 0] r [of 1] decode_more0 [of lp "length A + 1" l] decode_last [of lp "length A" 7 l, OF _ u]
      by (simp add: e)
  next
    case 3
    then have e: "lpEncodeBacklen l = [ucast (drop_bit 14 l), ucast ((drop_bit 7 l AND 127) OR 128), ucast ((l AND 127) OR 128)]"
      and u: "unat l < 2 ^ (14 + 7)"
      by (simp_all add: lpEncodeBacklen_def word_less_nat_alt)
    show ?thesis
      using r [of 0] r [of 1] r [of 2] decode_more0 [of lp "length A + 2" l]
        decode_more [of lp "length A + 1" 7 l] decode_last [of lp "length A" 14 l, OF _ u]
      by (simp add: e)
  next
    case 4
    then have e: "lpEncodeBacklen l = [ucast (drop_bit 21 l), ucast ((drop_bit 14 l AND 127) OR 128),
        ucast ((drop_bit 7 l AND 127) OR 128), ucast ((l AND 127) OR 128)]"
      and u: "unat l < 2 ^ (21 + 7)"
      by (simp_all add: lpEncodeBacklen_def word_less_nat_alt)
    show ?thesis
      using r [of 0] r [of 1] r [of 2] r [of 3] decode_more0 [of lp "length A + 3" l]
        decode_more [of lp "length A + 2" 7 l] decode_more [of lp "length A + 1" 14 l] decode_last [of lp "length A" 21 l, OF _ u]
      by (simp add: e numeral_eq_Suc)
  next
    case 5
    then have e: "lpEncodeBacklen l = [ucast (drop_bit 28 l), ucast ((drop_bit 21 l AND 127) OR 128), ucast ((drop_bit 14 l AND 127) OR 128),
        ucast ((drop_bit 7 l AND 127) OR 128), ucast ((l AND 127) OR 128)]"
      by (simp add: lpEncodeBacklen_def)
    have u: "unat l < 2 ^ (28 + 7)" using assms by simp
    show ?thesis
      using r [of 0] r [of 1] r [of 2] r [of 3] r [of 4] decode_more0 [of lp "length A + 4" l]
        decode_more [of lp "length A + 3" 7 l] decode_more [of lp "length A + 2" 14 l] decode_more [of lp "length A + 1" 21 l]
        decode_last [of lp "length A" 28 l, OF _ u]
      by (simp add: e numeral_eq_Suc)
  qed
  then show ?thesis by (simp add: lp_def)
qed

section \<open>Integer encodings\<close>

lemma le_dec_enc_small:
  assumes "unat (w :: 'a::len word) < 2 ^ (8 * n)"
  shows "le_dec (le_enc n w) = w"
proof (rule bit_word_eqI)
  fix i assume i: "i < LENGTH('a)"
  have "i < 8 * n" if "bit w i" using bit_small [OF assms, of i] that not_le by blast
  then have "i div 8 < n" if "bit w i" using that by (simp add: div_less_iff_less_mult mult.commute)
  moreover have "8 * (i div 8) + i mod 8 = i" by simp
  ultimately show "bit (le_dec (le_enc n w) :: 'a word) i = bit w i"
    using i by (auto simp: bit_le_dec le_enc_def bit_ucast_iff bit_drop_bit_eq)
qed

lemma ucast_and_255: "(ucast ((w :: 'a::len word) AND 255) :: byte) = ucast w"
proof -
  have "(255 :: int) = mask 8" by (simp add: mask_eq_exp_minus_1)
  then have "bit (255 :: int) i \<longleftrightarrow> i < 8" for i by (simp only: bit_mask_iff) auto
  then show ?thesis by (intro bit_word_eqI) (auto simp: bit_and_iff bit_ucast_iff dest: bit_imp_le_length)
qed

text \<open>A signed value of \<open>k + 1\<close> bits is stored modulo \<open>2 ^ (k + 1)\<close> and recovered by \<open>get_integer\<close>.\<close>

lemma small_signed:
  fixes v :: u64
  assumes "- (2 ^ k) \<le> sint v" and "sint v < 2 ^ k" and "k < 63"
  defines "v' \<equiv> if v <s 0 then push_bit (Suc k) 1 + v else v"
  shows "unat v' < 2 ^ Suc k" and "get_integer v' (push_bit k 1) (push_bit (Suc k) 1 - 1) = v"
proof -
  have k: "(2 :: int) ^ Suc k \<le> 2 ^ 63" using assms(3) by (intro power_increasing) simp_all
  have p: "uint (push_bit j (1 :: u64)) = 2 ^ j" if "j < 64" for j
    using that uint_2p [where ?'a = 64, of j] by (simp add: push_bit_eq_mult word_gt_0)
  have v': "uint v' = (if sint v < 0 then 2 ^ Suc k + sint v else sint v)"
  proof (cases "sint v < 0")
    case True
    then have "uint v = sint v + 2 ^ 64" using sint_uint_cases [of v] by (auto split: if_splits)
    then have "uint v' = (2 ^ Suc k + (sint v + 2 ^ 64)) mod 2 ^ 64"
      using True assms(3) p [of "Suc k"] by (simp add: v'_def word_sless_alt uint_word_ariths)
    also have "\<dots> = (2 ^ Suc k + sint v) mod 2 ^ 64" by (metis add.assoc mod_add_self2)
    also have "\<dots> = 2 ^ Suc k + sint v"
      using True assms(1) k by (intro mod_pos_pos_trivial) auto
    finally show ?thesis using True by simp
  next
    case False
    then show ?thesis using sint_uint_cases [of v] uint_lt2p [of v] by (auto simp: v'_def word_sless_alt split: if_splits)
  qed
  have lt: "uint v' < 2 ^ Suc k" using v' assms(1,2) by auto
  then show "unat v' < 2 ^ Suc k" unfolding uint_nat by (metis of_nat_less_iff of_nat_numeral of_nat_power)
  have ge: "push_bit k 1 \<le> v' \<longleftrightarrow> sint v < 0"
    using v' assms p [of k] by (auto simp: word_le_def)
  show "get_integer v' (push_bit k 1) (push_bit (Suc k) 1 - 1) = v"
  proof (cases "sint v < 0")
    case True
    then have "v' = push_bit (Suc k) 1 + v" by (simp add: v'_def word_sless_alt)
    with True ge show ?thesis by (simp add: get_integer_def)
  next
    case False
    then have "v' = v" by (simp add: v'_def word_sless_alt)
    with False ge show ?thesis by (simp add: get_integer_def)
  qed
qed

section \<open>Entries\<close>

text \<open>
  An entry is the encoding of one element without the back length; the header of the entry tells
  its length. \<open>entry_str\<close> is the string it stands for.
\<close>

definition entry_ok :: "buffer \<Rightarrow> bool" where
  "entry_ok e \<longleftrightarrow> e \<noteq> [] \<and> hd e \<noteq> LP_EOF \<and> length e < 2 ^ 32 \<and>
     lpCurrentEncodedSizeUnsafe e 0 = Some (of_nat (length e))"

definition block :: "buffer \<Rightarrow> buffer" where
  "block e = e @ lpEncodeBacklen (of_nat (length e))"

definition entry_str :: "buffer \<Rightarrow> buffer" where
  "entry_str e =
     (case lpGetWithSize e 0 None of
        Some (LV_str off n, _) \<Rightarrow> take (unat n) (drop off e)
      | Some (LV_int v, _) \<Rightarrow> dec_int (sint v)
      | _ \<Rightarrow> [])"

lemmas lp_kind_defs = LP_ENCODING_IS_7BIT_UINT_def LP_ENCODING_IS_6BIT_STR_def LP_ENCODING_IS_13BIT_INT_def
  LP_ENCODING_IS_12BIT_STR_def LP_ENCODING_IS_16BIT_INT_def LP_ENCODING_IS_24BIT_INT_def
  LP_ENCODING_IS_32BIT_INT_def LP_ENCODING_IS_64BIT_INT_def LP_ENCODING_IS_32BIT_STR_def

text \<open>Every first byte has one of the encodings, is the end marker or is invalid.\<close>

definition kind :: "byte \<Rightarrow> nat" where
  "kind b =
     (if LP_ENCODING_IS_7BIT_UINT b then 0
      else if LP_ENCODING_IS_6BIT_STR b then 1
      else if LP_ENCODING_IS_13BIT_INT b then 2
      else if LP_ENCODING_IS_16BIT_INT b then 3
      else if LP_ENCODING_IS_24BIT_INT b then 4
      else if LP_ENCODING_IS_32BIT_INT b then 5
      else if LP_ENCODING_IS_64BIT_INT b then 6
      else if LP_ENCODING_IS_12BIT_STR b then 7
      else if LP_ENCODING_IS_32BIT_STR b then 8
      else if b = LP_EOF then 9
      else 10)"

lemma size_kind:
  assumes "rd lp p = Some b"
  shows "lpCurrentEncodedSizeUnsafe lp p =
    [Some 1, Some (1 + ucast (b AND 0x3F)), Some 2, Some 3, Some 4, Some 5, Some 9,
     rd lp (p + 1) \<bind> (\<lambda>b1. Some (2 + (push_bit 8 (ucast (b AND 0xF)) OR ucast b1))),
     rdn lp (p + 1) 4 \<bind> (\<lambda>bs. Some (5 + le_dec bs)), Some 1, Some 0] ! kind b"
  using assms by (simp add: lpCurrentEncodedSizeUnsafe_def lp_enc_defs kind_def)

lemma size_bytes_kind:
  assumes "rd lp p = Some b"
  shows "lpCurrentEncodedSizeBytes lp p = Some ([1, 1, 1, 1, 1, 1, 1, 2, 5, 1, 0] ! kind b)"
  using assms by (simp add: lpCurrentEncodedSizeBytes_def kind_def)

lemma kind_le: "kind b \<le> 10" by (simp add: kind_def)

lemma kind_cases:
  obtains "kind b = 0" | "kind b = 1" | "kind b = 2" | "kind b = 3" | "kind b = 4" | "kind b = 5" | "kind b = 6"
    | "kind b = 7" | "kind b = 8" | "kind b = 9" | "kind b = 10"
proof -
  have "kind b \<in> {0, 1, 2, 3, 4, 5, 6, 7, 8, 9, 10}" by (simp add: kind_def)
  then show thesis using that by auto
qed

lemma get_kind:
  assumes "rd lp p = Some b"
  defines "I \<equiv> \<lambda>uval negstart negmax es. Some (LV_int (get_integer uval negstart negmax), es)"
    and "S \<equiv> \<lambda>k (n :: u32). Some (LV_str (p + k) (ucast n), Some (of_nat k + ucast n + backlen_size (ucast n + of_nat k)))"
  shows "lpGetWithSize lp p None =
    [I (ucast (b AND 0x7f)) UINT64_MAX 0 (Some 2),
     S 1 (ucast (b AND 0x3F)),
     rd lp (p + 1) \<bind> (\<lambda>b1. I (push_bit 8 (ucast (b AND 0x1f)) OR ucast b1) (push_bit 12 1) 8191 (Some 3)),
     rdn lp (p + 1) 2 \<bind> (\<lambda>bs. I (le_dec bs) (push_bit 15 1) 0xFFFF (Some 4)),
     rdn lp (p + 1) 3 \<bind> (\<lambda>bs. I (le_dec bs) (push_bit 23 1) 0xFFFFFF (Some 5)),
     rdn lp (p + 1) 4 \<bind> (\<lambda>bs. I (le_dec bs) (push_bit 31 1) 0xFFFFFFFF (Some 6)),
     rdn lp (p + 1) 8 \<bind> (\<lambda>bs. I (le_dec bs) (push_bit 63 1) UINT64_MAX (Some 10)),
     rd lp (p + 1) \<bind> (\<lambda>b1. S 2 (push_bit 8 (ucast (b AND 0xF)) OR ucast b1)),
     rdn lp (p + 1) 4 \<bind> (\<lambda>bs. S 5 (le_dec bs)),
     I (12345678900000000 + ucast b) UINT64_MAX 0 None,
     I (12345678900000000 + ucast b) UINT64_MAX 0 None] ! kind b"
  using assms(1) unfolding I_def S_def
  by (simp add: lpGetWithSize_def lp_enc_defs kind_def Let_def)

lemma no_wrap:
  assumes "of_nat k + n = (of_nat L :: u32)" and "k \<le> L" and "L < 2 ^ 32"
  shows "k + unat n = L"
proof -
  have "unat (of_nat k + n) = L" unfolding assms(1) using assms(3) by (simp add: unat_of_nat take_bit_nat_eq_self)
  moreover have "unat (of_nat k + n) = (k + unat n) mod 2 ^ 32"
    using assms(2,3) by (simp add: unat_word_ariths unat_of_nat take_bit_nat_eq_self)
  moreover have "unat n < 2 ^ LENGTH(32)" by (rule unsigned_less)
  moreover have "(k + unat n) mod 2 ^ 32 = (if k + unat n < 2 ^ 32 then k + unat n else k + unat n - 2 ^ 32)"
    using calculation(3) assms(2,3) by (simp add: mod_if)
  ultimately show ?thesis using assms(2) by (auto split: if_splits)
qed

lemma str_size:
  assumes "k + unat (n :: u32) = length e"
  shows "of_nat k + ucast n + backlen_size (ucast n + of_nat k) = (of_nat (length (block e)) :: u64)"
proof -
  have "(ucast n :: u64) = of_nat (unat n)" by simp
  then have "(of_nat k + ucast n :: u64) = of_nat (length e)"
    using assms by (metis of_nat_add)
  then show ?thesis by (simp add: block_def add.commute)
qed

lemma int_size: "length e \<le> 127 \<Longrightarrow> length (block e) = Suc (length e)"
  by (simp add: block_def lpEncodeBacklen_def word_le_nat_alt unat_of_nat take_bit_nat_eq_self)

text \<open>A well-formed entry is readable, and its size is that of its block.\<close>

lemma entry_get:
  assumes "entry_ok e"
  obtains (istr) off n where "lpGetWithSize e 0 None = Some (LV_str off n, Some (of_nat (length (block e))))"
      "off + unat n = length e" "entry_str e = drop off e"
    | (iint) v where "lpGetWithSize e 0 None = Some (LV_int v, Some (of_nat (length (block e))))"
      "entry_str e = dec_int (sint v)"
proof -
  obtain b e' where e: "e = b # e'" using assms by (cases e) (auto simp: entry_ok_def)
  have r: "rd e 0 = Some b" by (simp add: e rd_def)
  have sz: "lpCurrentEncodedSizeUnsafe e 0 = Some (of_nat (length e))" and lt: "length e < 2 ^ 32" and b: "b \<noteq> LP_EOF"
    using assms by (auto simp: entry_ok_def e)
  note sk = size_kind [OF r] and gk = get_kind [OF r]
  have fixed: "length e = c" if "Some (of_nat (length e)) = (Some (of_nat c) :: u32 option)" "c < 10" for c
    using no_wrap [of c 0 "length e"] no_wrap [of "length e" 0 c] that lt by (cases "c \<le> length e") auto
  have int: thesis if "length e \<le> 127" "lpGetWithSize e 0 None = Some (LV_int v, Some (1 + of_nat (length e)))" for v
    using that int_size [of e] by (intro iint [of v]) (simp_all add: entry_str_def)
  have str: thesis if "of_nat k + n = (of_nat (length e) :: u32)" "k \<le> length e"
      "lpGetWithSize e 0 None = Some (LV_str k (ucast n), Some (of_nat k + ucast n + backlen_size (ucast n + of_nat k)))" for k n
  proof -
    have k: "k + unat n = length e" using that(1,2) lt by (rule no_wrap)
    have u: "unat (ucast n :: u64) = unat n" by (simp add: unsigned_ucast_eq take_bit_nat_eq_self order_less_trans [OF unsigned_less])
    show thesis using that(3) k u str_size [OF k] by (intro istr [of k "ucast n"]) (auto simp: entry_str_def)
  qed
  show thesis
  proof (cases rule: kind_cases [of b])
    case 1
    then have "length e = 1" using sz sk fixed [of 1] by simp
    then show thesis using gk 1 by (intro int) auto
  next
    case 2
    then show thesis using gk sz sk by (intro str [of 1 "ucast (b AND 0x3F)"]) (auto simp: e)
  next
    case 3
    then have "length e = 2" using sz sk fixed [of 2] by simp
    then show thesis using gk 3 by (intro int) (auto simp: mem_simps)
  next
    case 4
    then have "length e = 3" using sz sk fixed [of 3] by simp
    then show thesis using gk 4 by (intro int) (auto simp: mem_simps)
  next
    case 5
    then have "length e = 4" using sz sk fixed [of 4] by simp
    then show thesis using gk 5 by (intro int) (auto simp: mem_simps)
  next
    case 6
    then have "length e = 5" using sz sk fixed [of 5] by simp
    then show thesis using gk 6 by (intro int) (auto simp: mem_simps)
  next
    case 7
    then have "length e = 9" using sz sk fixed [of 9] by simp
    then show thesis using gk 7 by (intro int) (auto simp: mem_simps)
  next
    case 8
    then obtain b1 where b1: "rd e 1 = Some b1" "2 + (push_bit 8 (ucast (b AND 0xF)) OR ucast b1) = (of_nat (length e) :: u32)"
      using sz sk by (auto split: Option.bind_splits)
    then have "2 \<le> length e" by (auto simp: rd_def split: if_splits)
    then show thesis using gk b1 8 by (intro str [of 2 "push_bit 8 (ucast (b AND 0xF)) OR ucast b1"]) auto
  next
    case 9
    then obtain bs where bs: "rdn e 1 4 = Some bs" "5 + le_dec bs = (of_nat (length e) :: u32)"
      using sz sk by (auto split: Option.bind_splits)
    then have "5 \<le> length e" by (auto simp: rdn_def split: if_splits)
    then show thesis using gk bs 9 by (intro str [of 5 "le_dec bs"]) auto
  next
    case 10
    then have "b = LP_EOF" by (auto simp: kind_def split: if_splits)
    with b show thesis by simp
  next
    case 11
    then have "length e = 0" using sz sk fixed [of 0] by simp
    then show thesis by (simp add: e)
  qed
qed

section \<open>Encoded elements are entries\<close>

lemma list_all_upt: "list_all P [0..<n] \<Longrightarrow> x < n \<Longrightarrow> P x"
  by (simp add: list_all_iff)

lemma kind_7bit: "x < 128 \<Longrightarrow> kind (of_nat x) = 0 \<and> (of_nat x :: byte) AND 0x7F = of_nat x"
proof -
  have "list_all (\<lambda>x. kind (of_nat x) = 0 \<and> (of_nat x :: byte) AND 0x7F = of_nat x) [0..<128]" by code_simp
  then show "x < 128 \<Longrightarrow> kind (of_nat x) = 0 \<and> (of_nat x :: byte) AND 0x7F = of_nat x" by (rule list_all_upt)
qed

lemma kind_6bit: "x < 64 \<Longrightarrow> kind (of_nat x OR 0x80) = 1 \<and> (of_nat x OR 0x80 :: byte) AND 0x3F = of_nat x"
proof -
  have "list_all (\<lambda>x. kind (of_nat x OR 0x80) = 1 \<and> (of_nat x OR 0x80 :: byte) AND 0x3F = of_nat x) [0..<64]" by code_simp
  then show "x < 64 \<Longrightarrow> kind (of_nat x OR 0x80) = 1 \<and> (of_nat x OR 0x80 :: byte) AND 0x3F = of_nat x" by (rule list_all_upt)
qed

lemma kind_13bit: "x < 32 \<Longrightarrow> kind (of_nat x OR 0xC0) = 2 \<and> (of_nat x OR 0xC0 :: byte) AND 0x1F = of_nat x"
proof -
  have "list_all (\<lambda>x. kind (of_nat x OR 0xC0) = 2 \<and> (of_nat x OR 0xC0 :: byte) AND 0x1F = of_nat x) [0..<32]" by code_simp
  then show "x < 32 \<Longrightarrow> kind (of_nat x OR 0xC0) = 2 \<and> (of_nat x OR 0xC0 :: byte) AND 0x1F = of_nat x" by (rule list_all_upt)
qed

lemma kind_12bit: "x < 16 \<Longrightarrow> kind (of_nat x OR 0xE0) = 7 \<and> (of_nat x OR 0xE0 :: byte) AND 0xF = of_nat x"
proof -
  have "list_all (\<lambda>x. kind (of_nat x OR 0xE0) = 7 \<and> (of_nat x OR 0xE0 :: byte) AND 0xF = of_nat x) [0..<16]" by code_simp
  then show "x < 16 \<Longrightarrow> kind (of_nat x OR 0xE0) = 7 \<and> (of_nat x OR 0xE0 :: byte) AND 0xF = of_nat x" by (rule list_all_upt)
qed

lemma kind_tags [simp]: "kind 0xF0 = 8" "kind 0xF1 = 3" "kind 0xF2 = 4" "kind 0xF3 = 5" "kind 0xF4 = 6"
  by code_simp+

lemma kind_not_eof: "kind b < 9 \<Longrightarrow> b \<noteq> LP_EOF"
proof -
  have "kind LP_EOF = 9" by code_simp
  then show "kind b < 9 \<Longrightarrow> b \<noteq> LP_EOF" by auto
qed

lemma entry_okI:
  assumes "e = b # e'" and "length e < 2 ^ 32" and "kind b < 9" and "lpCurrentEncodedSizeUnsafe e 0 = Some (of_nat (length e))"
  shows "entry_ok e"
  using assms kind_not_eof [of b] by (simp add: entry_ok_def)


lemma sint_consts:
  "sint (- 4096 :: u64) = - 4096" "sint (- 32768 :: u64) = - 32768" "sint (- 8388608 :: u64) = - 8388608"
  "sint (- 2147483648 :: u64) = - 2147483648" "sint (4095 :: u64) = 4095" "sint (32767 :: u64) = 32767"
  "sint (8388607 :: u64) = 8388607" "sint (2147483647 :: u64) = 2147483647" "sint (127 :: u64) = 127"
  by code_simp+

text \<open>The 16, 24, 32 and 64 bit encodings: a tag and the value in little-endian order.\<close>

lemma tagged_int:
  assumes k: "(k, n, neg, mx) \<in> {(3, 2, push_bit 15 1, 0xFFFF), (4, 3, push_bit 23 1, 0xFFFFFF),
      (5, 4, push_bit 31 1, 0xFFFFFFFF), (6, 8, push_bit 63 1, UINT64_MAX)}"
    and t: "kind t = k" and u: "unat v' < 2 ^ (8 * n)"
  shows "entry_ok (t # le_enc n v')"
    and "\<exists>es. lpGetWithSize (t # le_enc n v') 0 None = Some (LV_int (get_integer v' neg mx), es)"
proof -
  let ?e = "t # le_enc n v'"
  have r: "rd ?e 0 = Some t" by (simp add: rd_def)
  have d: "rdn ?e 1 n = Some (le_enc n v')" by (simp add: rdn_def)
  have ld: "le_dec (le_enc n v') = v'" by (rule le_dec_enc_small [OF u])
  show "entry_ok ?e"
    using k t size_kind [OF r] by (intro entry_okI [OF refl]) auto
  show "\<exists>es. lpGetWithSize ?e 0 None = Some (LV_int (get_integer v' neg mx), es)"
    using k t d ld get_kind [OF r] by auto
qed

lemma map_upt_bytes: "map (\<lambda>i. ucast (drop_bit (8 * i) (v :: 'a::len word) AND 0xff)) [0..<n] = le_enc n v"
  by (simp add: le_enc_def ucast_and_255)

lemma le_enc_unfold:
  "le_enc 2 (v :: u64) = [ucast (v AND 0xff), ucast (drop_bit 8 v)]"
  "le_enc 3 v = [ucast (v AND 0xff), ucast (drop_bit 8 v AND 0xff), ucast (drop_bit 16 v)]"
  "le_enc 4 v = [ucast (v AND 0xff), ucast (drop_bit 8 v AND 0xff), ucast (drop_bit 16 v AND 0xff), ucast (drop_bit 24 v)]"
  by (simp_all add: le_enc_def ucast_and_255 numeral_eq_Suc)

lemma unat_drop8: "unat (w :: 'a::len word) < 2 ^ (8 + m) \<Longrightarrow> unat (drop_bit 8 w) < 2 ^ m"
proof -
  assume a: "unat w < 2 ^ (8 + m)"
  have "unat (drop_bit 8 w) = unat w div 2 ^ 8" by (metis unat_drop_bit_eq drop_bit_eq_div)
  moreover have "unat w div 2 ^ 8 < 2 ^ m"
    using a by (intro less_mult_imp_div_less) (simp add: power_add mult.commute)
  ultimately show "unat (drop_bit 8 w) < 2 ^ m" by simp
qed

lemma ucast_of_nat_byte: "x < 256 \<Longrightarrow> (ucast (of_nat x :: byte) :: 'a::len word) = of_nat x"
proof -
  assume "x < 256"
  then have "unat (of_nat x :: byte) = x" by (simp add: unat_of_nat take_bit_nat_eq_self)
  moreover have "(ucast (of_nat x :: byte) :: 'a word) = of_nat (unat (of_nat x :: byte))" by simp
  ultimately show ?thesis by simp
qed

lemma hi_lo: "push_bit 8 (drop_bit 8 w) OR ucast (ucast (w AND 0xff) :: byte) = (w :: 'a::len word)"
  by (rule bit_word_eqI) (auto simp: ucast_and_255 bit_or_iff bit_push_bit_iff bit_drop_bit_eq bit_ucast_iff)

lemma int13:
  assumes "unat (w :: u64) < 2 ^ 13"
  defines "e \<equiv> [ucast (drop_bit 8 w) OR 0xC0, ucast (w AND 0xff)]"
  shows "entry_ok e" and "lpGetWithSize e 0 None = Some (LV_int (get_integer w (push_bit 12 1) 8191), Some 3)"
proof -
  define x where "x = unat (drop_bit 8 w)"
  have x: "x < 32" using unat_drop8 [of w 5] assms(1) by (simp add: x_def)
  have b: "(ucast (drop_bit 8 w) :: byte) = of_nat x" and dx: "drop_bit 8 w = of_nat x" by (simp_all add: x_def)
  note k = kind_13bit [OF x, THEN conjunct1] kind_13bit [OF x, THEN conjunct2]
  have r: "rd e 0 = Some (of_nat x OR 0xC0)" "rd e 1 = Some (ucast (w AND 0xff))"
    by (simp_all add: e_def rd_def b)
  show "entry_ok e"
    using size_kind [OF r(1)] k(1) b by (intro entry_okI [OF e_def [THEN meta_eq_to_obj_eq]]) (simp_all add: e_def)
  have "push_bit 8 (ucast ((of_nat x OR 0xC0 :: byte) AND 0x1f)) OR ucast (ucast (w AND 0xff) :: byte) = w"
    unfolding k(2) using hi_lo [of w] dx x by (simp add: ucast_of_nat_byte)
  then show "lpGetWithSize e 0 None = Some (LV_int (get_integer w (push_bit 12 1) 8191), Some 3)"
    using get_kind [OF r(1)] k(1) r(2) by simp
qed

lemma int_entry:
  shows "entry_ok (lpEncodeIntegerGetType v) \<and>
    (\<exists>es. lpGetWithSize (lpEncodeIntegerGetType v) 0 None = Some (LV_int v, es))"
proof -
  let ?w = "\<lambda>k. if v <s 0 then push_bit (Suc k) 1 + v else v"
  note range = word_sle_eq sint_consts
  consider (1) "0 \<le>s v \<and> v \<le>s 127"
    | (2) "\<not> (0 \<le>s v \<and> v \<le>s 127)" "- 4096 \<le>s v \<and> v \<le>s 4095"
    | (3) "\<not> (0 \<le>s v \<and> v \<le>s 127)" "\<not> (- 4096 \<le>s v \<and> v \<le>s 4095)" "- 32768 \<le>s v \<and> v \<le>s 32767"
    | (4) "\<not> (0 \<le>s v \<and> v \<le>s 127)" "\<not> (- 4096 \<le>s v \<and> v \<le>s 4095)" "\<not> (- 32768 \<le>s v \<and> v \<le>s 32767)"
      "- 8388608 \<le>s v \<and> v \<le>s 8388607"
    | (5) "\<not> (0 \<le>s v \<and> v \<le>s 127)" "\<not> (- 4096 \<le>s v \<and> v \<le>s 4095)" "\<not> (- 32768 \<le>s v \<and> v \<le>s 32767)"
      "\<not> (- 8388608 \<le>s v \<and> v \<le>s 8388607)" "- 2147483648 \<le>s v \<and> v \<le>s 2147483647"
    | (6) "\<not> (0 \<le>s v \<and> v \<le>s 127)" "\<not> (- 4096 \<le>s v \<and> v \<le>s 4095)" "\<not> (- 32768 \<le>s v \<and> v \<le>s 32767)"
      "\<not> (- 8388608 \<le>s v \<and> v \<le>s 8388607)" "\<not> (- 2147483648 \<le>s v \<and> v \<le>s 2147483647)"
    by blast
  then show ?thesis
  proof cases
    case 1
    then have s: "0 \<le> sint v" "sint v \<le> 127" by (simp_all add: range)
    have "uint v \<le> 127" using s sint_uint_cases [of v] uint_lt2p [of v] by (auto split: if_splits)
    then have "v \<le> 127" by (simp add: word_le_def)
    then have u: "unat v < 128" by (simp add: word_le_nat_alt)
    have e: "lpEncodeIntegerGetType v = [ucast v]" using 1 by (simp add: lpEncodeIntegerGetType_def)
    have b: "(ucast v :: byte) = of_nat (unat v)" by simp
    have r: "rd [ucast v :: byte] 0 = Some (of_nat (unat v))" by (simp add: rd_def)
    have k: "kind (of_nat (unat v)) = 0" "(of_nat (unat v) :: byte) AND 0x7F = of_nat (unat v)" using kind_7bit [OF u] by blast+
    have "lpCurrentEncodedSizeUnsafe [ucast v] 0 = Some 1" using size_kind [OF r] k(1) by simp
    then have ok: "entry_ok [ucast v]" using k(1) by (intro entry_okI [OF refl]) simp_all
    have "(ucast (of_nat (unat v) AND 0x7F :: byte) :: u64) = v"
      using last_byte(1) [OF u] by simp
    moreover have "get_integer v UINT64_MAX 0 = v"
      using u by (auto simp: get_integer_def UINT64_MAX_def word_le_nat_alt)
    ultimately show ?thesis using ok e get_kind [OF r] k(1) by simp
  next
    case 2
    then have s: "- (2 ^ 12) \<le> sint v" "sint v < 2 ^ 12" by (simp_all add: range)
    note ss = small_signed [OF s]
    have e: "lpEncodeIntegerGetType v = [ucast (drop_bit 8 (?w 12)) OR 0xC0, ucast (?w 12 AND 0xff)]"
      using 2 by (simp add: lpEncodeIntegerGetType_def Let_def)
    have "unat (?w 12) < 2 ^ 13" "get_integer (?w 12) (push_bit 12 1) 8191 = v" using ss by simp_all
    then show ?thesis using int13 [of "?w 12"] unfolding e by simp
  next
    case 3
    then have s: "- (2 ^ 15) \<le> sint v" "sint v < 2 ^ 15" by (simp_all add: range)
    note ss = small_signed [OF s]
    have e: "lpEncodeIntegerGetType v = 0xF1 # le_enc 2 (?w 15)"
      using 3 by (simp add: lpEncodeIntegerGetType_def le_enc_unfold Let_def)
    have "unat (?w 15) < 2 ^ (8 * 2)" "get_integer (?w 15) (push_bit 15 1) 0xFFFF = v" using ss by simp_all
    then show ?thesis using tagged_int [of 3 2 "push_bit 15 1" "0xFFFF" "0xF1" "?w 15"] unfolding e by simp
  next
    case 4
    then have s: "- (2 ^ 23) \<le> sint v" "sint v < 2 ^ 23" by (simp_all add: range)
    note ss = small_signed [OF s]
    have e: "lpEncodeIntegerGetType v = 0xF2 # le_enc 3 (?w 23)"
      using 4 by (simp add: lpEncodeIntegerGetType_def le_enc_unfold Let_def)
    have "unat (?w 23) < 2 ^ (8 * 3)" "get_integer (?w 23) (push_bit 23 1) 0xFFFFFF = v" using ss by simp_all
    then show ?thesis using tagged_int [of 4 3 "push_bit 23 1" "0xFFFFFF" "0xF2" "?w 23"] unfolding e by simp
  next
    case 5
    then have s: "- (2 ^ 31) \<le> sint v" "sint v < 2 ^ 31" by (simp_all add: range)
    note ss = small_signed [OF s]
    have e: "lpEncodeIntegerGetType v = 0xF3 # le_enc 4 (?w 31)"
      using 5 by (simp add: lpEncodeIntegerGetType_def le_enc_unfold Let_def)
    have "unat (?w 31) < 2 ^ (8 * 4)" "get_integer (?w 31) (push_bit 31 1) 0xFFFFFFFF = v" using ss by simp_all
    then show ?thesis using tagged_int [of 5 4 "push_bit 31 1" "0xFFFFFFFF" "0xF3" "?w 31"] unfolding e by simp
  next
    case 6
    have e: "lpEncodeIntegerGetType v = 0xF4 # le_enc 8 v"
      using 6 unfolding lpEncodeIntegerGetType_def map_upt_bytes by (simp only: if_False)
    have u: "unat v < 2 ^ (8 * 8)" using unat_lt2p_u64 [of v] by simp
    have "get_integer v (push_bit 63 1) UINT64_MAX = v"
      by (simp add: get_integer_def UINT64_MAX_def)
    then show ?thesis using tagged_int [of 6 8 "push_bit 63 1" "UINT64_MAX" "0xF4" v, OF _ _ u] unfolding e by simp
  qed
qed

definition str_hdr :: "u32 \<Rightarrow> buffer" where
  "str_hdr len = (if len < 64 then [ucast (len OR 0x80)]
     else if len < 4096 then [ucast (drop_bit 8 len OR 0xE0), ucast (len AND 0xff)]
     else 0xF0 # map (\<lambda>i. ucast (drop_bit (8 * i) len AND 0xff)) [0..<4])"

lemma ucast_or_const: "(ucast (w OR 0x80 :: u32) :: byte) = ucast w OR 0x80" "(ucast (w OR 0xE0 :: u32) :: byte) = ucast w OR 0xE0"
  by (rule bit_word_eqI; auto simp: bit_or_iff bit_ucast_iff)+

lemma str_entry:
  assumes "length s + 5 < 2 ^ 32"
  defines "h \<equiv> str_hdr (of_nat (length s))"
  shows "entry_ok (h @ s)" and "lpGetWithSize (h @ s) 0 None = Some (LV_str (length h) (of_nat (length s)),
      Some (of_nat (length (block (h @ s)))))"
proof -
  define len :: u32 where "len = of_nat (length s)"
  have u: "unat len = length s" using assms(1) by (simp add: len_def unat_of_nat take_bit_nat_eq_self)
  have uc: "(ucast len :: u64) = of_nat (length s)" using u by (metis of_nat_unat)
  have "entry_ok (h @ s) \<and> (\<exists>es. lpGetWithSize (h @ s) 0 None = Some (LV_str (length h) (ucast len), es))"
  proof -
    consider (1) "len < 64" | (2) "\<not> len < 64" "len < 4096" | (3) "\<not> len < 64" "\<not> len < 4096" by blast
    then show ?thesis
    proof cases
      case 1
      then have x: "unat len < 64" by (simp add: word_less_nat_alt)
      have b: "(ucast len :: byte) = of_nat (unat len)" by simp
      have h: "h = [of_nat (unat len) OR 0x80]" using 1 by (simp add: h_def str_hdr_def ucast_or_const flip: len_def)
      have r: "rd (h @ s) 0 = Some (of_nat (unat len) OR 0x80)" by (simp add: h rd_def)
      note k = kind_6bit [OF x, THEN conjunct1] kind_6bit [OF x, THEN conjunct2]
      have n: "(ucast ((of_nat (unat len) OR 0x80 :: byte) AND 0x3F) :: u32) = len"
        unfolding k(2) using x by (subst ucast_of_nat_byte) simp_all
      have "lpCurrentEncodedSizeUnsafe (h @ s) 0 = Some (1 + len)"
        using size_kind [OF r] k(1) n by simp
      then have "entry_ok (h @ s)" using k(1) h assms(1) by (intro entry_okI [of _ "of_nat (unat len) OR 0x80" s]) (simp_all add: len_def)
      moreover have "\<exists>es. lpGetWithSize (h @ s) 0 None = Some (LV_str (length h) (ucast len), es)"
        using get_kind [OF r] k(1) n h by simp
      ultimately show ?thesis by blast
    next
      case 2
      define x where "x = unat (drop_bit 8 len)"
      have x: "x < 16" using 2 unat_drop8 [of len 4] by (simp add: x_def word_less_nat_alt)
      have b: "(ucast (drop_bit 8 len) :: byte) = of_nat x" and dx: "drop_bit 8 len = of_nat x" by (simp_all add: x_def)
      have h: "h = [of_nat x OR 0xE0, ucast (len AND 0xff)]" using 2 b by (simp add: h_def str_hdr_def ucast_or_const flip: len_def)
      have r: "rd (h @ s) 0 = Some (of_nat x OR 0xE0)" "rd (h @ s) 1 = Some (ucast (len AND 0xff))" by (simp_all add: h rd_def)
      note k = kind_12bit [OF x, THEN conjunct1] kind_12bit [OF x, THEN conjunct2]
      have n: "push_bit 8 (ucast ((of_nat x OR 0xE0 :: byte) AND 0xF)) OR ucast (ucast (len AND 0xff) :: byte) = len"
        unfolding k(2) using hi_lo [of len] dx x by (simp add: ucast_of_nat_byte)
      have "lpCurrentEncodedSizeUnsafe (h @ s) 0 = Some (2 + len)"
        using size_kind [OF r(1)] k(1) n r(2) by simp
      then have "entry_ok (h @ s)" using k(1) h assms(1) by (intro entry_okI [of _ "of_nat x OR 0xE0" "ucast (len AND 0xff) # s"]) (simp_all add: len_def)
      moreover have "\<exists>es. lpGetWithSize (h @ s) 0 None = Some (LV_str (length h) (ucast len), es)"
        using get_kind [OF r(1)] k(1) n r(2) h by simp
      ultimately show ?thesis by blast
    next
      case 3
      have h: "h = 0xF0 # le_enc 4 len" using 3 unfolding h_def str_hdr_def map_upt_bytes len_def [symmetric] by simp
      have r: "rd (h @ s) 0 = Some 0xF0" "rdn (h @ s) 1 4 = Some (le_enc 4 len)" by (simp_all add: h rd_def rdn_def)
      have n: "le_dec (le_enc 4 len) = len" by (rule le_dec_enc) simp
      have "lpCurrentEncodedSizeUnsafe (h @ s) 0 = Some (5 + len)"
        using size_kind [OF r(1)] n r(2) by simp
      then have "entry_ok (h @ s)" using h assms(1) by (intro entry_okI [of _ "0xF0" "le_enc 4 len @ s"]) (simp_all add: len_def)
      moreover have "\<exists>es. lpGetWithSize (h @ s) 0 None = Some (LV_str (length h) (ucast len), es)"
        using get_kind [OF r(1)] n r(2) h by simp
      ultimately show ?thesis by blast
    qed
  qed
  then have ok: "entry_ok (h @ s)" and g: "\<exists>es. lpGetWithSize (h @ s) 0 None = Some (LV_str (length h) (ucast len), es)" by blast+
  show "entry_ok (h @ s)" by (rule ok)
  from ok show "lpGetWithSize (h @ s) 0 None = Some (LV_str (length h) (of_nat (length s)),
      Some (of_nat (length (block (h @ s)))))"
    by (cases rule: entry_get) (use g uc in auto)
qed

lemma lpStringToInt64_eq: "lpStringToInt64 s = string2ll s"
proof -
  have "tl s = [] \<longleftrightarrow> length s = 1" if "s \<noteq> []" using that by (cases s) auto
  then show ?thesis by (auto simp: lpStringToInt64_def string2ll_def Let_def split: option.split)
qed

text \<open>The entry for a string and for an integer, and what the string form of an integer is.\<close>

definition entry_of :: "buffer \<Rightarrow> buffer" where
  "entry_of s = (case string2ll s of Some v \<Rightarrow> lpEncodeIntegerGetType v | None \<Rightarrow> str_hdr (of_nat (length s)) @ s)"

lemma int_entry_ok: "entry_ok (lpEncodeIntegerGetType v)" "entry_str (lpEncodeIntegerGetType v) = dec_int (sint v)"
  using int_entry [of v] by (auto simp: entry_str_def)

lemma length_int_entry: "length (lpEncodeIntegerGetType v) \<le> 9"
  by (simp add: lpEncodeIntegerGetType_def Let_def)

lemma length_str_hdr: "length (str_hdr n) \<le> 5"
  by (simp add: str_hdr_def)

lemma length_entry_of: "length (entry_of s) \<le> length s + 9"
  using length_int_entry length_str_hdr [of "of_nat (length s)"]
  by (auto simp: entry_of_def trans_le_add2 split: option.split)

lemma entry_of_ok:
  assumes "length s + 5 < 2 ^ 32"
  shows "entry_ok (entry_of s)" "entry_str (entry_of s) = s"
proof -
  have u: "unat (of_nat (length s) :: u64) = length s" using assms by (simp add: unat_of_nat take_bit_nat_eq_self)
  show "entry_ok (entry_of s)"
    using int_entry_ok(1) str_entry(1) [OF assms] by (simp add: entry_of_def split: option.split)
  show "entry_str (entry_of s) = s"
  proof (cases "string2ll s")
    case None
    then show ?thesis using str_entry(2) [OF assms] u by (simp add: entry_of_def entry_str_def)
  next
    case (Some v)
    then show ?thesis using int_entry_ok(2) [of v] string2ll_dec_int [of s v] by (simp add: entry_of_def)
  qed
qed

text \<open>
  \<open>encodes elestr eleint sz e\<close>: with these arguments \<open>lpInsert\<close> stores the entry \<open>e\<close>.
\<close>

definition encodes :: "buffer option \<Rightarrow> buffer option \<Rightarrow> u32 \<Rightarrow> buffer \<Rightarrow> bool" where
  "encodes elestr eleint sz e \<longleftrightarrow> entry_ok e \<and> \<not> (elestr = None \<and> eleint = None) \<and>
     (\<exists>enc. insert_encoding elestr eleint sz = (enc, of_nat (length e)) \<and>
        (\<forall>lp dst bl. dst + length e + length bl \<le> length lp \<longrightarrow>
           store_entry lp dst enc (of_nat (length e)) bl = wrn lp dst (e @ bl)))"

lemma wrn_wrn: "dst + length xs + length ys \<le> length lp \<Longrightarrow>
  wrn lp dst xs \<bind> (\<lambda>lp. wrn lp (dst + length xs) ys) = wrn lp dst (xs @ ys)"
  by (simp add: wrn_def ac_simps)

lemma encodes_int: "encodes None (Some (lpEncodeIntegerGetType v)) (of_nat (length (lpEncodeIntegerGetType v))) (lpEncodeIntegerGetType v)"
proof -
  let ?e = "lpEncodeIntegerGetType v"
  have l: "length ?e \<le> 9" by (rule length_int_entry)
  have u: "(ucast (of_nat (length ?e) :: u32) :: u64) = of_nat (length ?e)" "unat (of_nat (length ?e) :: u64) = length ?e"
    using l by (simp_all add: unsigned_of_nat take_bit_nat_eq_self)
  have "store_entry lp dst (ENC_INT ?e) (of_nat (length ?e)) bl = wrn lp dst (?e @ bl)"
    if "dst + length ?e + length bl \<le> length lp" for lp dst bl
    using wrn_wrn [OF that] u by (simp add: store_entry_def rdn_def)
  then show ?thesis using int_entry_ok u by (simp add: encodes_def insert_encoding_def)
qed

lemma encodes_str:
  assumes "length s + 5 < 2 ^ 32"
  shows "encodes (Some s) None (of_nat (length s)) (entry_of s)"
proof -
  define len :: u32 where "len = of_nat (length s)"
  have u: "unat len = length s" using assms by (simp add: len_def unat_of_nat take_bit_nat_eq_self)
  show ?thesis
  proof (cases "string2ll s")
    case (Some v)
    then have e: "entry_of s = lpEncodeIntegerGetType v" by (simp add: entry_of_def)
    have i: "insert_encoding (Some s) None len = (ENC_INT (entry_of s), of_nat (length (entry_of s)))"
      using Some u by (simp add: insert_encoding_def lpEncodeGetType_def lpStringToInt64_eq e Let_def)
    obtain enc where "insert_encoding None (Some (entry_of s)) (of_nat (length (entry_of s))) = (enc, of_nat (length (entry_of s)))"
      and st: "\<forall>lp dst bl. dst + length (entry_of s) + length bl \<le> length lp \<longrightarrow>
        store_entry lp dst enc (of_nat (length (entry_of s))) bl = wrn lp dst (entry_of s @ bl)"
      using encodes_int [of v] unfolding encodes_def e by blast
    then have "enc = ENC_INT (entry_of s)" by (simp add: insert_encoding_def)
    then show ?thesis using i st entry_of_ok [OF assms] unfolding encodes_def len_def [symmetric] by blast
  next
    case None
    then have e: "entry_of s = str_hdr len @ s" by (simp add: entry_of_def len_def)
    have le: "length (entry_of s) < 2 ^ 32" using e assms length_str_hdr [of len] by simp
    have ul: "unat (of_nat (length (entry_of s)) :: u64) = length (entry_of s)" using le by (simp add: unat_of_nat take_bit_nat_eq_self)
    have uc: "(ucast len :: u64) = of_nat (length s)" using u by (metis of_nat_unat)
    have "(if len < 64 then 1 + ucast len else if len < 4096 then 2 + ucast len else 5 + ucast len) = (of_nat (length (entry_of s)) :: u64)"
      using uc by (simp add: e str_hdr_def)
    then have i: "insert_encoding (Some s) None len = (ENC_STR s len, of_nat (length (entry_of s)))"
      using None u by (simp add: insert_encoding_def lpEncodeGetType_def lpStringToInt64_eq)
    have "store_entry lp dst (ENC_STR s len) (of_nat (length (entry_of s))) bl = wrn lp dst (entry_of s @ bl)"
      if fit: "dst + length (entry_of s) + length bl \<le> length lp" for lp dst bl
    proof -
      have "lpEncodeString lp dst s len = wrn lp dst (str_hdr len) \<bind> (\<lambda>lp. wrn lp (dst + length (str_hdr len)) s)"
        using u unfolding lpEncodeString_def str_hdr_def [symmetric] by (simp add: rdn_def Let_def)
      also have "\<dots> = wrn lp dst (entry_of s)" using fit by (simp add: wrn_wrn e)
      finally show ?thesis using wrn_wrn [OF fit] ul by (simp add: store_entry_def)
    qed
    then show ?thesis using i entry_of_ok [OF assms] unfolding encodes_def len_def [symmetric] by blast
  qed
qed

section \<open>The layout of a listpack\<close>

definition lp_body :: "buffer list \<Rightarrow> buffer" where
  "lp_body es = concat (map block es)"

definition lp_size :: "buffer list \<Rightarrow> nat" where
  "lp_size es = LP_HDR_SIZE + length (lp_body es) + 1"

definition lp_hdr :: "nat \<Rightarrow> u32 \<Rightarrow> buffer" where
  "lp_hdr n num = le_enc 4 (of_nat n :: u64) @ le_enc 2 num"

text \<open>
  The element count in the header is the number of entries or the mark for an unknown number.
\<close>

definition lp_rep :: "buffer \<Rightarrow> buffer list \<Rightarrow> bool" where
  "lp_rep lp es \<longleftrightarrow> list_all entry_ok es \<and> lp_size es < 2 ^ 32 \<and>
     (\<exists>num slack. lp = lp_hdr (lp_size es) num @ lp_body es @ [LP_EOF] @ slack \<and>
        (num = LP_HDR_NUMELE_UNKNOWN \<or> unat num = length es \<and> length es < 65535))"

definition lp_pos :: "buffer list \<Rightarrow> nat \<Rightarrow> nat" where
  "lp_pos es i = LP_HDR_SIZE + length (lp_body (take i es))"

lemma length_lp_hdr [simp]: "length (lp_hdr n num) = LP_HDR_SIZE"
  by (simp add: lp_hdr_def LP_HDR_SIZE_def)

lemma lp_body_simps [simp]: "lp_body [] = []" "lp_body (e # es) = block e @ lp_body es" "lp_body (es @ fs) = lp_body es @ lp_body fs"
  by (simp_all add: lp_body_def)


lemma lp_rep_split:
  assumes "lp_rep lp es" and "es = as @ e # bs"
  obtains num slack where "lp = (lp_hdr (lp_size es) num @ lp_body as) @ block e @ (lp_body bs @ [LP_EOF] @ slack)"
    "length (lp_hdr (lp_size es) num @ lp_body as) = lp_pos es (length as)" "entry_ok e"
  using assms by (auto simp: lp_rep_def lp_pos_def)

lemma lp_total:
  assumes "lp_rep lp es"
  shows "lpGetTotalBytes lp = Some (of_nat (lp_size es))" "unat (of_nat (lp_size es) :: u32) = lp_size es"
    "lpBytes lp = Some (of_nat (lp_size es))" "unat (of_nat (lp_size es) :: u64) = lp_size es"
    "lp_size es \<le> length lp"
proof -
  obtain num slack where lp: "lp = lp_hdr (lp_size es) num @ lp_body es @ [LP_EOF] @ slack" and lt: "lp_size es < 2 ^ 32"
    using assms by (auto simp: lp_rep_def)
  show u: "unat (of_nat (lp_size es) :: u32) = lp_size es" "unat (of_nat (lp_size es) :: u64) = lp_size es"
    using lt by (simp_all add: unat_of_nat take_bit_nat_eq_self)
  have le: "le_enc 4 (of_nat (lp_size es) :: u64) = le_enc 4 (of_nat (lp_size es) :: u32)"
  proof -
    have "(ucast (drop_bit (8 * i) (of_nat (lp_size es) :: u64)) :: byte) = ucast (drop_bit (8 * i) (of_nat (lp_size es) :: u32))" if "i < 4" for i
      using that by (intro bit_word_eqI) (auto simp: bit_ucast_iff bit_drop_bit_eq bit_of_nat_iff)
    then show ?thesis by (simp add: le_enc_def)
  qed
  have "rdn lp 0 4 = Some (le_enc 4 (of_nat (lp_size es) :: u32))" by (simp add: lp lp_hdr_def rdn_def le)
  then show "lpGetTotalBytes lp = Some (of_nat (lp_size es))"
    by (simp add: lpGetTotalBytes_def le_dec_enc)
  then show "lpBytes lp = Some (of_nat (lp_size es))"
    using u by (simp add: lpBytes_def) (metis of_nat_unat)
  show "lp_size es \<le> length lp" by (simp add: lp lp_size_def)
qed

lemma lp_num:
  assumes "lp = lp_hdr n num @ rest" and "num = LP_HDR_NUMELE_UNKNOWN \<or> unat num = k \<and> k < 65535"
  shows "lpGetNumElements lp = Some num"
proof -
  have "unat num < 2 ^ (8 * 2)" using assms(2) by (auto simp: LP_HDR_NUMELE_UNKNOWN_def)
  then have "le_dec (le_enc 2 num) = num" by (rule le_dec_enc_small)
  moreover have "rdn lp 4 2 = Some (le_enc 2 num)" by (simp add: assms(1) lp_hdr_def rdn_def)
  ultimately show ?thesis by (simp add: lpGetNumElements_def)
qed

end
