(* ===== verification/Redis_Listpack_Walk.thy ===== *)
theory Redis_Listpack_Walk
  imports Redis_Listpack_Entry
begin

text \<open>
  Walking, seeking, reading and searching in a block with the layout \<open>lp_rep\<close>: each operation of
  \<open>listpack.c\<close> that does not change the elements does on the block what its counterpart does on
  the list of entries, and none of its assertions fails.
\<close>

section \<open>Walking a listpack\<close>

lemma length_block: "length (block e) = length e + length (lpEncodeBacklen (of_nat (length e)))"
  by (simp add: block_def)

lemma lp_pos_Suc: "i < length es \<Longrightarrow> lp_pos es (Suc i) = lp_pos es i + length (block (es ! i))"
  by (simp add: lp_pos_def take_Suc_conv_app_nth)

lemma lp_pos_0 [simp]: "lp_pos es 0 = LP_HDR_SIZE"
  by (simp add: lp_pos_def)

lemma lp_pos_end: "lp_pos es (length es) = lp_size es - 1"
  by (simp add: lp_pos_def lp_size_def)

lemma lp_pos_le: "lp_pos es i \<le> lp_size es - 1"
proof -
  have "lp_body es = lp_body (take i es) @ lp_body (drop i es)"
    by (metis append_take_drop_id lp_body_simps(3))
  then show ?thesis by (simp add: lp_pos_def lp_size_def)
qed

lemma lp_at:
  assumes "lp_rep lp es" and "i < length es"
  obtains A B where "lp = A @ block (es ! i) @ B" "length A = lp_pos es i" "entry_ok (es ! i)"
    "lp_pos es (Suc i) = length A + length (block (es ! i))" "lp_pos es (Suc i) < lp_size es"
proof -
  have d: "es = take i es @ es ! i # drop (Suc i) es" using assms(2) by (rule id_take_nth_drop)
  obtain num slack where "lp = (lp_hdr (lp_size es) num @ lp_body (take i es)) @ block (es ! i) @ (lp_body (drop (Suc i) es) @ [LP_EOF] @ slack)"
      "length (lp_hdr (lp_size es) num @ lp_body (take i es)) = lp_pos es (length (take i es))" "entry_ok (es ! i)"
    using lp_rep_split [OF assms(1) d] by blast
  moreover have "lp_pos es (Suc i) < lp_size es" using lp_pos_le [of es "Suc i"] by (simp add: lp_size_def)
  moreover have "length (take i es) = i" using assms(2) by simp
  ultimately show thesis using lp_pos_Suc [OF assms(2)] by (intro that) (assumption | simp)+
qed

lemma entry_head: "entry_ok e \<Longrightarrow> \<exists>b e'. e = b # e' \<and> b \<noteq> LP_EOF"
  by (cases e) (auto simp: entry_ok_def)

lemma rd_entry:
  assumes "lp_rep lp es" and "i < length es"
  shows "rd lp (lp_pos es i) = Some (hd (es ! i))" "hd (es ! i) \<noteq> LP_EOF"
proof -
  obtain A B where a: "lp = A @ block (es ! i) @ B" "length A = lp_pos es i" "entry_ok (es ! i)"
    using lp_at [OF assms] by metis
  then show "rd lp (lp_pos es i) = Some (hd (es ! i))" "hd (es ! i) \<noteq> LP_EOF"
    using entry_head [OF a(3)] by (auto simp: rd_def block_def nth_append)
qed

lemma rd_end: "lp_rep lp es \<Longrightarrow> rd lp (lp_pos es (length es)) = Some LP_EOF"
  by (auto simp: lp_rep_def lp_pos_def rd_def nth_append)

lemma ucast_len: "length e < 2 ^ 32 \<Longrightarrow> (ucast (of_nat (length e) :: u32) :: u64) = of_nat (length e)"
  by (simp add: unsigned_of_nat take_bit_nat_eq_self)

lemma size_at:
  assumes "lp_rep lp es" and "i < length es"
  shows "lpCurrentEncodedSizeUnsafe lp (lp_pos es i) = Some (of_nat (length (es ! i)))"
proof -
  obtain A B where a: "lp = A @ block (es ! i) @ B" "length A = lp_pos es i" "entry_ok (es ! i)"
    using lp_at [OF assms] by metis
  then show ?thesis
    using size_app [of "es ! i" _ A "lpEncodeBacklen (of_nat (length (es ! i))) @ B"] by (simp add: block_def entry_ok_def)
qed

lemma unat_block: "entry_ok e \<Longrightarrow> unat (of_nat (length e) + backlen_size (of_nat (length e)) :: u64) = length (block e)"
  "entry_ok e \<Longrightarrow> unat (of_nat (length e) :: u64) = length e"
proof -
  assume e: "entry_ok e"
  have "length e < 2 ^ 32" using e by (simp add: entry_ok_def)
  then have "length (block e) < 2 ^ 33" using length_backlen(2) [of "of_nat (length e)"] by (simp add: length_block)
  then have "unat (of_nat (length (block e)) :: u64) = length (block e)" by (simp add: unat_of_nat take_bit_nat_eq_self)
  then show "unat (of_nat (length e) + backlen_size (of_nat (length e)) :: u64) = length (block e)"
    by (simp add: length_block)
  show "unat (of_nat (length e) :: u64) = length e"
    using \<open>length e < 2 ^ 32\<close> by (simp add: unat_of_nat take_bit_nat_eq_self)
qed

lemma skip_at:
  assumes "lp_rep lp es" and "i < length es"
  shows "lpSkip lp (lp_pos es i) = Some (lp_pos es (Suc i))"
proof -
  have e: "entry_ok (es ! i)" using lp_at [OF assms] by metis
  then have "length (es ! i) < 2 ^ 32" by (simp add: entry_ok_def)
  then show ?thesis
    using size_at [OF assms] unat_block(1) [OF e] lp_pos_Suc [OF assms(2)] by (simp add: lpSkip_def ucast_len Let_def)
qed

lemma size_bytes_le:
  assumes "entry_ok e"
  shows "\<exists>k. lpCurrentEncodedSizeBytes e 0 = Some k \<and> k \<noteq> 0 \<and> unat k \<le> length e"
proof -
  obtain b e' where e: "e = b # e'" "b \<noteq> LP_EOF" using entry_head [OF assms] by blast
  have r: "rd e 0 = Some b" by (simp add: e rd_def)
  have sz: "lpCurrentEncodedSizeUnsafe e 0 = Some (of_nat (length e))" and lt: "length e < 2 ^ 32"
    using assms by (auto simp: entry_ok_def)
  have k10: "kind b \<noteq> 10"
  proof
    assume "kind b = 10"
    then have "(of_nat (length e) :: u32) = 0" using size_kind [OF r] sz by simp
    then have "length e = 0" using lt using no_wrap [of "length e" 0 0] no_wrap [of 0 0 "length e"] by simp
    then show False by (simp add: e)
  qed
  show ?thesis
    using size_bytes_kind [OF r] k10 size_kind [OF r] sz
    by (cases rule: kind_cases [of b]) (auto simp: e rd_def rdn_def Suc_le_eq split: if_splits Option.bind_splits)
qed


lemma validate_at:
  assumes "lp_rep lp es" and "i < length es"
  shows "lpValidateNext lp (Some (lp_pos es i)) (lp_size es) = Some (True, Some (lp_pos es (Suc i)))"
proof -
  let ?e = "es ! i" and ?p = "lp_pos es i"
  obtain A B where a: "lp = A @ block ?e @ B" "length A = ?p" "entry_ok ?e"
      "lp_pos es (Suc i) = length A + length (block ?e)" "lp_pos es (Suc i) < lp_size es"
    using lp_at [OF assms] by blast
  let ?bl = "lpEncodeBacklen (of_nat (length ?e))"
  have lt: "length ?e < 2 ^ 32" using a(3) by (simp add: entry_ok_def)
  obtain k where k: "lpCurrentEncodedSizeBytes ?e 0 = Some k" "k \<noteq> 0" "unat k \<le> length ?e"
    using size_bytes_le [OF a(3)] by blast
  have k': "lpCurrentEncodedSizeBytes lp ?p = Some k"
    using size_bytes_app [OF k(1), of A "?bl @ B"] a(1,2) by (simp add: block_def)
  have "unat (of_nat (length ?e) :: u64) < 2 ^ 35" using unat_block(2) [OF a(3)] lt by simp
  then have "lpDecodeBacklen ((A @ ?e) @ ?bl @ B) (length (A @ ?e) + length ?bl - 1) = Some (of_nat (length ?e))"
    by (rule decode_backlen_at)
  then have dec: "lpDecodeBacklen lp (lp_pos es (Suc i) - 1) = Some (of_nat (length ?e))"
    using a by (simp add: block_def add.assoc)
  have p: "LP_HDR_SIZE \<le> ?p" by (simp add: lp_pos_def)
  note ub = unat_block(1) [OF a(3)]
  show ?thesis
    using rd_entry [OF assms] k k' size_at [OF assms] ub dec a(4,5) p lt a(2)
    by (simp add: lpValidateNext_def ucast_len Let_def length_block)
qed

lemma validate_end:
  assumes "lp_rep lp es"
  shows "lpValidateNext lp (Some (lp_pos es (length es))) (lp_size es) = Some (True, None)"
proof -
  have p: "LP_HDR_SIZE \<le> lp_pos es (length es)" by (simp add: lp_pos_def)
  show ?thesis
    using rd_end [OF assms] p by (simp add: lpValidateNext_def lp_pos_end) (simp add: lp_size_def)
qed

lemma assert_at: "lp_rep lp es \<Longrightarrow> i \<le> length es \<Longrightarrow> lpAssertValidEntry lp (lp_size es) (lp_pos es i) = Some ()"
  using validate_at [of lp es i] validate_end [of lp es]
  by (cases "i = length es") (auto simp: lpAssertValidEntry_def)

text \<open>The pointer to entry \<open>i\<close>, null past the last entry.\<close>

definition lp_ptr :: "buffer list \<Rightarrow> nat \<Rightarrow> nat option" where
  "lp_ptr es i = (if i < length es then Some (lp_pos es i) else None)"

lemma next_at:
  assumes "lp_rep lp es" and "i < length es"
  shows "lpNext lp (lp_pos es i) = Some (lp_ptr es (Suc i))"
proof (cases "Suc i < length es")
  case True
  then show ?thesis
    using skip_at [OF assms] rd_entry [OF assms(1) True] assert_at [OF assms(1), of "Suc i"] lp_total(3,4) [OF assms(1)]
    by (simp add: lpNext_def lp_ptr_def)
next
  case False
  then have "Suc i = length es" using assms(2) by simp
  then show ?thesis
    using skip_at [OF assms] rd_end [OF assms(1)] by (simp add: lpNext_def lp_ptr_def)
qed

lemma first_at: "lp_rep lp es \<Longrightarrow> lpFirst lp = Some (lp_ptr es 0)"
  using rd_entry [of lp es 0] rd_end [of lp es] assert_at [of lp es 0] lp_total(3,4) [of lp es]
  by (cases "es = []") (auto simp: lpFirst_def lp_ptr_def)

lemma lp_pos_gt: "i < length es \<Longrightarrow> entry_ok (es ! i) \<Longrightarrow> lp_pos es i + 2 \<le> lp_pos es (Suc i)"
  using lp_pos_Suc [of i es] length_backlen(1) [of "of_nat (length (es ! i))"] entry_head [of "es ! i"]
  by (auto simp: length_block)

lemma prev_at:
  assumes "lp_rep lp es" and "i < length es"
  shows "lpPrev lp (lp_pos es (Suc i)) = Some (Some (lp_pos es i))"
proof -
  let ?e = "es ! i"
  obtain A B where a: "lp = A @ block ?e @ B" "length A = lp_pos es i" "entry_ok ?e"
      "lp_pos es (Suc i) = length A + length (block ?e)"
    using lp_at [OF assms] by blast
  let ?bl = "lpEncodeBacklen (of_nat (length ?e))"
  have lt: "length ?e < 2 ^ 32" using a(3) by (simp add: entry_ok_def)
  have gt: "LP_HDR_SIZE < lp_pos es (Suc i)" 
    using lp_pos_gt [OF assms(2) a(3)] unfolding lp_pos_def by linarith
  have "unat (of_nat (length ?e) :: u64) < 2 ^ 35" using unat_block(2) [OF a(3)] lt by simp
  then have "lpDecodeBacklen ((A @ ?e) @ ?bl @ B) (length (A @ ?e) + length ?bl - 1) = Some (of_nat (length ?e))"
    by (rule decode_backlen_at)
  then have dec: "lpDecodeBacklen lp (lp_pos es (Suc i) - 1) = Some (of_nat (length ?e))"
    using a by (simp add: block_def add.assoc)
  have ub: "unat (of_nat (length ?e) + backlen_size (of_nat (length ?e)) - 1 :: u64) = length (block ?e) - 1"
    using unat_pred [of "of_nat (length ?e) + backlen_size (of_nat (length ?e)) :: u64"] unat_block(1) [OF a(3)] entry_head [OF a(3)]
    by (auto simp: length_block)
  have q: "lp_pos es (Suc i) - 1 - (length (block ?e) - 1) = lp_pos es i" "\<not> lp_pos es (Suc i) - 1 < length (block ?e) - 1"
    using a(2,4) gt length_block [of ?e] length_backlen(1) [of "of_nat (length ?e)"] by auto
  have as: "lpAssertValidEntry lp (lp_size es) (lp_pos es i) = Some ()" using assert_at [OF assms(1)] assms(2) by simp
  show ?thesis
    using gt dec ub q as lp_total(3,4) [OF assms(1)] by (simp add: lpPrev_def Let_def)
qed

lemma prev_0: "lpPrev lp LP_HDR_SIZE = Some None"
  by (simp add: lpPrev_def)

lemma last_at:
  assumes "lp_rep lp es"
  shows "lpLast lp = Some (if es = [] then None else Some (lp_pos es (length es - 1)))"
proof (cases es rule: rev_cases)
  case Nil
  then show ?thesis using lp_total(1,2) [OF assms] prev_0 lp_pos_end [of es]
    by (auto simp: lpLast_def lp_size_def)
next
  case (snoc xs x)
  then have "length es - 1 < length es" "Suc (length es - 1) = length es" by auto
  moreover have "(of_nat (lp_size es) :: u32) \<noteq> 0" using lp_total(2) [OF assms] by (auto simp: lp_size_def)
  ultimately show ?thesis using lp_total(1,2) [OF assms] prev_at [OF assms, of "length es - 1"] lp_pos_end [of es] snoc
    by (simp add: lpLast_def)
qed

section \<open>Length and seeking\<close>

lemma lp_count:
  assumes "lp_rep lp es"
  shows "length es < 2 ^ 32"
proof -
  have "length es \<le> length (lp_body es)" if "list_all entry_ok es" for es
    using that
  proof (induction es)
    case (Cons e es)
    then show ?case using entry_head [of e] by (auto simp: length_block)
  qed simp
  from this [of es] show ?thesis using assms by (auto simp: lp_rep_def lp_size_def)
qed

lemma length_loop_at:
  assumes "lp_rep lp es" and "i \<le> length es"
  shows "length_loop lp (lp_ptr es i) (of_nat i) = Some (of_nat (length es))"
  using assms(2)
proof (induction "length es - i" arbitrary: i)
  case 0
  then show ?case by (subst length_loop.simps) (simp add: lp_ptr_def)
next
  case (Suc n)
  then have "i < length es" by simp
  with Suc show ?case
    using next_at [OF assms(1), of i] Suc.hyps(1) [of "Suc i"]
    by (subst length_loop.simps) (simp add: lp_ptr_def [of es i] add.commute)
qed

lemma set_num:
  assumes "lp = lp_hdr n num @ rest"
  shows "lpSetNumElements lp (ucast num') = Some (lp_hdr n num' @ rest)"
proof -
  have "le_enc 2 (ucast num' :: u64) = le_enc 2 num'"
  proof -
    have "(ucast (drop_bit (8 * i) (ucast num' :: u64)) :: byte) = ucast (drop_bit (8 * i) num')" if "i < 2" for i
      using that by (intro bit_word_eqI) (auto simp: bit_ucast_iff bit_drop_bit_eq)
    then show ?thesis by (simp add: le_enc_def)
  qed
  then show ?thesis by (simp add: assms lpSetNumElements_def lp_hdr_def wrn_def)
qed

lemma lpLength_ok:
  assumes "lp_rep lp es"
  shows "\<exists>lp'. lpLength lp = Some (lp', of_nat (length es)) \<and> lp_rep lp' es \<and> length lp' = length lp"
proof -
  obtain num slack where lp: "lp = lp_hdr (lp_size es) num @ lp_body es @ [LP_EOF] @ slack"
      and num: "num = LP_HDR_NUMELE_UNKNOWN \<or> unat num = length es \<and> length es < 65535"
    using assms by (auto simp: lp_rep_def)
  have g: "lpGetNumElements lp = Some num" using lp num by (rule lp_num)
  show ?thesis
  proof (cases "num = LP_HDR_NUMELE_UNKNOWN")
    case False
    then have "(ucast num :: u64) = of_nat (length es)" using num by (metis of_nat_unat)
    then show ?thesis using False g assms by (simp add: lpLength_def)
  next
    case True
    have c: "length_loop lp (lp_ptr es 0) 0 = Some (of_nat (length es))" using length_loop_at [OF assms, of 0] by simp
    have u: "unat (of_nat (length es) :: u32) = length es" using lp_count [OF assms] by (simp add: unat_of_nat take_bit_nat_eq_self)
    then have uc: "(ucast (of_nat (length es) :: u32) :: u64) = of_nat (length es)" by (metis of_nat_unat)
    show ?thesis
    proof (cases "(of_nat (length es) :: u32) < LP_HDR_NUMELE_UNKNOWN")
      case t: True
      then have "length es < 65535" using u by (simp add: word_less_nat_alt LP_HDR_NUMELE_UNKNOWN_def)
      moreover have "lpSetNumElements lp (ucast (of_nat (length es) :: u32)) =
          Some (lp_hdr (lp_size es) (of_nat (length es)) @ lp_body es @ [LP_EOF] @ slack)"
        using lp by (rule set_num)
      ultimately show ?thesis
        using True g c t u uc first_at [OF assms] assms by (auto simp: lpLength_def lp_rep_def lp)
    next
      case False
      then show ?thesis using True g c uc first_at [OF assms] assms by (simp add: lpLength_def)
    qed
  qed
qed

lemma seek_forward_at:
  assumes "lp_rep lp es"
  shows "seek_forward lp (lp_ptr es i) n = Some (lp_ptr es (i + n))"
proof (induction n arbitrary: i)
  case 0
  show ?case by (cases "lp_ptr es i") simp_all
next
  case (Suc n)
  show ?case
  proof (cases "i < length es")
    case True
    then show ?thesis using next_at [OF assms True] Suc.IH [of "Suc i"] by (simp add: lp_ptr_def [of es i])
  next
    case False
    then show ?thesis by (simp add: lp_ptr_def)
  qed
qed

lemma seek_backward_at:
  assumes "lp_rep lp es" and "i < length es"
  shows "seek_backward lp (Some (lp_pos es i)) n = Some (if n \<le> i then Some (lp_pos es (i - n)) else None)"
  using assms(2)
proof (induction n arbitrary: i)
  case (Suc n)
  show ?case
  proof (cases i)
    case 0
    then show ?thesis by (simp add: prev_0)
  next
    case (Suc j)
    then show ?thesis using prev_at [OF assms(1), of j] Suc.IH [of j] Suc.prems by simp
  qed
qed simp

text \<open>The entry an index denotes.\<close>

definition lp_index :: "buffer list \<Rightarrow> int \<Rightarrow> nat option" where
  "lp_index es index =
     (let i = (if index < 0 then int (length es) + index else index)
      in if 0 \<le> i \<and> i < int (length es) then Some (nat i) else None)"

lemma lpSeek_ok:
  assumes "lp_rep lp es"
  shows "lpSeek lp index = Some (map_option (lp_pos es) (lp_index es index))"
proof -
  obtain num slack where lp: "lp = lp_hdr (lp_size es) num @ lp_body es @ [LP_EOF] @ slack"
      and num: "num = LP_HDR_NUMELE_UNKNOWN \<or> unat num = length es \<and> length es < 65535"
    using assms by (auto simp: lp_rep_def)
  have g: "lpGetNumElements lp = Some num" using lp num by (rule lp_num)
  have fwd: "(lpFirst lp \<bind> (\<lambda>ele. seek_forward lp ele n)) = Some (lp_ptr es n)" for n
    using first_at [OF assms] seek_forward_at [OF assms, of 0 n] by simp
  have bwd: "(lpLast lp \<bind> (\<lambda>ele. seek_backward lp ele n)) = Some (if n < length es then Some (lp_pos es (length es - 1 - n)) else None)" for n
  proof (cases es)
    case Nil
    then show ?thesis using last_at [OF assms] by simp
  next
    case (Cons x xs)
    then have "length es - 1 < length es" "n \<le> length es - 1 \<longleftrightarrow> n < length es" "es \<noteq> []" by auto
    then show ?thesis using last_at [OF assms] seek_backward_at [OF assms, of "length es - 1" n] by simp
  qed
  show ?thesis
  proof (cases "num = LP_HDR_NUMELE_UNKNOWN")
    case True
    show ?thesis
    proof (cases "index < 0")
      case neg: True
      have "nat (- 1 - index) < length es \<longleftrightarrow> 0 \<le> int (length es) + index" using neg by linarith
      moreover have "length es - 1 - nat (- 1 - index) = nat (int (length es) + index)" using neg by linarith
      ultimately show ?thesis using True neg g bwd by (simp add: lpSeek_def lp_index_def)
    next
      case False
      then have "nat index < length es \<longleftrightarrow> index < int (length es)" by linarith
      then show ?thesis using True False g fwd by (simp add: lpSeek_def lp_index_def lp_ptr_def)
    qed
  next
    case False
    then have u: "uint num = int (length es)" using num by (simp add: uint_nat)
    define i where "i = (if index < 0 then int (length es) + index else index)"
    have i: "lp_index es index = (if 0 \<le> i \<and> i < int (length es) then Some (nat i) else None)"
      by (simp add: lp_index_def i_def)
    have eq: "lpSeek lp index = (if i < 0 \<or> int (length es) \<le> i then Some None
        else if int (length es) div 2 < i then lpLast lp \<bind> (\<lambda>ele. seek_backward lp ele (nat (- 1 - (i - int (length es)))))
        else lpFirst lp \<bind> (\<lambda>ele. seek_forward lp ele (nat i)))"
      unfolding lpSeek_def g i_def u [symmetric] using False by (cases "index < 0") simp_all
    have b: "nat (- 1 - (i - int (length es))) < length es" "length es - 1 - nat (- 1 - (i - int (length es))) = nat i"
      if "0 \<le> i" "i < int (length es)" using that by linarith+
    show ?thesis unfolding eq fwd bwd i
      using b by (auto simp: lp_ptr_def)
  qed
qed

section \<open>Reading and searching\<close>

lemma get_at:
  assumes "lp_rep lp es" and "i < length es"
  obtains (istr) q n where "lpGetWithSize lp (lp_pos es i) None = Some (LV_str q n, Some (of_nat (length (block (es ! i)))))"
      "rdn lp q (unat n) = Some (entry_str (es ! i))" "unat n = length (entry_str (es ! i))"
    | (iint) v where "lpGetWithSize lp (lp_pos es i) None = Some (LV_int v, Some (of_nat (length (block (es ! i)))))"
      "entry_str (es ! i) = dec_int (sint v)"
proof -
  let ?e = "es ! i"
  obtain A B where a: "lp = A @ block ?e @ B" "length A = lp_pos es i" "entry_ok ?e"
    using lp_at [OF assms] by metis
  have lp: "lp = A @ ?e @ (lpEncodeBacklen (of_nat (length ?e)) @ B)" using a(1) by (simp add: block_def)
  note l = lifts_get [of A ?e "lpEncodeBacklen (of_nat (length ?e)) @ B", folded lp, unfolded a(2) lifts_def]
  show thesis
    using a(3)
  proof (cases rule: entry_get)
    case (istr off n)
    then have "lpGetWithSize lp (lp_pos es i) None = Some (LV_str (lp_pos es i + off) n, Some (of_nat (length (block ?e))))"
      using l by simp
    moreover have "rdn lp (lp_pos es i + off) (unat n) = Some (entry_str ?e)"
      using istr(2,3) by (simp add: lp rdn_def flip: a(2))
    ultimately show thesis using istr(2,3) that(1) by fastforce
  next
    case (iint v)
    then show thesis using l that(2) by simp
  qed
qed

lemma lpCompare_at:
  assumes "lp_rep lp es" and "i < length es" and "length s < 2 ^ 32"
  shows "lpCompare lp (lp_pos es i) s (of_nat (length s)) = Some (entry_str (es ! i) = s)"
proof -
  have u: "unat (of_nat (length s) :: u32) = length s" using assms(3) by (simp add: unat_of_nat take_bit_nat_eq_self)
  have uc: "(ucast (of_nat (length s) :: u32) :: u64) = of_nat (length s)" using u by (metis of_nat_unat)
  have u64: "unat (of_nat (length s) :: u64) = length s" using assms(3) by (simp add: unat_of_nat take_bit_nat_eq_self)
  show ?thesis
    using assms(1,2)
  proof (cases rule: get_at)
    case (istr q n)
    show ?thesis
    proof (cases "n = of_nat (length s)")
      case True
      then show ?thesis using istr rd_entry [OF assms(1,2)] u uc u64 by (simp add: lpCompare_def lpGet_def rdn_def [of s])
    next
      case False
      have "n = of_nat (unat n)" by simp
      with False have "entry_str (es ! i) \<noteq> s" using istr(3) by metis
      then show ?thesis using False istr rd_entry [OF assms(1,2)] uc by (auto simp: lpCompare_def lpGet_def)
    qed
  next
    case (iint v)
    then have "(entry_str (es ! i) = s) = (string2ll s = Some v)" using string2ll_dec_int [of s v] by auto
    then show ?thesis
      using rd_entry [OF assms(1,2)] u iint(1)
      by (cases "string2ll s") (auto simp: lpCompare_def lpGet_def lpStringToInt64_eq)
  qed
qed

text \<open>The first match, comparing every \<open>skip + 1\<close>-th entry after the first \<open>c\<close>.\<close>

fun lp_search :: "buffer \<Rightarrow> nat \<Rightarrow> nat \<Rightarrow> buffer list \<Rightarrow> nat option" where
  "lp_search s skip c [] = None"
| "lp_search s skip 0 (e # es) = (if e = s then Some 0 else map_option Suc (lp_search s skip skip es))"
| "lp_search s skip (Suc c) (e # es) = map_option Suc (lp_search s skip c es)"

lemma find_compare_at:
  assumes "lp_rep lp es" and "i < length es" and "length s < 2 ^ 32" and "venc = None \<or> venc = Some (string2ll s)"
  shows "\<exists>venc'. find_compare lp (lp_pos es i) s (of_nat (length s)) (lp_size es) venc x =
      Some (entry_str (es ! i) = s, venc', of_nat (length (block (es ! i)))) \<and> (venc' = None \<or> venc' = Some (string2ll s))"
proof -
  have u: "unat (of_nat (length s) :: u32) = length s" using assms(3) by (simp add: unat_of_nat take_bit_nat_eq_self)
  have uc: "(ucast (of_nat (length s) :: u32) :: u64) = of_nat (length s)" using u by (metis of_nat_unat)
  have u64: "unat (of_nat (length s) :: u64) = length s" using assms(3) by (simp add: unat_of_nat take_bit_nat_eq_self)
  have ok: "entry_ok (es ! i)" using lp_at [OF assms(1,2)] by metis
  have ub: "unat (of_nat (length (block (es ! i))) :: u64) = length (block (es ! i))"
    using unat_block(1) [OF ok] by (simp add: length_block)
  have rng: "LP_HDR_SIZE \<le> lp_pos es i" "lp_pos es i + length (block (es ! i)) < lp_size es"
    using lp_at [OF assms(1,2)] by (simp add: lp_pos_def) (metis lp_at [OF assms(1,2)])
  show ?thesis
    using assms(1,2)
  proof (cases rule: get_at)
    case (istr q n)
    show ?thesis
    proof (cases "n = of_nat (length s)")
      case True
      then show ?thesis using istr ub rng u uc u64 assms(4) by (simp add: find_compare_def rdn_def [of s])
    next
      case False
      have "n = of_nat (unat n)" by simp
      with False have "entry_str (es ! i) \<noteq> s" using istr(3) by metis
      then show ?thesis using False istr ub rng uc assms(4) by (auto simp: find_compare_def)
    qed
  next
    case (iint v)
    have long: "string2ll s = None" if "32 \<le> (of_nat (length s) :: u32) \<or> (of_nat (length s) :: u32) = 0"
      using that u by (auto simp: word_le_nat_alt string2ll_def LONG_STR_SIZE_def)
    have "(entry_str (es ! i) = s) = (Some (string2ll s) = Some (Some v))"
      using iint(2) string2ll_dec_int [of s v] by auto
    then show ?thesis using iint long u assms(4) by (auto simp: find_compare_def lpStringToInt64_eq)
  qed
qed


lemma find_loop_at:
  assumes "lp_rep lp es" and "i < length es" and "length s < 2 ^ 32" and "venc = None \<or> venc = Some (string2ll s)"
  shows "find_loop lp s (of_nat (length s)) skip (lp_size es) (lp_pos es i) c venc x =
    Some (map_option (\<lambda>k. lp_pos es (i + k)) (lp_search s (unat skip) (unat c) (drop i (map entry_str es))))"
  using assms(2,4)
proof (induction "length es - i" arbitrary: i c venc x)
  case (Suc n)
  have d: "drop i (map entry_str es) = entry_str (es ! i) # drop (Suc i) (map entry_str es)"
    using Suc.prems(1) Cons_nth_drop_Suc [of i "map entry_str es"] by simp
  let ?p' = "lp_pos es (Suc i)"
  have chk: "(if lp_size es \<le> ?p' + 8 then lpAssertValidEntry lp (lp_size es) ?p'
      else if LP_HDR_SIZE \<le> ?p' \<and> ?p' < lp_size es then Some () else None) = Some ()"
    using assert_at [OF assms(1), of "Suc i"] Suc.prems(1) by (auto simp: lp_pos_def)
  have rest: "(rd lp ?p' \<bind> (\<lambda>b. if b = LP_EOF then Some None
        else find_loop lp s (of_nat (length s)) skip (lp_size es) ?p' c' venc' x')) =
      Some (map_option (\<lambda>k. lp_pos es (Suc i + k)) (lp_search s (unat skip) (unat c') (drop (Suc i) (map entry_str es))))"
    if v: "venc' = None \<or> venc' = Some (string2ll s)" for c' venc' x'
  proof (cases "Suc i < length es")
    case True
    then show ?thesis using rd_entry [OF assms(1) True] Suc.hyps(1) [OF _ True v, of c' x'] Suc.hyps(2) by simp
  next
    case False
    then have "Suc i = length es" using Suc.prems(1) by simp
    then show ?thesis using rd_end [OF assms(1)] by simp
  qed
  show ?case
  proof (cases "c = 0")
    case True
    obtain venc' where f: "find_compare lp (lp_pos es i) s (of_nat (length s)) (lp_size es) venc x =
        Some (entry_str (es ! i) = s, venc', of_nat (length (block (es ! i))))" "venc' = None \<or> venc' = Some (string2ll s)"
      using find_compare_at [OF assms(1) Suc.prems(1) assms(3) Suc.prems(2)] by blast
    have ok: "entry_ok (es ! i)" using lp_at [OF assms(1) Suc.prems(1)] by metis
    have ub: "lp_pos es i + unat (of_nat (length (block (es ! i))) :: u64) = ?p'"
      using unat_block(1) [OF ok] lp_pos_Suc [OF Suc.prems(1)] by (simp add: length_block)
    show ?thesis
    proof (cases "entry_str (es ! i) = s")
      case m: True
      then show ?thesis using True f(1) d by (subst find_loop.simps) simp
    next
      case m: False
      then show ?thesis
        using True f(1) d ub chk rest [OF f(2), of skip] by (subst find_loop.simps) (simp add: option.map_comp comp_def)
    qed
  next
    case False
    then obtain c' where c': "unat c = Suc c'" by (metis not0_implies_Suc unat_eq_0)
    then have "unat (c - 1) = c'" using unat_pred [of c] by simp
    then show ?thesis
      using False c' d chk rest [OF Suc.prems(2), of "c - 1"] skip_at [OF assms(1) Suc.prems(1)]
      by (subst find_loop.simps) (simp add: option.map_comp comp_def)
  qed
qed simp

lemma lpFind_at:
  assumes "lp_rep lp es" and "i < length es" and "length s < 2 ^ 32"
  shows "lpFind lp (lp_pos es i) s (of_nat (length s)) skip =
    Some (map_option (\<lambda>k. lp_pos es (i + k)) (lp_search s (unat skip) 0 (drop i (map entry_str es))))"
  using find_loop_at [OF assms, of None skip 0] lp_total(3,4) [OF assms(1)] by (simp add: lpFind_def)

end
