(* ===== verification/Redis_Listpack_Update.thy ===== *)
theory Redis_Listpack_Update
  imports Redis_Listpack_Walk
begin

text \<open>
  The updates of \<open>listpack.c\<close> on a block with the layout \<open>lp_rep\<close>: insertion, replacement, deletion
  of one entry, of a range and of everything from an index on, and the merge of two listpacks. Each
  proof follows the reallocation and the moves of bytes.
\<close>

section \<open>Insertion, replacement and deletion\<close>

lemma realloc_keep:
  assumes "lp = X @ Z" and "length X \<le> n"
  shows "\<exists>Z'. lp_realloc al lp n = X @ Z' \<and> n \<le> length (lp_realloc al lp n)"
proof
  show "lp_realloc al lp n = X @ (take (n - length X) Z @ map (lp_junk al) [min n (length lp)..<n + lp_slack al n]) \<and>
      n \<le> length (lp_realloc al lp n)"
    using assms by (auto simp: lp_realloc_def)
qed

text \<open>
  The memory steps of \<open>lpInsert\<close>: growing the block, moving the tail, shrinking the block and
  storing the new bytes replace \<open>R\<close> by \<open>N\<close>.
\<close>

lemma splice:
  fixes N :: buffer and al :: lp_alloc
  assumes lp: "lp = P @ R @ Y @ S" and Y: "Y \<noteq> []"
  defines "old \<equiv> length P + length R + length Y" and "new \<equiv> length P + length N + length Y"
  defines "lp1 \<equiv> if old < new \<and> length lp < new then lp_realloc al lp new else lp"
  obtains lp2 S' where "memmove lp1 (length P + length N) (length P + length R) (length Y) = Some lp2"
    "wrn (if new < old then lp_realloc al lp2 new else lp2) (length P) N = Some (P @ N @ Y @ S')"
    "N = [] \<Longrightarrow> rd (if new < old then lp_realloc al lp2 new else lp2) (length P) = Some (hd Y)"
proof -
  have "\<exists>S1. lp1 = P @ R @ Y @ S1 \<and> new \<le> length lp1"
  proof (cases "old < new \<and> length lp < new")
    case True
    then have "length (P @ R @ Y) \<le> new" by (simp add: old_def)
    then obtain Z' where "lp_realloc al lp new = (P @ R @ Y) @ Z'" "new \<le> length (lp_realloc al lp new)"
      using realloc_keep [of lp "P @ R @ Y" S new al] lp by auto
    then show ?thesis using True by (simp add: lp1_def)
  next
    case False
    then show ?thesis using lp by (auto simp: lp1_def old_def)
  qed
  then obtain S1 where lp1: "lp1 = P @ R @ Y @ S1" and len: "new \<le> length lp1" by blast
  define T where "T = take (length P + length N) lp1"
  define D where "D = drop new lp1"
  have "length P + length N \<le> length lp1" using len by (simp add: new_def)
  then have T: "length T = length P + length N" "take (length P) T = P" unfolding T_def by (simp, simp add: lp1)
  have "rdn lp1 (length P + length R) (length Y) = Some Y" by (simp add: lp1 rdn_def)
  then have mm: "memmove lp1 (length P + length N) (length P + length R) (length Y) = Some (T @ Y @ D)"
    using len by (simp add: memmove_def wrn_def T_def D_def new_def)
  have "\<exists>S'. (if new < old then lp_realloc al (T @ Y @ D) new else T @ Y @ D) = T @ Y @ S'"
    using realloc_keep [of "T @ Y @ D" "T @ Y" D new al] T(1) by (auto simp: new_def)
  then obtain S' where lp3: "(if new < old then lp_realloc al (T @ Y @ D) new else T @ Y @ D) = T @ Y @ S'" by blast
  have "wrn (T @ Y @ S') (length P) N = Some (P @ N @ Y @ S')"
    using T by (simp add: wrn_def)
  moreover have "rd (T @ Y @ S') (length P) = Some (hd Y)" if "N = []"
    using that T(1) Y by (cases Y) (simp_all add: rd_def nth_append)
  ultimately show thesis using that [OF mm] lp3 by simp
qed

lemma set_total:
  assumes "lp = lp_hdr n num @ rest"
  shows "lpSetTotalBytes lp (of_nat n') = Some (lp_hdr n' num @ rest)"
  by (simp add: assms lpSetTotalBytes_def lp_hdr_def wrn_def)

text \<open>The entry count after an insertion or a deletion.\<close>

lemma num_step:
  assumes "num = LP_HDR_NUMELE_UNKNOWN \<or> unat num = k \<and> k < 65535" and "\<not> ins \<Longrightarrow> 0 < k"
  defines "num' \<equiv> if num = LP_HDR_NUMELE_UNKNOWN then num else if ins then num + 1 else num - 1"
    and "k' \<equiv> if ins then k + 1 else k - 1"
  shows "num' = LP_HDR_NUMELE_UNKNOWN \<or> unat num' = k' \<and> k' < 65535"
proof (cases "num = LP_HDR_NUMELE_UNKNOWN")
  case False
  then have k: "unat num = k" "k < 65535" using assms(1) by auto
  have "unat (num + 1) = k + 1" using k by (simp add: unat_word_ariths)
  moreover have "unat (num - 1) = k - 1" if "0 < k" using k that unat_pred [of num] by simp
  moreover have "num + 1 = LP_HDR_NUMELE_UNKNOWN" if "k + 1 = 65535"
    using that \<open>unat (num + 1) = k + 1\<close> by (simp add: LP_HDR_NUMELE_UNKNOWN_def word_unat_eq_iff)
  ultimately show ?thesis using k False assms(2) by (cases "k + 1 = 65535") (auto simp: num'_def k'_def)
qed (simp add: num'_def)

lemma header_step:
  assumes lp: "lp = lp_hdr n num @ rest" and num: "num = LP_HDR_NUMELE_UNKNOWN \<or> unat num = k \<and> k < 65535"
  shows "(lpGetNumElements lp \<bind> (\<lambda>x. if x \<noteq> LP_HDR_NUMELE_UNKNOWN
      then lpSetNumElements lp (ucast (if ins then x + 1 else x - 1)) else Some lp)) =
    Some (lp_hdr n (if num = LP_HDR_NUMELE_UNKNOWN then num else if ins then num + 1 else num - 1) @ rest)"
  using lp_num [OF lp num] set_num [OF lp] lp by simp

lemma lp_size_app: "lp_size (as @ bs) = LP_HDR_SIZE + length (lp_body as) + length (lp_body bs) + 1"
  by (simp add: lp_size_def)

lemma lp_parts:
  assumes "lp_rep lp (as @ rs @ bs)"
  obtains num S where "lp = (lp_hdr (lp_size (as @ rs @ bs)) num @ lp_body as) @ lp_body rs @ (lp_body bs @ [LP_EOF]) @ S"
    "num = LP_HDR_NUMELE_UNKNOWN \<or> unat num = length (as @ rs @ bs) \<and> length (as @ rs @ bs) < 65535"
    "lp_pos (as @ rs @ bs) (length as) = length (lp_hdr (lp_size (as @ rs @ bs)) num @ lp_body as)"
  using assms by (auto simp: lp_rep_def lp_pos_def)

lemma rep_parts:
  assumes "lp_rep lp (as @ rs @ bs)" and "list_all entry_ok ns" and "lp_size (as @ ns @ bs) < 2 ^ 32"
    and "num = LP_HDR_NUMELE_UNKNOWN \<or> unat num = length (as @ ns @ bs) \<and> length (as @ ns @ bs) < 65535"
  shows "lp_rep (lp_hdr (lp_size (as @ ns @ bs)) num @ lp_body as @ lp_body ns @ (lp_body bs @ [LP_EOF]) @ S) (as @ ns @ bs)"
  using assms by (auto simp: lp_rep_def)

text \<open>Sizes as machine words.\<close>

lemma size_words:
  assumes "n < 2 ^ 32" and "n' < 2 ^ 34"
  shows "unat (of_nat n :: u64) = n" "unat (of_nat n' :: u64) = n'" "(ucast (of_nat n :: u32) :: u64) = of_nat n"
    "UINT32_MAX < of_nat n' \<longleftrightarrow> \<not> n' < 2 ^ 32"
    "(of_nat n :: u64) < of_nat n' \<longleftrightarrow> n < n'" "(of_nat n' :: u64) < of_nat n \<longleftrightarrow> n' < n"
proof -
  show u: "unat (of_nat n :: u64) = n" "unat (of_nat n' :: u64) = n'"
    using assms by (simp_all add: unat_of_nat take_bit_nat_eq_self)
  show "(ucast (of_nat n :: u32) :: u64) = of_nat n" using assms(1) by (simp add: unsigned_of_nat take_bit_nat_eq_self)
  show "UINT32_MAX < of_nat n' \<longleftrightarrow> \<not> n' < 2 ^ 32" using u by (auto simp: word_less_nat_alt UINT32_MAX_def)
  show "(of_nat n :: u64) < of_nat n' \<longleftrightarrow> n < n'" "(of_nat n' :: u64) < of_nat n \<longleftrightarrow> n' < n"
    using u by (simp_all add: word_less_nat_alt)
qed

lemma body_one: "lp_body [e] = e @ lpEncodeBacklen (of_nat (length e))"
  by (simp add: block_def)

lemma of_nat_diff_u64: "m \<le> n \<Longrightarrow> n < 2 ^ 64 \<Longrightarrow> unat (of_nat n - of_nat m :: u64) = n - m"
  by (simp add: unat_of_nat take_bit_nat_eq_self flip: of_nat_diff)

text \<open>
  What a successful insertion leaves behind; the result is a null pointer when the listpack would
  not fit the 32 bit size field.
\<close>

definition ins_post :: "lp_result option \<Rightarrow> buffer list \<Rightarrow> nat \<Rightarrow> bool" where
  "ins_post r es p \<longleftrightarrow>
     (if lp_size es < 2 ^ 32 then \<exists>lp'. r = Some (LP_ok lp' (Some p)) \<and> lp_rep lp' es else r = Some LP_null)"

text \<open>Insertion before an entry or at the end.\<close>

lemma insert_before:
  assumes rep: "lp_rep lp (as @ bs)" and enc: "encodes elestr eleint sz e"
  shows "ins_post (lpInsert al lp elestr eleint sz (lp_pos (as @ bs) (length as)) LP_BEFORE) (as @ e # bs) (lp_pos (as @ bs) (length as))"
proof -
  define n n' bl where "n = lp_size (as @ bs)" and "n' = lp_size (as @ [e] @ bs)" and "bl = lpEncodeBacklen (of_nat (length e))"
  obtain num S where lp: "lp = (lp_hdr n num @ lp_body as) @ [] @ (lp_body bs @ [LP_EOF]) @ S"
      and num: "num = LP_HDR_NUMELE_UNKNOWN \<or> unat num = length (as @ bs) \<and> length (as @ bs) < 65535"
      and p: "lp_pos (as @ bs) (length as) = length (lp_hdr n num @ lp_body as)"
    using lp_parts [of lp as "[]" bs] rep by (auto simp: n_def)
  define P Y where "P = lp_hdr n num @ lp_body as" and "Y = lp_body bs @ [LP_EOF]"
  note lp = lp [folded P_def Y_def] and p = p [folded P_def]
  obtain en where en: "insert_encoding elestr eleint sz = (en, of_nat (length e))" and e: "entry_ok e"
      and nd: "\<not> (elestr = None \<and> eleint = None)"
      and st: "\<And>lp dst bl. dst + length e + length bl \<le> length lp \<Longrightarrow> store_entry lp dst en (of_nat (length e)) bl = wrn lp dst (e @ bl)"
    using enc unfolding encodes_def by blast
  have old: "n = length P + length ([] :: buffer) + length Y" and new: "n' = length P + length (e @ bl) + length Y"
    by (simp_all add: n_def n'_def P_def Y_def lp_size_def length_block bl_def)
  have el: "length e < 2 ^ 32" "length bl \<le> 5" using e length_backlen by (auto simp: entry_ok_def bl_def)
  have n: "n < 2 ^ 32" using rep by (simp add: lp_rep_def n_def)
  have n': "n' < 2 ^ 34" using old new n el by simp
  note sw = size_words [OF n n']
  have w: "(of_nat n + of_nat (length e) + of_nat (length bl) - ucast (0 :: u32) :: u64) = of_nat n'"
    using old new by simp
  have ue: "unat (of_nat (length e) :: u64) = length e" "unat (of_nat (length bl) :: u64) = length bl"
    using el by (simp_all add: unat_of_nat take_bit_nat_eq_self)
  have diff: "unat (of_nat n - of_nat (length P) :: u64) = length Y"
    using of_nat_diff_u64 [of "length P" n] old n by simp
  obtain lp2 S' where mm: "memmove (if n < n' \<and> length lp < n' then lp_realloc al lp n' else lp)
        (length P + length (e @ bl)) (length P + length ([] :: buffer)) (length Y) = Some lp2"
      and wr: "wrn (if n' < n then lp_realloc al lp2 n' else lp2) (length P) (e @ bl) = Some (P @ (e @ bl) @ Y @ S')"
    using splice [OF lp, of "e @ bl" al, folded old new] by (metis Y_def snoc_eq_iff_butlast)
  then have mm': "memmove (if n < n' \<and> length lp < n' then lp_realloc al lp n' else lp)
        (length P + length e + length bl) (length P) (length Y) = Some lp2"
    by (simp only: length_append list.size add_0_right add.assoc)
  define lp3 where "lp3 = (if n' < n then lp_realloc al lp2 n' else lp2)"
  have "length P + length (e @ bl) \<le> length lp3" using wr by (auto simp: lp3_def wrn_def split: if_splits)
  then have st3: "store_entry lp3 (length P) en (of_nat (length e)) bl = Some (P @ (e @ bl) @ Y @ S')"
    using st [of "length P" bl lp3] wr by (simp add: lp3_def add.assoc)
  define num' where "num' = (if num = LP_HDR_NUMELE_UNKNOWN then num else num + 1)"
  define rest where "rest = lp_body as @ lp_body [e] @ Y @ S'"
  have lp4: "P @ (e @ bl) @ Y @ S' = lp_hdr n num @ rest" by (simp add: P_def rest_def body_one bl_def del: lp_body_simps(2))
  have hs: "(lpGetNumElements (lp_hdr n num @ rest) \<bind> (\<lambda>x. if x \<noteq> LP_HDR_NUMELE_UNKNOWN
      then lpSetNumElements (lp_hdr n num @ rest) (ucast (x + 1)) else Some (lp_hdr n num @ rest))) =
      Some (lp_hdr n num' @ rest)"
    using header_step [OF refl num, of n rest True] by (simp only: if_True num'_def)
  have tot: "lpSetTotalBytes (lp_hdr n num' @ rest) (of_nat n') = Some (lp_hdr n' num' @ rest)"
    using refl by (rule set_total)
  have "num' = LP_HDR_NUMELE_UNKNOWN \<or> unat num' = length (as @ [e] @ bs) \<and> length (as @ [e] @ bs) < 65535"
    using num_step [OF num, of True] by (auto simp: num'_def)
  then have "lp_rep (lp_hdr n' num' @ rest) (as @ [e] @ bs)" if "n' < 2 ^ 32"
    using rep_parts [of lp as "[]" bs "[e]" num' S'] that rep e by (simp add: n'_def rest_def Y_def)
  moreover have "lpInsert al lp elestr eleint sz (lp_pos (as @ bs) (length as)) LP_BEFORE =
    Some (if n' < 2 ^ 32 then LP_ok (lp_hdr n' num' @ rest) (Some (lp_pos (as @ bs) (length as))) else LP_null)"
    by (simp only: lpInsert_def p en lp_total(1) [OF rep, folded n_def] nd if_False if_True Let_def prod.case Option.bind.simps
        lp_where.distinct not_False_eq_True sw(3) w bl_def [symmetric] simp_thms)
      (simp only: sw ue diff mm' Option.bind.simps lp3_def [symmetric] st3 lp4 hs tot split: if_split, simp)
  ultimately show ?thesis by (auto simp: n'_def ins_post_def)
qed

lemma replaced_len:
  assumes rep: "lp_rep lp (as @ r # bs)"
  defines "p \<equiv> lp_pos (as @ r # bs) (length as)" and "k \<equiv> of_nat (length (block r)) :: u32"
  shows "(lpCurrentEncodedSizeUnsafe lp p \<bind> (\<lambda>n. ASSERT_INTEGRITY_LEN lp p (n + ucast (backlen_size (ucast n))) \<bind>
      (\<lambda>_. Some (n + ucast (backlen_size (ucast n)))))) = Some k"
    and "unat k = length (block r)" and "(ucast k :: u64) = of_nat (length (block r))"
proof -
  have i: "length as < length (as @ r # bs)" "(as @ r # bs) ! length as = r" by simp_all
  have ok: "entry_ok r" using rep by (auto simp: lp_rep_def)
  then have lt: "length r < 2 ^ 32" by (simp add: entry_ok_def)
  have szlt: "lp_size (as @ r # bs) < 2 ^ 32" using rep by (simp add: lp_rep_def)
  have fit: "p + length (block r) < lp_size (as @ r # bs)" by (simp add: p_def lp_pos_def lp_size_def)
  then show u: "unat k = length (block r)" "(ucast k :: u64) = of_nat (length (block r))"
    using szlt by (simp_all add: k_def unsigned_of_nat take_bit_nat_eq_self)
  have "(ucast (backlen_size (of_nat (length r))) :: u32) = of_nat (length (lpEncodeBacklen (of_nat (length r))))"
    using length_backlen(2) [of "of_nat (length r)"] by (simp add: unsigned_of_nat take_bit_nat_eq_self)
  then have n: "of_nat (length r) + ucast (backlen_size (ucast (of_nat (length r) :: u32))) = k"
    using ucast_len [OF lt] by (simp add: k_def length_block)
  have "ASSERT_INTEGRITY_LEN lp p k = Some ()"
    using lp_total(1,2) [OF rep] fit u(1) by (simp add: ASSERT_INTEGRITY_LEN_def p_def lp_pos_def)
  then show "(lpCurrentEncodedSizeUnsafe lp p \<bind> (\<lambda>n. ASSERT_INTEGRITY_LEN lp p (n + ucast (backlen_size (ucast n))) \<bind>
      (\<lambda>_. Some (n + ucast (backlen_size (ucast n)))))) = Some k"
    using size_at [OF rep i(1)] n i(2) by (simp add: p_def)
qed

lemma insert_replace:
  assumes rep: "lp_rep lp (as @ r # bs)" and enc: "encodes elestr eleint sz e"
  shows "ins_post (lpInsert al lp elestr eleint sz (lp_pos (as @ r # bs) (length as)) LP_REPLACE) (as @ e # bs)
    (lp_pos (as @ r # bs) (length as))"
proof -
  define n n' bl where "n = lp_size (as @ r # bs)" and "n' = lp_size (as @ [e] @ bs)" and "bl = lpEncodeBacklen (of_nat (length e))"
  obtain num S where lp: "lp = (lp_hdr n num @ lp_body as) @ block r @ (lp_body bs @ [LP_EOF]) @ S"
      and num: "num = LP_HDR_NUMELE_UNKNOWN \<or> unat num = length (as @ r # bs) \<and> length (as @ r # bs) < 65535"
      and p: "lp_pos (as @ r # bs) (length as) = length (lp_hdr n num @ lp_body as)"
    using lp_parts [of lp as "[r]" bs] rep by (auto simp: n_def)
  define P Y where "P = lp_hdr n num @ lp_body as" and "Y = lp_body bs @ [LP_EOF]"
  note lp = lp [folded P_def Y_def] and p = p [folded P_def]
  obtain en where en: "insert_encoding elestr eleint sz = (en, of_nat (length e))" and e: "entry_ok e"
      and nd: "\<not> (elestr = None \<and> eleint = None)"
      and st: "\<And>lp dst bl. dst + length e + length bl \<le> length lp \<Longrightarrow> store_entry lp dst en (of_nat (length e)) bl = wrn lp dst (e @ bl)"
    using enc unfolding encodes_def by blast
  have old: "n = length P + length (block r) + length Y" and new: "n' = length P + length (e @ bl) + length Y"
    by (simp_all add: n_def n'_def P_def Y_def lp_size_def length_block bl_def)
  have el: "length e < 2 ^ 32" "length bl \<le> 5" using e length_backlen by (auto simp: entry_ok_def bl_def)
  have n: "n < 2 ^ 32" using rep by (simp add: lp_rep_def n_def)
  have n': "n' < 2 ^ 34" using old new n el by simp
  note sw = size_words [OF n n'] and rl = replaced_len [OF rep, unfolded p]
  have w: "(of_nat n + of_nat (length e) + of_nat (length bl) - of_nat (length (block r)) :: u64) = of_nat n'"
    using old new by simp
  have ue: "unat (of_nat (length (block r)) + (of_nat (length e) + of_nat (length bl) - of_nat (length (block r))) :: u64) = length e + length bl"
    using el by (simp add: unat_of_nat take_bit_nat_eq_self flip: of_nat_add)
  have ue': "unat (of_nat (length e) :: u64) = length e" using el by (simp add: unat_of_nat take_bit_nat_eq_self)
  have "(of_nat n - of_nat (length P) - of_nat (length (block r)) :: u64) = of_nat (length Y)" using old by simp
  then have diff: "unat (of_nat n - of_nat (length P) - of_nat (length (block r)) :: u64) = length Y"
    using old n by (simp add: unat_of_nat take_bit_nat_eq_self)
  obtain lp2 S' where mm: "memmove (if n < n' \<and> length lp < n' then lp_realloc al lp n' else lp)
        (length P + length (e @ bl)) (length P + length (block r)) (length Y) = Some lp2"
      and wr: "wrn (if n' < n then lp_realloc al lp2 n' else lp2) (length P) (e @ bl) = Some (P @ (e @ bl) @ Y @ S')"
    using splice [OF lp, of "e @ bl" al, folded old new] by (metis Y_def snoc_eq_iff_butlast)
  then have mm': "memmove (if n < n' \<and> length lp < n' then lp_realloc al lp n' else lp)
        (length P + (length e + length bl)) (length P + length (block r)) (length Y) = Some lp2"
    by (simp only: length_append)
  define lp3 where "lp3 = (if n' < n then lp_realloc al lp2 n' else lp2)"
  have "length P + length (e @ bl) \<le> length lp3" using wr by (auto simp: lp3_def wrn_def split: if_splits)
  then have st3: "store_entry lp3 (length P) en (of_nat (length e)) bl = Some (P @ (e @ bl) @ Y @ S')"
    using st [of "length P" bl lp3] wr by (simp add: lp3_def add.assoc)
  define rest where "rest = lp_body as @ lp_body [e] @ Y @ S'"
  have lp4: "P @ (e @ bl) @ Y @ S' = lp_hdr n num @ rest" by (simp add: P_def rest_def body_one bl_def del: lp_body_simps(2))
  have tot: "lpSetTotalBytes (lp_hdr n num @ rest) (of_nat n') = Some (lp_hdr n' num @ rest)"
    using refl by (rule set_total)
  have "lp_rep (lp_hdr n' num @ rest) (as @ [e] @ bs)" if "n' < 2 ^ 32"
    using rep_parts [of lp as "[r]" bs "[e]" num S'] that rep e num by (simp add: n'_def rest_def Y_def)
  moreover have "lpInsert al lp elestr eleint sz (lp_pos (as @ r # bs) (length as)) LP_REPLACE =
    Some (if n' < 2 ^ 32 then LP_ok (lp_hdr n' num @ rest) (Some (lp_pos (as @ r # bs) (length as))) else LP_null)"
    by (simp only: lpInsert_def p en lp_total(1) [OF rep, folded n_def] nd if_False if_True Let_def prod.case Option.bind.simps
        lp_where.distinct not_False_eq_True rl sw(3) w bl_def [symmetric] simp_thms)
      (simp only: sw ue ue' diff mm' Option.bind.simps lp3_def [symmetric] st3 lp4 tot split: if_split, simp)
  ultimately show ?thesis by (auto simp: n'_def ins_post_def)
qed

lemma insert_delete:
  assumes rep: "lp_rep lp (as @ r # bs)"
  shows "\<exists>lp'. lpInsert al lp None None 0 (lp_pos (as @ r # bs) (length as)) LP_REPLACE =
      Some (LP_ok lp' (if bs = [] then None else Some (lp_pos (as @ r # bs) (length as)))) \<and> lp_rep lp' (as @ bs)"
proof -
  define n n' where "n = lp_size (as @ r # bs)" and "n' = lp_size (as @ [] @ bs)"
  obtain num S where lp: "lp = (lp_hdr n num @ lp_body as) @ block r @ (lp_body bs @ [LP_EOF]) @ S"
      and num: "num = LP_HDR_NUMELE_UNKNOWN \<or> unat num = length (as @ r # bs) \<and> length (as @ r # bs) < 65535"
      and p: "lp_pos (as @ r # bs) (length as) = length (lp_hdr n num @ lp_body as)"
    using lp_parts [of lp as "[r]" bs] rep by (auto simp: n_def)
  define P Y where "P = lp_hdr n num @ lp_body as" and "Y = lp_body bs @ [LP_EOF]"
  note lp = lp [folded P_def Y_def] and p = p [folded P_def]
  have old: "n = length P + length (block r) + length Y" and new: "n' = length P + length ([] :: buffer) + length Y"
    by (simp_all add: n_def n'_def P_def Y_def lp_size_def)
  have n: "n < 2 ^ 32" using rep by (simp add: lp_rep_def n_def)
  have n': "n' < 2 ^ 34" using old new n by simp
  note sw = size_words [OF n n'] and rl = replaced_len [OF rep, unfolded p]
  have w: "(of_nat n + 0 + of_nat (length ([] :: buffer)) - of_nat (length (block r)) :: u64) = of_nat n'"
    using old new by simp
  have ue: "unat (of_nat (length (block r)) + (0 + of_nat (length ([] :: buffer)) - of_nat (length (block r))) :: u64) = length ([] :: buffer)"
    by simp
  have "(of_nat n - of_nat (length P) - of_nat (length (block r)) :: u64) = of_nat (length Y)" using old by simp
  then have diff: "unat (of_nat n - of_nat (length P) - of_nat (length (block r)) :: u64) = length Y"
    using old n by (simp add: unat_of_nat take_bit_nat_eq_self)
  obtain lp2 S' where mm: "memmove (if n < n' \<and> length lp < n' then lp_realloc al lp n' else lp)
        (length P + length ([] :: buffer)) (length P + length (block r)) (length Y) = Some lp2"
      and wr: "wrn (if n' < n then lp_realloc al lp2 n' else lp2) (length P) [] = Some (P @ [] @ Y @ S')"
      and rd: "rd (if n' < n then lp_realloc al lp2 n' else lp2) (length P) = Some (hd Y)"
    using splice [OF lp, of "[]" al, folded old new] by (metis Y_def snoc_eq_iff_butlast)
  define lp3 where "lp3 = (if n' < n then lp_realloc al lp2 n' else lp2)"
  define num' where "num' = (if num = LP_HDR_NUMELE_UNKNOWN then num else num - 1)"
  define rest where "rest = lp_body as @ lp_body [] @ Y @ S'"
  have lp4: "lp3 = lp_hdr n num @ rest" using wr by (auto simp: lp3_def wrn_def P_def rest_def split: if_splits)
  have st3: "store_entry lp3 (length P) ENC_NONE 0 [] = Some (lp_hdr n num @ rest)" by (simp add: store_entry_def lp4)
  have hs: "(lpGetNumElements (lp_hdr n num @ rest) \<bind> (\<lambda>x. if x \<noteq> LP_HDR_NUMELE_UNKNOWN
      then lpSetNumElements (lp_hdr n num @ rest) (ucast (x - 1)) else Some (lp_hdr n num @ rest))) =
      Some (lp_hdr n num' @ rest)"
    using header_step [OF refl num, of n rest False] by (simp only: if_False num'_def)
  have tot: "lpSetTotalBytes (lp_hdr n num' @ rest) (of_nat n') = Some (lp_hdr n' num' @ rest)"
    using refl by (rule set_total)
  have "num' = LP_HDR_NUMELE_UNKNOWN \<or> unat num' = length (as @ [] @ bs) \<and> length (as @ [] @ bs) < 65535"
    using num_step [OF num, of False] by (auto simp: num'_def)
  then have "lp_rep (lp_hdr n' num' @ rest) (as @ [] @ bs)"
    using rep_parts [of lp as "[r]" bs "[]" num' S'] rep old new n by (simp add: n'_def rest_def Y_def)
  moreover have "hd Y = LP_EOF \<longleftrightarrow> bs = []"
    using rep entry_head [of "hd bs"] by (cases bs) (auto simp: Y_def lp_rep_def block_def)
  moreover have "lpInsert al lp None None 0 (lp_pos (as @ r # bs) (length as)) LP_REPLACE =
    Some (LP_ok (lp_hdr n' num' @ rest) (if hd Y = LP_EOF then None else Some (lp_pos (as @ r # bs) (length as))))"
  proof -
    have ie: "insert_encoding None None 0 = (ENC_NONE, 0)" by (simp add: insert_encoding_def)
    have lt: "n' < 2 ^ 32" using old new n by simp
    show ?thesis
      by (simp only: lpInsert_def p ie lp_total(1) [OF rep, folded n_def] if_False if_True Let_def prod.case Option.bind.simps
          lp_where.distinct not_False_eq_True rl sw(3) w simp_thms)
        (simp only: sw ue diff mm rd lt Option.bind.simps lp3_def [symmetric] st3 hs tot not_True_eq_False if_False refl if_True,
          simp add: rd [folded lp3_def])
  qed
  ultimately show ?thesis by auto
qed

lemma insert_after:
  assumes rep: "lp_rep lp (as @ r # bs)" and enc: "encodes elestr eleint sz e"
  shows "ins_post (lpInsert al lp elestr eleint sz (lp_pos (as @ r # bs) (length as)) LP_AFTER) (as @ r # e # bs)
    (lp_pos (as @ r # bs) (Suc (length as)))"
proof -
  let ?es = "as @ r # bs"
  have nd: "\<not> (elestr = None \<and> eleint = None)" using enc by (simp add: encodes_def)
  have sk: "lpSkip lp (lp_pos ?es (length as)) = Some (lp_pos ?es (Suc (length as)))"
    using skip_at [OF rep, of "length as"] by simp
  have "lp_pos ?es (Suc (length as)) < lp_size ?es"
    using lp_pos_le [of ?es "Suc (length as)"] by (simp add: lp_size_def)
  then have ai: "ASSERT_INTEGRITY lp (lp_pos ?es (Suc (length as))) = Some ()"
    using lp_total(1,2) [OF rep] by (simp add: ASSERT_INTEGRITY_def lp_pos_def)
  have "lpInsert al lp elestr eleint sz (lp_pos ?es (length as)) LP_AFTER =
      lpInsert al lp elestr eleint sz (lp_pos ?es (Suc (length as))) LP_BEFORE"
    unfolding lpInsert_def
    by (simp only: sk ai nd Let_def if_False if_True Option.bind.simps prod.case lp_where.distinct simp_thms)
  then show ?thesis using insert_before [of lp "as @ [r]" bs elestr eleint sz e al] rep enc by simp
qed

lemma lp_append_at:
  assumes rep: "lp_rep lp es" and enc: "encodes elestr eleint sz e"
  shows "ins_post (lpInsert al lp elestr eleint sz (lp_size es - 1) LP_BEFORE) (es @ [e]) (lp_size es - 1)"
  using insert_before [of lp es "[]" elestr eleint sz e al] assms lp_pos_end [of es] by simp

lemma total_nz: "lp_rep lp es \<Longrightarrow> (of_nat (lp_size es) :: u32) \<noteq> 0"
  using lp_total(2) [of lp es] by (auto simp: lp_size_def)

section \<open>Ranges\<close>

lemma shrink_ok:
  assumes "lp_rep lp es"
  shows "\<exists>lp'. lpShrinkToFit al lp = Some lp' \<and> lp_rep lp' es"
proof -
  obtain num slack where lp: "lp = (lp_hdr (lp_size es) num @ lp_body es @ [LP_EOF]) @ slack"
      and r: "list_all entry_ok es" "lp_size es < 2 ^ 32"
        "num = LP_HDR_NUMELE_UNKNOWN \<or> unat num = length es \<and> length es < 65535"
    using assms by (auto simp: lp_rep_def)
  have "length (lp_hdr (lp_size es) num @ lp_body es @ [LP_EOF]) \<le> lp_size es" by (simp add: lp_size_def)
  then obtain Z where "lp_realloc al lp (lp_size es) = (lp_hdr (lp_size es) num @ lp_body es @ [LP_EOF]) @ Z"
    using realloc_keep [OF lp] by blast
  then have "lp_rep (lp_realloc al lp (lp_size es)) es" using r by (auto simp: lp_rep_def)
  then show ?thesis using assms lp_total(1,2) [OF assms] by (simp add: lpShrinkToFit_def)
qed

lemma range_loop_at:
  assumes "lp_rep lp es" and "i < length es"
  shows "range_loop lp (lp_size es) n (lp_pos es i) d =
    Some (lp_pos es (min (i + n) (length es)), d + of_nat (min n (length es - i)))"
  using assms(2)
proof (induction n arbitrary: i d)
  case (Suc n)
  show ?case
  proof (cases "Suc i < length es")
    case True
    then have "min (Suc n) (length es - i) = Suc (min n (length es - Suc i))" by simp
    then show ?thesis
      using True Suc.IH [OF True, of "d + 1"] skip_at [OF assms(1) Suc.prems] rd_entry [OF assms(1) True]
        assert_at [OF assms(1), of "Suc i"] by (simp add: add.assoc add.commute)
  next
    case False
    then have "Suc i = length es" using Suc.prems by simp
    moreover from this have "min (i + Suc n) (length es) = length es" "min (Suc n) (length es - i) = 1" by auto
    ultimately show ?thesis using skip_at [OF assms(1) Suc.prems] rd_end [OF assms(1)] by simp
  qed
qed simp


lemma set_num64:
  assumes "lp = lp_hdr n num @ rest" and "w = ucast num'"
  shows "lpSetNumElements lp w = Some (lp_hdr n num' @ rest)"
  using set_num [OF assms(1)] assms(2) by simp

text \<open>Deletion of the entries from \<open>as\<close> on: \<open>rs\<close> is removed.\<close>

lemma delete_range_entry:
  assumes rep: "lp_rep lp (as @ rs @ bs)" and rs: "rs \<noteq> []" and num: "unat cnt = length rs \<or> length rs \<le> unat cnt \<and> bs = []"
  shows "\<exists>lp'. lpDeleteRangeWithEntry al lp (lp_pos (as @ rs @ bs) (length as)) cnt =
      Some (lp', if bs = [] then None else Some (lp_pos (as @ rs @ bs) (length as))) \<and> lp_rep lp' (as @ bs)"
proof -
  define es n n' where "es = as @ rs @ bs" and "n = lp_size es" and "n' = lp_size (as @ [] @ bs)"
  obtain nm S where lp: "lp = (lp_hdr n nm @ lp_body as) @ lp_body rs @ (lp_body bs @ [LP_EOF]) @ S"
      and nm: "nm = LP_HDR_NUMELE_UNKNOWN \<or> unat nm = length es \<and> length es < 65535"
      and p: "lp_pos es (length as) = length (lp_hdr n nm @ lp_body as)"
    using lp_parts [OF rep] by (auto simp: n_def es_def)
  define P Y where "P = lp_hdr n nm @ lp_body as" and "Y = lp_body bs @ [LP_EOF]"
  note lp = lp [folded P_def Y_def] and p = p [folded P_def] and rep = rep [folded es_def]
  have mn: "min (length as + unat cnt) (length es) = length as + length rs" "min (unat cnt) (length es - length as) = length rs"
    using num by (auto simp: es_def)
  have i: "length as < length es" using rs by (simp add: es_def)
  have pt: "lp_pos es (length as + length rs) = length P + length (lp_body rs)" by (simp add: es_def lp_pos_def P_def)
  have rl: "range_loop lp n (unat cnt) (length P) 0 = Some (length P + length (lp_body rs), of_nat (length rs))"
    using range_loop_at [OF rep i, of "unat cnt" 0] unfolding mn pt p [symmetric] n_def by simp
  have old: "n = length P + length (lp_body rs) + length Y" and new: "n' = length P + length Y"
    by (simp_all add: n_def n'_def es_def P_def Y_def lp_size_def)
  have Y0: "0 < length Y" by (simp add: Y_def)
  have cnt: "cnt \<noteq> 0" using num rs by (metis length_0_conv le_zero_eq unat_0)
  have mm: "\<exists>S'. memmove lp (length P) (length P + length (lp_body rs)) (n - 1 - (length P + length (lp_body rs)) + 1) = Some (P @ Y @ S')"
  proof -
    have "n - 1 - (length P + length (lp_body rs)) + 1 = length Y" using old Y0 by linarith
    moreover have "rdn lp (length P + length (lp_body rs)) (length Y) = Some Y" by (simp add: lp rdn_def)
    ultimately show ?thesis by (simp add: memmove_def wrn_def lp)
  qed
  then obtain S' where mm: "memmove lp (length P) (length P + length (lp_body rs)) (n - 1 - (length P + length (lp_body rs)) + 1) = Some (P @ Y @ S')" by blast
  define rest where "rest = lp_body as @ lp_body [] @ Y @ S'"
  have lp2: "P @ Y @ S' = lp_hdr n nm @ rest" by (simp add: P_def rest_def)
  have w: "(of_nat n - of_nat (length P + length (lp_body rs) - length P) :: u64) = of_nat n'" using old new by simp
  have tot: "lpSetTotalBytes (lp_hdr n nm @ rest) (of_nat n') = Some (lp_hdr n' nm @ rest)" using refl by (rule set_total)
  have g: "lpGetNumElements (lp_hdr n' nm @ rest) = Some nm" by (rule lp_num [OF refl nm])
  define nm' where "nm' = (if nm = LP_HDR_NUMELE_UNKNOWN then nm else of_nat (length as + length bs))"
  have sn: "(if nm \<noteq> LP_HDR_NUMELE_UNKNOWN then lpSetNumElements (lp_hdr n' nm @ rest) (ucast nm - of_nat (length rs)) else Some (lp_hdr n' nm @ rest)) =
      Some (lp_hdr n' nm' @ rest)"
  proof (cases "nm = LP_HDR_NUMELE_UNKNOWN")
    case False
    then have l: "unat nm = length es" "length es < 65535" using nm by auto
    then have "(ucast nm :: u64) = of_nat (length es)" by (metis of_nat_unat)
    then have "(ucast nm - of_nat (length rs) :: u64) = of_nat (length as + length bs)" by (simp add: es_def)
    also have "\<dots> = ucast (of_nat (length as + length bs) :: u32)" 
      using size_words(3) [of "length as + length bs" 0] l(2) by (simp add: es_def)
    finally show ?thesis using False set_num64 [OF refl] by (simp add: nm'_def)
  qed (simp add: nm'_def)
  have "nm' = LP_HDR_NUMELE_UNKNOWN \<or> unat nm' = length (as @ [] @ bs) \<and> length (as @ [] @ bs) < 65535"
    using nm by (auto simp: nm'_def es_def unat_of_nat take_bit_nat_eq_self simp del: of_nat_add)
  moreover have "n < 2 ^ 32" using rep by (simp add: lp_rep_def n_def)
  ultimately have rep': "lp_rep (lp_hdr n' nm' @ rest) (as @ bs)"
    using rep_parts [of lp as rs bs "[]" nm' S'] rep old new by (simp add: n'_def es_def rest_def Y_def)
  obtain lp' where sh: "lpShrinkToFit al (lp_hdr n' nm' @ rest) = Some lp'" "lp_rep lp' (as @ bs)" using shrink_ok [OF rep'] by blast
  have q: "length P = lp_pos (as @ bs) (length as)" by (simp add: lp_pos_def P_def)
  have r: "\<exists>b. rd lp' (length P) = Some b \<and> (b = LP_EOF \<longleftrightarrow> bs = [])"
    using rd_entry [OF sh(2), of "length as"] rd_end [OF sh(2)] q by (cases "bs = []") auto
  have lt: "length P + length (lp_body rs) < n" using old Y0 by linarith
  show ?thesis
    using r cnt lp_total(3,4) [OF rep] rl mm lp2 w tot g sn sh lt p
    by (auto simp: lpDeleteRangeWithEntry_def es_def [symmetric] n_def [symmetric])
qed

definition drop_range :: "'a list \<Rightarrow> nat option \<Rightarrow> nat \<Rightarrow> 'a list" where
  "drop_range xs r n = (case r of None \<Rightarrow> xs | Some i \<Rightarrow> take i xs @ drop (i + n) xs)"

lemma wr_mid: "wr (A @ b # C) (length A) x = Some (A @ x # C)"
  by (simp add: wr_def)

lemma truncate_at:
  assumes rep: "lp_rep lp (as @ rs)" and rs: "rs \<noteq> []" and k: "length as < 65535"
  shows "\<exists>lp'. (wr lp (lp_pos (as @ rs) (length as)) LP_EOF \<bind> (\<lambda>lp. lpSetTotalBytes lp (of_nat (lp_pos (as @ rs) (length as) + 1)) \<bind>
      (\<lambda>lp. lpSetNumElements lp (of_nat (length as)) \<bind> lpShrinkToFit al))) = Some lp' \<and> lp_rep lp' as"
proof -
  define n where "n = lp_size (as @ rs)"
  have "lp_rep lp (as @ rs @ [])" using rep by simp
  then obtain nm S where "lp = (lp_hdr (lp_size (as @ rs @ [])) nm @ lp_body as) @ lp_body rs @ (lp_body [] @ [LP_EOF]) @ S"
      and "lp_pos (as @ rs @ []) (length as) = length (lp_hdr (lp_size (as @ rs @ [])) nm @ lp_body as)"
    by (rule lp_parts)
  then have lp: "lp = (lp_hdr n nm @ lp_body as) @ lp_body rs @ ([LP_EOF] @ S)"
      and p: "lp_pos (as @ rs) (length as) = length (lp_hdr n nm @ lp_body as)"
    by (simp_all add: n_def)
  obtain b bd where b: "lp_body rs = b # bd"
    using rs rep entry_head [of "hd rs"] by (cases rs) (auto simp: lp_rep_def block_def)
  define rest where "rest = lp_body as @ [LP_EOF] @ bd @ [LP_EOF] @ S"
  have w: "wr lp (length (lp_hdr n nm @ lp_body as)) LP_EOF = Some (lp_hdr n nm @ rest)"
    using wr_mid [of "lp_hdr n nm @ lp_body as" b "bd @ [LP_EOF] @ S" LP_EOF] by (simp add: lp b rest_def)
  have sz: "length (lp_hdr n nm @ lp_body as) + 1 = lp_size as" by (simp add: lp_size_def)
  have tot: "lpSetTotalBytes (lp_hdr n nm @ rest) (of_nat (lp_size as)) = Some (lp_hdr (lp_size as) nm @ rest)"
    using refl by (rule set_total)
  have u: "(of_nat (length as) :: u64) = ucast (of_nat (length as) :: u32)" using size_words(3) [of "length as" 0] k by simp
  have num: "lpSetNumElements (lp_hdr (lp_size as) nm @ rest) (of_nat (length as)) = Some (lp_hdr (lp_size as) (of_nat (length as)) @ rest)"
    using refl u by (rule set_num64)
  have "lp_size (as @ rs) < 2 ^ 32" using rep by (simp add: lp_rep_def)
  then have "lp_size as < 2 ^ 32" by (simp add: lp_size_def)
  then have "lp_rep (lp_hdr (lp_size as) (of_nat (length as)) @ rest) as"
    using rep_parts [of lp as rs "[]" "[]" "of_nat (length as)" "bd @ [LP_EOF] @ S"] rep k
    by (simp add: rest_def unat_of_nat take_bit_nat_eq_self)
  from shrink_ok [OF this] show ?thesis using w tot num sz p by simp
qed

lemma lp_index_lt: "lp_index es index = Some i \<Longrightarrow> i < length es"
  by (auto simp: lp_index_def Let_def split: if_splits)

lemma lpDeleteRange_ok:
  assumes rep: "lp_rep lp es"
  shows "\<exists>lp'. lpDeleteRange al lp index num = Some lp' \<and> lp_rep lp' (drop_range es (lp_index es index) (unat num))"
proof -
  obtain nm S where lp: "lp = lp_hdr (lp_size es) nm @ lp_body es @ [LP_EOF] @ S"
      and nm: "nm = LP_HDR_NUMELE_UNKNOWN \<or> unat nm = length es \<and> length es < 65535"
    using rep by (auto simp: lp_rep_def)
  have g: "lpGetNumElements lp = Some nm" using lp nm by (rule lp_num)
  note sk = lpSeek_ok [OF rep, of index]
  show ?thesis
  proof (cases "num = 0 \<or> lp_index es index = None")
    case True
    then show ?thesis using g rep sk by (auto simp: lpDeleteRange_def drop_range_def split: option.split)
  next
    case False
    then obtain i where i: "lp_index es index = Some i" by auto
    have lt: "i < length es" using i by (rule lp_index_lt)
    define as where "as = take i es"
    have as: "length as = i" using lt by (simp add: as_def)
    show ?thesis
    proof (cases "nm \<noteq> LP_HDR_NUMELE_UNKNOWN \<and> length es - i \<le> unat num")
      case True
      then have nm': "unat nm = length es" "length es < 65535" "uint nm = int (length es)" using nm by (auto simp: uint_nat)
      define rs where "rs = drop i es"
      have es: "es = as @ rs" by (simp add: as_def rs_def)
      have idx: "(if nm \<noteq> LP_HDR_NUMELE_UNKNOWN \<and> index < 0 then uint nm + index else index) = int i"
        using i True nm'(3) by (auto simp: lp_index_def Let_def split: if_splits)
      have "(ucast nm :: u64) = of_nat (length es)" using nm'(1) by (metis of_nat_unat)
      then have "(ucast nm - word_of_int (int i) :: u64) = of_nat (length es - i)" using lt by simp
      moreover have "(of_nat (length es - i) :: u64) \<le> num"
        using True nm'(2) by (simp add: word_le_nat_alt unat_of_nat take_bit_nat_eq_self)
      ultimately have le: "(ucast nm - word_of_int (int i) :: u64) \<le> num" by simp
      have "rs \<noteq> []" using lt by (simp add: rs_def)
      then obtain lp' where t: "(wr lp (lp_pos es i) LP_EOF \<bind> (\<lambda>lp. lpSetTotalBytes lp (of_nat (lp_pos es i + 1)) \<bind>
          (\<lambda>lp. lpSetNumElements lp (of_nat i) \<bind> lpShrinkToFit al))) = Some lp'" "lp_rep lp' as"
        using truncate_at [of lp as rs al] rep as lt nm'(2) unfolding es [symmetric] as by auto
      have "lpDeleteRange al lp index num = Some lp'"
        unfolding lpDeleteRange_def g sk i
        using True False idx le t(1) by simp
      moreover have "length es \<le> i + unat num" using True by linarith
      then have "drop_range es (lp_index es index) (unat num) = as" using i by (simp add: drop_range_def as_def)
      ultimately show ?thesis using t(2) by simp
    next
      case u: False
      define rs bs where "rs = take (unat num) (drop i es)" and "bs = drop (i + unat num) es"
      have "drop i es = rs @ bs" unfolding rs_def bs_def by (metis append_take_drop_id drop_drop add.commute)
      then have es: "es = as @ rs @ bs" by (simp add: as_def) (metis append_take_drop_id)
      have n0: "0 < unat num" using False by (simp add: unat_gt_0)
      then have rs: "rs \<noteq> []" using lt by (simp add: rs_def)
      have cn: "unat num = length rs \<or> length rs \<le> unat num \<and> bs = []" by (auto simp: rs_def bs_def)
      obtain lp' where d: "lpDeleteRangeWithEntry al lp (lp_pos es i) num = Some (lp', if bs = [] then None else Some (lp_pos es i))" "lp_rep lp' (as @ bs)"
        using delete_range_entry [of lp as rs bs num al] rep rs cn as unfolding es [symmetric] by auto
      have c: "\<not> (nm \<noteq> LP_HDR_NUMELE_UNKNOWN \<and> ucast nm - word_of_int (if nm \<noteq> LP_HDR_NUMELE_UNKNOWN \<and> index < 0 then uint nm + index else index) \<le> num)"
      proof
        assume a: "nm \<noteq> LP_HDR_NUMELE_UNKNOWN \<and> ucast nm - word_of_int (if nm \<noteq> LP_HDR_NUMELE_UNKNOWN \<and> index < 0 then uint nm + index else index) \<le> num"
        then have nm': "unat nm = length es" "length es < 65535" "uint nm = int (length es)" using nm by (auto simp: uint_nat)
        have idx: "(if nm \<noteq> LP_HDR_NUMELE_UNKNOWN \<and> index < 0 then uint nm + index else index) = int i"
          using i a nm'(3) by (auto simp: lp_index_def Let_def split: if_splits)
        have "(ucast nm :: u64) = of_nat (length es)" using nm'(1) by (metis of_nat_unat)
        then have "(of_nat (length es - i) :: u64) \<le> num" using a lt unfolding idx by simp
        then have "length es - i \<le> unat num" using nm'(2) by (simp add: word_le_nat_alt unat_of_nat take_bit_nat_eq_self)
        then show False using u a by blast
      qed
      have "num \<noteq> 0" using False by simp
      then have "lpDeleteRange al lp index num = Some lp'"
        by (simp only: lpDeleteRange_def g sk i Option.bind.simps option.map option.case Let_def c if_False d(1) prod.case)
      moreover have "drop_range es (lp_index es index) (unat num) = as @ bs" using i by (simp add: drop_range_def as_def bs_def)
      ultimately show ?thesis using d(2) by simp
    qed
  qed
qed


section \<open>Merging\<close>

lemma lpMerge_ok:
  assumes r1: "lp_rep first es" and r2: "lp_rep second fs" and sz: "lp_size (es @ fs) < 2 ^ 32 - 1"
  shows "\<exists>lp'. lpMerge al first second = Some (lp', lp_size fs \<le> lp_size es) \<and> lp_rep lp' (es @ fs)"
proof -
  obtain first' where l1: "lpLength first = Some (first', of_nat (length es))" "lp_rep first' es" using lpLength_ok [OF r1] by blast
  obtain second' where l2: "lpLength second = Some (second', of_nat (length fs))" "lp_rep second' fs" using lpLength_ok [OF r2] by blast
  obtain n1 S1 where f: "first' = lp_hdr (lp_size es) n1 @ lp_body es @ [LP_EOF] @ S1" using l1(2) by (auto simp: lp_rep_def)
  obtain n2 S2 where s: "second' = lp_hdr (lp_size fs) n2 @ lp_body fs @ [LP_EOF] @ S2" using l2(2) by (auto simp: lp_rep_def)
  define n where "n = lp_size (es @ fs)"
  have n: "lp_size es + lp_size fs = n + LP_HDR_SIZE + 1" by (simp add: n_def lp_size_def)
  have sz': "n < 2 ^ 32 - 1" using sz by (simp add: n_def)
  have w: "(of_nat (lp_size es) + of_nat (lp_size fs) - of_nat LP_HDR_SIZE - 1 :: u64) = of_nat n"
  proof -
    have "(of_nat (lp_size es) + of_nat (lp_size fs) :: u64) = of_nat n + of_nat LP_HDR_SIZE + 1"
      using n by (metis of_nat_add of_nat_1)
    then show ?thesis by simp
  qed
  have un: "unat (of_nat n :: u64) = n" using sz' by (simp add: unat_of_nat take_bit_nat_eq_self)
  then have lt: "(of_nat n :: u64) < UINT32_MAX" using sz' by (simp add: word_less_nat_alt UINT32_MAX_def)
  have le: "(of_nat (lp_size fs) :: u64) \<le> of_nat (lp_size es) \<longleftrightarrow> lp_size fs \<le> lp_size es"
    using lp_total(4) [OF r1] lp_total(4) [OF r2] by (simp add: word_le_nat_alt)
  define k where "k = length es + length fs"
  define nm :: u32 where "nm = (if k < 65535 then of_nat k else LP_HDR_NUMELE_UNKNOWN)"
  have kb: "k < 2 ^ 33" using lp_count [OF r1] lp_count [OF r2] by (simp add: k_def)
  have kk: "(of_nat (length es) + of_nat (length fs) :: u64) = of_nat k" by (simp add: k_def)
  have klt: "(of_nat k :: u64) < 65535 \<longleftrightarrow> k < 65535"
    using kb by (simp add: word_less_nat_alt unat_of_nat take_bit_nat_eq_self)
  have nm: "(if (of_nat k :: u64) < 65535 then of_nat k else 65535) = (ucast nm :: u64)"
    using size_words(3) [of k 0] by (simp add: nm_def klt LP_HDR_NUMELE_UNKNOWN_def)
  have fin: "\<exists>lp'. (lpSetNumElements (lp_hdr m x @ lp_body es @ lp_body fs @ [LP_EOF] @ Z) (ucast nm) \<bind>
      (\<lambda>t. lpSetTotalBytes t (of_nat n) \<bind> (\<lambda>t. Some (t, b)))) = Some (lp', b) \<and> lp_rep lp' (es @ fs)" for m x Z b
  proof -
    have a: "lpSetNumElements (lp_hdr m x @ lp_body es @ lp_body fs @ [LP_EOF] @ Z) (ucast nm) = Some (lp_hdr m nm @ lp_body es @ lp_body fs @ [LP_EOF] @ Z)"
      using refl by (rule set_num)
    have t: "lpSetTotalBytes (lp_hdr m nm @ lp_body es @ lp_body fs @ [LP_EOF] @ Z) (of_nat n) = Some (lp_hdr n nm @ lp_body es @ lp_body fs @ [LP_EOF] @ Z)"
      using refl by (rule set_total)
    have "nm = LP_HDR_NUMELE_UNKNOWN \<or> unat nm = length (es @ fs) \<and> length (es @ fs) < 65535"
      by (simp add: nm_def k_def unat_of_nat take_bit_nat_eq_self del: of_nat_add)
    moreover have "list_all entry_ok (es @ fs)" using r1 r2 by (simp add: lp_rep_def)
    moreover have "lp_size (es @ fs) < 2 ^ 32" using sz by simp
    ultimately have "lp_rep (lp_hdr n nm @ lp_body es @ lp_body fs @ [LP_EOF] @ Z) (es @ fs)"
      by (auto simp: lp_rep_def n_def)
    then show ?thesis using a t by simp
  qed
  have pos: "LP_HDR_SIZE < lp_size es" "LP_HDR_SIZE < lp_size fs" by (simp_all add: lp_size_def)
  show ?thesis
  proof (cases "lp_size fs \<le> lp_size es")
    case True
    have "lp_size es \<le> n" using n pos by linarith
    then have "length (lp_hdr (lp_size es) n1 @ lp_body es @ [LP_EOF]) \<le> n" by (simp add: lp_size_def)
    then obtain Z where re: "lp_realloc al first' n = (lp_hdr (lp_size es) n1 @ lp_body es @ [LP_EOF]) @ Z" "n \<le> length (lp_realloc al first' n)"
      using realloc_keep [of first' "lp_hdr (lp_size es) n1 @ lp_body es @ [LP_EOF]" S1 n al] f by auto
    have rd: "rdn second' LP_HDR_SIZE (lp_size fs - LP_HDR_SIZE) = Some (lp_body fs @ [LP_EOF])"
      by (simp add: s rdn_def lp_size_def)
    have "\<exists>Z'. wrn (lp_realloc al first' n) (lp_size es - 1) (lp_body fs @ [LP_EOF]) = Some (lp_hdr (lp_size es) n1 @ lp_body es @ lp_body fs @ [LP_EOF] @ Z')"
      using re n unfolding wrn_def by (auto simp: lp_size_def)
    then obtain Z' where wr: "wrn (lp_realloc al first' n) (lp_size es - 1) (lp_body fs @ [LP_EOF]) = Some (lp_hdr (lp_size es) n1 @ lp_body es @ lp_body fs @ [LP_EOF] @ Z')" by blast
    show ?thesis
      using fin [of "lp_size es" n1 Z' True] True pos lp_total(3,4) [OF r1] lp_total(3,4) [OF r2] l1(1) l2(1) rd wr
      unfolding lpMerge_def
      by (simp only: Option.bind.simps prod.case Let_def le w if_True un lt not_True_eq_False if_False kk nm)
        simp
  next
    case False
    have "lp_size fs \<le> n" using n pos by linarith
    then have "length (lp_hdr (lp_size fs) n2 @ lp_body fs @ [LP_EOF]) \<le> n" by (simp add: lp_size_def)
    then obtain Z where re: "lp_realloc al second' n = (lp_hdr (lp_size fs) n2 @ lp_body fs @ [LP_EOF]) @ Z" "n \<le> length (lp_realloc al second' n)"
      using realloc_keep [of second' "lp_hdr (lp_size fs) n2 @ lp_body fs @ [LP_EOF]" S2 n al] s by auto
    have "rdn (lp_realloc al second' n) LP_HDR_SIZE (lp_size fs - LP_HDR_SIZE) = Some (lp_body fs @ [LP_EOF])"
      using re(1) by (simp add: rdn_def lp_size_def)
    then have "\<exists>A Z'. memmove (lp_realloc al second' n) (lp_size es - 1) LP_HDR_SIZE (lp_size fs - LP_HDR_SIZE) =
        Some (A @ lp_body fs @ [LP_EOF] @ Z') \<and> length A = lp_size es - 1"
      using re(2) n pos unfolding memmove_def wrn_def by (auto simp: lp_size_def)
    then obtain A Z' where mm: "memmove (lp_realloc al second' n) (lp_size es - 1) LP_HDR_SIZE (lp_size fs - LP_HDR_SIZE) =
        Some (A @ lp_body fs @ [LP_EOF] @ Z')" and A: "length A = lp_size es - 1" by blast
    have rd: "rdn first' 0 (lp_size es - 1) = Some (lp_hdr (lp_size es) n1 @ lp_body es)"
      by (simp add: f rdn_def lp_size_def)
    have wr: "wrn (A @ lp_body fs @ [LP_EOF] @ Z') 0 (lp_hdr (lp_size es) n1 @ lp_body es) =
        Some (lp_hdr (lp_size es) n1 @ lp_body es @ lp_body fs @ [LP_EOF] @ Z')"
      using A by (simp add: wrn_def lp_size_def)
    show ?thesis
      using fin [of "lp_size es" n1 Z' False] False pos lp_total(3,4) [OF r1] lp_total(3,4) [OF r2] l1(1) l2(1) rd wr
      unfolding lpMerge_def
      by (simp only: Option.bind.simps prod.case Let_def le w if_True un lt not_True_eq_False if_False kk nm)
        (simp add: mm [simplified])
  qed
qed

end
