(* ===== verification/Redis_Listpack_Spec.thy ===== *)
theory Redis_Listpack_Spec
  imports Redis_Listpack_Update
begin

text \<open>
  What a client sees of a listpack: a list of strings, under any sequence of operations, and what
  \<open>lpValidateIntegrity\<close> guarantees for bytes from an untrusted source.
\<close>

section \<open>A listpack as a list of strings\<close>

definition get_string :: "buffer \<Rightarrow> nat \<Rightarrow> buffer option" where
  "get_string lp p =
     do {
       v \<leftarrow> lpGet lp p (Some (replicate LP_INTBUF_SIZE 0));
       case v of
         LV_str q n \<Rightarrow> rdn lp q (unat n)
       | LV_buf buf n \<Rightarrow> rdn buf 0 (unat n)
       | LV_int _ \<Rightarrow> None
     }"

text \<open>All elements from a pointer on, as a client collects them.\<close>

partial_function (option) lp_walk :: "buffer \<Rightarrow> nat option \<Rightarrow> buffer list option" where
  "lp_walk lp p =
     (case p of
        None \<Rightarrow> Some []
      | Some p \<Rightarrow> do {
          x \<leftarrow> get_string lp p;
          p \<leftarrow> lpNext lp p;
          xs \<leftarrow> lp_walk lp p;
          Some (x # xs)
        })"

definition lp_list :: "buffer \<Rightarrow> buffer list option" where
  "lp_list lp = do { p \<leftarrow> lpFirst lp; lp_walk lp p }"

lemma get_intbuf:
  "lpGetWithSize lp p (Some buf) = lpGetWithSize lp p None \<bind> (\<lambda>(v, es).
     case v of
       LV_int val \<Rightarrow> do { (buf, count) \<leftarrow> ll2string buf LP_INTBUF_SIZE val; Some (LV_buf buf (ucast count), es) }
     | _ \<Rightarrow> Some (v, es))"
  unfolding lpGetWithSize_def lp_enc_defs Let_def option.case
  by (cases "rd lp p"; simp)

lemma get_string_at:
  assumes "lp_rep lp es" and "i < length es"
  shows "get_string lp (lp_pos es i) = Some (entry_str (es ! i))"
  using assms
proof (cases rule: get_at)
  case (istr q n)
  then show ?thesis by (simp add: get_string_def lpGet_def get_intbuf)
next
  case (iint v)
  have l: "length (dec_int (sint v)) < LP_INTBUF_SIZE" using length_dec_int [of v] by (simp add: LP_INTBUF_SIZE_def LONG_STR_SIZE_def)
  have u: "unat (ucast (of_nat (length (dec_int (sint v))) :: u32) :: u64) = length (dec_int (sint v))"
    using l by (simp add: LP_INTBUF_SIZE_def unsigned_of_nat take_bit_nat_eq_self)
  show ?thesis
    using iint l u ll2string_ok [of "replicate LP_INTBUF_SIZE 0" LP_INTBUF_SIZE v]
    by (simp add: get_string_def lpGet_def get_intbuf rdn_def)
qed

lemma lp_walk_at:
  assumes "lp_rep lp es" and "i \<le> length es"
  shows "lp_walk lp (lp_ptr es i) = Some (map entry_str (drop i es))"
  using assms(2)
proof (induction "length es - i" arbitrary: i)
  case 0
  then show ?case by (subst lp_walk.simps) (simp add: lp_ptr_def)
next
  case (Suc n)
  then have i: "i < length es" by simp
  then show ?case
    using next_at [OF assms(1) i] get_string_at [OF assms(1) i] Suc.hyps(1) [of "Suc i"] Suc.hyps(2)
      Cons_nth_drop_Suc [OF i, symmetric]
    by (subst lp_walk.simps) (simp add: lp_ptr_def [of es i])
qed

lemma lp_list_rep: "lp_rep lp es \<Longrightarrow> lp_list lp = Some (map entry_str es)"
  using first_at [of lp es] lp_walk_at [of lp es 0] by (simp add: lp_list_def)

text \<open>A listpack that the operations below have built: every element has its shortest encoding.\<close>

definition str_ok :: "buffer \<Rightarrow> bool" where
  "str_ok s \<longleftrightarrow> length s + 5 < 2 ^ 32"

definition lp_inv :: "buffer \<Rightarrow> bool" where
  "lp_inv lp \<longleftrightarrow> (\<exists>ss. lp_rep lp (map entry_of ss) \<and> list_all str_ok ss)"

definition lp_abs :: "buffer \<Rightarrow> buffer list" where
  "lp_abs lp = (case lp_list lp of Some ss \<Rightarrow> ss | None \<Rightarrow> [])"

lemma map_entry_str: "list_all str_ok ss \<Longrightarrow> map entry_str (map entry_of ss) = ss"
  by (induction ss) (auto simp: str_ok_def entry_of_ok(2))

lemma lp_inv_abs: "lp_inv lp \<longleftrightarrow> lp_rep lp (map entry_of (lp_abs lp)) \<and> list_all str_ok (lp_abs lp)"
proof
  assume "lp_inv lp"
  then obtain ss where ss: "lp_rep lp (map entry_of ss)" "list_all str_ok ss" by (auto simp: lp_inv_def)
  then have "lp_abs lp = ss" using lp_list_rep [OF ss(1)] map_entry_str [OF ss(2)] by (simp add: lp_abs_def)
  with ss show "lp_rep lp (map entry_of (lp_abs lp)) \<and> list_all str_ok (lp_abs lp)" by simp
qed (auto simp: lp_inv_def)

lemma lp_invI:
  assumes "lp_rep lp (map entry_of ss)" and "list_all str_ok ss"
  shows "lp_inv lp" "lp_abs lp = ss"
  using assms lp_list_rep [OF assms(1)] map_entry_str [OF assms(2)] by (auto simp: lp_inv_def lp_abs_def)


section \<open>Sequences of operations\<close>

text \<open>
  What a client does with a listpack: it adds elements at the ends or next to the element with an
  index, asking \<open>lpSafeToAdd\<close> first, removes elements, and reads by index, by length or by the field
  before the value. No object in memory has more than \<open>2 ^ 63\<close> bytes.
\<close>

datatype lp_op = Lp_append buffer | Lp_prepend buffer | Lp_append_integer u64 | Lp_insert lp_where int buffer
  | Lp_delete int | Lp_delete_range int u64 | Lp_get int | Lp_length | Lp_lookup buffer

datatype lp_out = Out_ok bool | Out_str "buffer option" | Out_len u64

definition lp_guarded :: "buffer \<Rightarrow> nat \<Rightarrow> lp_result option \<Rightarrow> (buffer \<times> lp_out) option" where
  "lp_guarded lp n act =
     (if 2 ^ 63 \<le> n then Some (lp, Out_ok False)
      else do {
        safe \<leftarrow> lpSafeToAdd (Some lp) (of_nat n);
        if safe then do {
          r \<leftarrow> act;
          Some (case r of LP_null \<Rightarrow> (lp, Out_ok False) | LP_ok lp' _ \<Rightarrow> (lp', Out_ok True))
        }
        else Some (lp, Out_ok False)
      })"

definition lp_at_index :: "buffer \<Rightarrow> int \<Rightarrow> 'a \<Rightarrow> (nat \<Rightarrow> 'a option) \<Rightarrow> 'a option" where
  "lp_at_index lp index none f = do { p \<leftarrow> lpSeek lp index; case p of None \<Rightarrow> Some none | Some p \<Rightarrow> f p }"

fun lp_step :: "lp_alloc \<Rightarrow> lp_op \<Rightarrow> buffer \<Rightarrow> (buffer \<times> lp_out) option" where
  "lp_step al (Lp_append s) lp = lp_guarded lp (length s) (lpAppend al lp s (of_nat (length s)))"
| "lp_step al (Lp_prepend s) lp = lp_guarded lp (length s) (lpPrepend al lp s (of_nat (length s)))"
| "lp_step al (Lp_append_integer v) lp = lp_guarded lp 9 (lpAppendInteger al lp v)"
| "lp_step al (Lp_insert whr index s) lp =
     lp_at_index lp index (lp, Out_ok False)
       (\<lambda>p. lp_guarded lp (length s) (lpInsertString al lp s (of_nat (length s)) p whr))"
| "lp_step al (Lp_delete index) lp =
     lp_at_index lp index (lp, Out_ok False)
       (\<lambda>p. do { r \<leftarrow> lpDelete al lp p; case r of LP_null \<Rightarrow> None | LP_ok lp _ \<Rightarrow> Some (lp, Out_ok True) })"
| "lp_step al (Lp_delete_range index num) lp = do { lp \<leftarrow> lpDeleteRange al lp index num; Some (lp, Out_ok True) }"
| "lp_step al (Lp_get index) lp =
     lp_at_index lp index (lp, Out_str None) (\<lambda>p. do { x \<leftarrow> get_string lp p; Some (lp, Out_str (Some x)) })"
| "lp_step al Lp_length lp = do { (lp, n) \<leftarrow> lpLength lp; Some (lp, Out_len n) }"
| "lp_step al (Lp_lookup s) lp =
     do {
       p \<leftarrow> lpFirst lp;
       case p of
         None \<Rightarrow> Some (lp, Out_str None)
       | Some p \<Rightarrow>
           if 2 ^ 32 \<le> length s then Some (lp, Out_str None)
           else do {
             q \<leftarrow> lpFind lp p s (of_nat (length s)) 1;
             case q of
               None \<Rightarrow> Some (lp, Out_str None)
             | Some q \<Rightarrow> do {
                 v \<leftarrow> lpNext lp q;
                 case v of
                   None \<Rightarrow> Some (lp, Out_str None)
                 | Some v \<Rightarrow> do { x \<leftarrow> get_string lp v; Some (lp, Out_str (Some x)) }
               }
           }
     }"

text \<open>The same operations on a list of strings.\<close>

definition lp_fits :: "buffer list \<Rightarrow> nat \<Rightarrow> bool" where
  "lp_fits ss n \<longleftrightarrow> lp_size (map entry_of ss) + n \<le> 2 ^ 30"

definition seq_index :: "'a list \<Rightarrow> int \<Rightarrow> nat option" where
  "seq_index xs index =
     (let i = (if index < 0 then int (length xs) + index else index)
      in if 0 \<le> i \<and> i < int (length xs) then Some (nat i) else None)"

fun seq_insert :: "lp_where \<Rightarrow> nat \<Rightarrow> 'a \<Rightarrow> 'a list \<Rightarrow> 'a list" where
  "seq_insert LP_BEFORE i x xs = take i xs @ x # drop i xs"
| "seq_insert LP_AFTER i x xs = take (Suc i) xs @ x # drop (Suc i) xs"
| "seq_insert LP_REPLACE i x xs = xs[i := x]"

fun lp_spec :: "lp_op \<Rightarrow> buffer list \<Rightarrow> buffer list \<times> lp_out" where
  "lp_spec (Lp_append s) ss = (if lp_fits ss (length s) then (ss @ [s], Out_ok True) else (ss, Out_ok False))"
| "lp_spec (Lp_prepend s) ss = (if lp_fits ss (length s) then (s # ss, Out_ok True) else (ss, Out_ok False))"
| "lp_spec (Lp_append_integer v) ss = (if lp_fits ss 9 then (ss @ [dec_int (sint v)], Out_ok True) else (ss, Out_ok False))"
| "lp_spec (Lp_insert whr index s) ss =
     (case seq_index ss index of
        None \<Rightarrow> (ss, Out_ok False)
      | Some i \<Rightarrow> if lp_fits ss (length s) then (seq_insert whr i s ss, Out_ok True) else (ss, Out_ok False))"
| "lp_spec (Lp_delete index) ss =
     (case seq_index ss index of None \<Rightarrow> (ss, Out_ok False) | Some i \<Rightarrow> (take i ss @ drop (Suc i) ss, Out_ok True))"
| "lp_spec (Lp_delete_range index num) ss = (drop_range ss (seq_index ss index) (unat num), Out_ok True)"
| "lp_spec (Lp_get index) ss = (ss, Out_str (map_option ((!) ss) (seq_index ss index)))"
| "lp_spec Lp_length ss = (ss, Out_len (of_nat (length ss)))"
| "lp_spec (Lp_lookup s) ss =
     (ss, Out_str (case lp_search s 1 0 ss of
        None \<Rightarrow> None
      | Some k \<Rightarrow> if Suc k < length ss then Some (ss ! Suc k) else None))"

lemma seq_index_map: "lp_index (map f xs) index = seq_index xs index"
  by (simp add: lp_index_def seq_index_def)

lemma seq_index_lt: "seq_index xs index = Some i \<Longrightarrow> i < length xs"
  by (auto simp: seq_index_def Let_def split: if_splits)

lemma safe_ok:
  assumes "lp_rep lp (map entry_of ss)" and "n < 2 ^ 63"
  shows "lpSafeToAdd (Some lp) (of_nat n) = Some (lp_fits ss n)"
proof -
  let ?m = "lp_size (map entry_of ss)"
  have "?m < 2 ^ 32" using assms(1) by (simp add: lp_rep_def)
  then have "unat (of_nat ?m + of_nat n :: u64) = ?m + n"
    using assms(2) by (simp add: unat_of_nat take_bit_nat_eq_self flip: of_nat_add)
  then show ?thesis using lp_total(3) [OF assms(1)]
    by (simp add: lpSafeToAdd_def lp_fits_def LISTPACK_MAX_SAFETY_SIZE_def word_less_nat_alt not_less)
qed


lemma lp_fits_ok:
  assumes "lp_fits ss (length s)"
  shows "str_ok s" "length s < 2 ^ 63"
  using assms by (auto simp: lp_fits_def str_ok_def)

lemma lp_size_insert: "lp_size (as @ e # bs) = lp_size (as @ bs) + length (block e)"
  by (simp add: lp_size_def)

lemma lp_size_replace: "lp_size (as @ e # bs) \<le> lp_size (as @ r # bs) + length (block e)"
  by (simp add: lp_size_def)

lemma block_entry_le: "length (block (entry_of s)) \<le> length s + 14"
  using length_entry_of [of s] length_backlen(2) [of "of_nat (length (entry_of s))"] by (simp add: length_block)

text \<open>One guarded addition, given what the insertion does to the entries.\<close>

lemma guarded_ok:
  assumes "lp_rep lp (map entry_of ss)" and "list_all str_ok ss"
    and "lp_fits ss n \<Longrightarrow> ins_post act (map entry_of ss') p"
    and "lp_fits ss n \<Longrightarrow> lp_size (map entry_of ss') < 2 ^ 32 \<and> list_all str_ok ss'"
  shows "\<exists>lp'. lp_guarded lp n act = Some (lp', Out_ok (lp_fits ss n)) \<and>
    lp_rep lp' (map entry_of (if lp_fits ss n then ss' else ss)) \<and> list_all str_ok (if lp_fits ss n then ss' else ss)"
proof (cases "2 ^ 63 \<le> n")
  case True
  then have "\<not> lp_fits ss n" by (auto simp: lp_fits_def)
  then show ?thesis using True assms(1,2) by (simp add: lp_guarded_def)
next
  case False
  then have sf: "lpSafeToAdd (Some lp) (of_nat n) = Some (lp_fits ss n)" using safe_ok [OF assms(1)] by simp
  show ?thesis
  proof (cases "lp_fits ss n")
    case True
    then obtain lp' where "act = Some (LP_ok lp' (Some p))" "lp_rep lp' (map entry_of ss')"
      using assms(3,4) by (auto simp: ins_post_def)
    then show ?thesis using True False sf assms(4) by (simp add: lp_guarded_def)
  next
    case no: False
    then show ?thesis using False sf assms(1,2) by (simp add: lp_guarded_def)
  qed
qed

lemma lp_search_lt: "lp_search s skip c xs = Some k \<Longrightarrow> k < length xs \<and> xs ! k = s"
  by (induction s skip c xs arbitrary: k rule: lp_search.induct) (auto split: if_splits)

lemma entry_of_int: "entry_of (dec_int (sint v)) = lpEncodeIntegerGetType v"
  using string2ll_dec_int [of "dec_int (sint v)" v] by (simp add: entry_of_def)

definition step_ok :: "lp_alloc \<Rightarrow> lp_op \<Rightarrow> buffer \<Rightarrow> buffer list \<Rightarrow> bool" where
  "step_ok al x lp ss \<longleftrightarrow> (\<exists>lp' r ss'. lp_step al x lp = Some (lp', r) \<and> lp_rep lp' (map entry_of ss') \<and>
     list_all str_ok ss' \<and> lp_spec x ss = (ss', r))"

lemma step_okI: "lp_step al x lp = Some (lp', r) \<Longrightarrow> lp_rep lp' (map entry_of ss') \<Longrightarrow> list_all str_ok ss' \<Longrightarrow> lp_spec x ss = (ss', r) \<Longrightarrow>
  step_ok al x lp ss"
  by (auto simp: step_ok_def)

lemma guarded_step:
  assumes rep: "lp_rep lp (map entry_of ss)" and ok: "list_all str_ok ss"
    and "lp_step al x lp = lp_guarded lp n act" and "lp_spec x ss = (if lp_fits ss n then ss' else ss, Out_ok (lp_fits ss n))"
    and "lp_fits ss n \<Longrightarrow> ins_post act (map entry_of ss') p"
    and "lp_fits ss n \<Longrightarrow> lp_size (map entry_of ss') < 2 ^ 32 \<and> list_all str_ok ss'"
  shows "step_ok al x lp ss"
  using guarded_ok [OF rep ok assms(5,6)] assms(3,4) unfolding step_ok_def by metis

lemma encodes_fit: "lp_fits ss (length s) \<Longrightarrow> encodes (Some s) None (of_nat (length s)) (entry_of s)"
  using lp_fits_ok(1) [of ss s] by (intro encodes_str) (simp add: str_ok_def)

lemma add_bound:
  assumes "list_all str_ok ss" and "ss = as @ cs @ bs" and "lp_fits ss (length s)"
  shows "lp_size (map entry_of (as @ s # bs)) < 2 ^ 32 \<and> list_all str_ok (as @ s # bs)"
proof -
  have "lp_size (map entry_of (as @ s # bs)) \<le> lp_size (map entry_of ss) + length (block (entry_of s))"
    by (simp add: lp_size_def assms(2))
  then show ?thesis using assms(1,3) block_entry_le [of s] lp_fits_ok(1) [OF assms(3)] assms(2) by (auto simp: lp_fits_def)
qed

lemma at_index_rep:
  assumes "lp_rep lp (map entry_of ss)"
  shows "lp_at_index lp index d f = (case seq_index ss index of None \<Rightarrow> Some d | Some i \<Rightarrow> f (lp_pos (map entry_of ss) i))"
  using lpSeek_ok [OF assms, of index] by (simp add: lp_at_index_def seq_index_map split: option.split)

lemma total_rep:
  assumes "lp_rep lp (map entry_of ss)"
  shows "lpGetTotalBytes lp = Some (of_nat (lp_size (map entry_of ss)))" "(of_nat (lp_size (map entry_of ss)) :: u32) \<noteq> 0"
    "unat (of_nat (lp_size (map entry_of ss)) :: u32) = lp_size (map entry_of ss)"
  using lp_total(1,2) [OF assms] total_nz [OF assms] by auto

lemma nth_str: "list_all str_ok ss \<Longrightarrow> i < length ss \<Longrightarrow> entry_str (entry_of (ss ! i)) = ss ! i"
  using map_entry_str [of ss] by (metis length_map nth_map)

lemma step_append:
  assumes rep: "lp_rep lp (map entry_of ss)" and ok: "list_all str_ok ss"
  shows "step_ok al (Lp_append s) lp ss"
proof -
  have "ins_post (lpAppend al lp s (of_nat (length s))) (map entry_of (ss @ [s])) (lp_size (map entry_of ss) - 1)" if "lp_fits ss (length s)"
    using lp_append_at [OF rep encodes_fit [OF that], of al] total_rep [OF rep] by (simp add: lpAppend_def)
  then show ?thesis using add_bound [OF ok, of ss "[]" "[]" s] 
    by (intro guarded_step [OF rep ok, where n = "length s" and ss' = "ss @ [s]" and p = "lp_size (map entry_of ss) - 1"]) (simp_all)
qed

lemma step_prepend:
  assumes rep: "lp_rep lp (map entry_of ss)" and ok: "list_all str_ok ss"
  shows "step_ok al (Lp_prepend s) lp ss"
proof -
  have "\<exists>p. ins_post (lpPrepend al lp s (of_nat (length s))) (map entry_of (s # ss)) p" if "lp_fits ss (length s)"
  proof (cases "ss = []")
    case True
    then show ?thesis
      using lp_append_at [OF rep encodes_fit [OF that], of al] total_rep [OF rep] first_at [OF rep]
      by (auto simp: lpPrepend_def lp_ptr_def lpAppend_def)
  next
    case False
    then show ?thesis
      using insert_before [of lp "[]" "map entry_of ss" "Some s" None "of_nat (length s)" "entry_of s" al] rep encodes_fit [OF that] first_at [OF rep]
      by (auto simp: lpPrepend_def lp_ptr_def)
  qed
  then obtain p where "lp_fits ss (length s) \<Longrightarrow> ins_post (lpPrepend al lp s (of_nat (length s))) (map entry_of (s # ss)) p" by blast
  then show ?thesis using add_bound [OF ok, of "[]" "[]" ss s] 
    by (intro guarded_step [OF rep ok, where n = "length s" and ss' = "s # ss" and p = p]) (simp_all)
qed

lemma step_length:
  assumes rep: "lp_rep lp (map entry_of ss)" and ok: "list_all str_ok ss"
  shows "step_ok al Lp_length lp ss"
proof -
  obtain lp' where "lpLength lp = Some (lp', of_nat (length ss))" "lp_rep lp' (map entry_of ss)"
    using lpLength_ok [OF rep] by auto
  then show ?thesis using ok by (intro step_okI [of _ _ _ lp' "Out_len (of_nat (length ss))" ss]) (simp_all)
qed

lemma step_delete_range:
  assumes rep: "lp_rep lp (map entry_of ss)" and ok: "list_all str_ok ss"
  shows "step_ok al (Lp_delete_range index num) lp ss"
proof -
  obtain lp' where d: "lpDeleteRange al lp index num = Some lp'" "lp_rep lp' (drop_range (map entry_of ss) (seq_index ss index) (unat num))"
    using lpDeleteRange_ok [OF rep, of al index num] by (auto simp: seq_index_map)
  have "drop_range (map entry_of ss) r n = map entry_of (drop_range ss r n)" "list_all str_ok (drop_range ss r n)" for r n
    using ok by (auto simp: drop_range_def take_map drop_map list_all_iff dest: in_set_takeD in_set_dropD split: option.split)
  then show ?thesis using d
    by (intro step_okI [of _ _ _ lp' "Out_ok True" "drop_range ss (seq_index ss index) (unat num)"]) (simp_all)
qed

lemma step_get:
  assumes rep: "lp_rep lp (map entry_of ss)" and ok: "list_all str_ok ss"
  shows "step_ok al (Lp_get index) lp ss"
proof -
  show ?thesis
  proof (cases "seq_index ss index")
    case None
    then show ?thesis using rep ok by (intro step_okI [of _ _ _ lp "Out_str None" ss]) (simp_all add: at_index_rep [OF rep])
  next
    case (Some i)
    have "i < length ss" using Some by (rule seq_index_lt)
    moreover from this have "entry_str (entry_of (ss ! i)) = ss ! i" using ok by (simp add: nth_str)
    ultimately show ?thesis using Some rep ok get_string_at [OF rep, of i] 
      by (intro step_okI [of _ _ _ lp "Out_str (Some (ss ! i))" ss]) (simp_all add: at_index_rep [OF rep])
  qed
qed

lemma step_delete:
  assumes rep: "lp_rep lp (map entry_of ss)" and ok: "list_all str_ok ss"
  shows "step_ok al (Lp_delete index) lp ss"
proof -
  show ?thesis
  proof (cases "seq_index ss index")
    case None
    then show ?thesis using rep ok by (intro step_okI [of _ _ _ lp "Out_ok False" ss]) (simp_all add: at_index_rep [OF rep])
  next
    case (Some i)
    have i: "i < length ss" using Some by (rule seq_index_lt)
    have m: "map entry_of ss = map entry_of (take i ss) @ entry_of (ss ! i) # map entry_of (drop (Suc i) ss)"
      using id_take_nth_drop [OF i] by (metis list.simps(9) map_append)
    have len: "length (map entry_of (take i ss)) = i" using i by simp
    obtain lp' q where d: "lpDelete al lp (lp_pos (map entry_of ss) i) = Some (LP_ok lp' q)"
        "lp_rep lp' (map entry_of (take i ss) @ map entry_of (drop (Suc i) ss))"
      using insert_delete [OF rep [unfolded m], of al] unfolding len m [symmetric] by (auto simp: lpDelete_def)
    have "list_all str_ok (take i ss @ drop (Suc i) ss)" using ok by (auto simp: list_all_iff dest: in_set_takeD in_set_dropD)
    then show ?thesis using Some d
      by (intro step_okI [of _ _ _ lp' "Out_ok True" "take i ss @ drop (Suc i) ss"]) (simp_all add: at_index_rep [OF rep])
  qed
qed

lemma step_append_integer:
  assumes rep: "lp_rep lp (map entry_of ss)" and ok: "list_all str_ok ss"
  shows "step_ok al (Lp_append_integer v) lp ss"
proof -
  let ?s = "dec_int (sint v)"
  have "ins_post (lpAppendInteger al lp v) (map entry_of (ss @ [?s])) (lp_size (map entry_of ss) - 1)"
    using lp_append_at [OF rep encodes_int [of v], of al] total_rep [OF rep] by (simp add: lpAppendInteger_def lpInsertInteger_def entry_of_int Let_def)
  moreover have "lp_size (map entry_of (ss @ [?s])) < 2 ^ 32 \<and> list_all str_ok (ss @ [?s])" if "lp_fits ss 9"
    using that length_int_entry [of v] length_backlen(2) [of "of_nat (length (lpEncodeIntegerGetType v))"] length_dec_int [of v] ok
      lp_size_insert [of "map entry_of ss" "lpEncodeIntegerGetType v" "[]"]
    by (auto simp: lp_fits_def entry_of_int length_block str_ok_def LONG_STR_SIZE_def)
  ultimately show ?thesis 
    by (intro guarded_step [OF rep ok, where n = 9 and ss' = "ss @ [?s]" and p = "lp_size (map entry_of ss) - 1"]) (simp_all)
qed

lemma step_insert:
  assumes rep: "lp_rep lp (map entry_of ss)" and ok: "list_all str_ok ss"
  shows "step_ok al (Lp_insert whr index s) lp ss"
proof -
  show ?thesis
  proof (cases "seq_index ss index")
    case None
    then show ?thesis using rep ok by (intro step_okI [of _ _ _ lp "Out_ok False" ss]) (simp_all add: at_index_rep [OF rep])
  next
    case (Some i)
    have i: "i < length ss" using Some by (rule seq_index_lt)
    define as r bs where "as = map entry_of (take i ss)" and "r = entry_of (ss ! i)" and "bs = map entry_of (drop (Suc i) ss)"
    have m: "map entry_of ss = as @ r # bs"
      unfolding as_def r_def bs_def using id_take_nth_drop [OF i] by (metis list.simps(9) map_append)
    have len: "length as = i" using i by (simp add: as_def)
    note rep' = rep [unfolded m]
    have eq: "map entry_of (seq_insert whr i s ss) = (case whr of LP_BEFORE \<Rightarrow> as @ entry_of s # r # bs
        | LP_AFTER \<Rightarrow> as @ r # entry_of s # bs | LP_REPLACE \<Rightarrow> as @ entry_of s # bs)"
    proof (cases whr)
      case LP_BEFORE
      then show ?thesis using i by (simp add: as_def r_def bs_def flip: Cons_nth_drop_Suc)
    next
      case LP_AFTER
      then show ?thesis using i by (simp add: as_def r_def bs_def take_Suc_conv_app_nth)
    next
      case LP_REPLACE
      then show ?thesis using i by (simp add: as_def bs_def upd_conv_take_nth_drop)
    qed
    have "\<exists>p. ins_post (lpInsertString al lp s (of_nat (length s)) (lp_pos (map entry_of ss) i) whr) (map entry_of (seq_insert whr i s ss)) p"
      if "lp_fits ss (length s)"
      unfolding eq m lpInsertString_def
      using insert_before [of lp as "r # bs", OF rep' encodes_fit [OF that], of al] insert_after [OF rep' encodes_fit [OF that], of al]
        insert_replace [OF rep' encodes_fit [OF that], of al] by (cases whr) (auto simp: len)
    then obtain p where p: "lp_fits ss (length s) \<Longrightarrow> ins_post (lpInsertString al lp s (of_nat (length s)) (lp_pos (map entry_of ss) i) whr)
        (map entry_of (seq_insert whr i s ss)) p" by blast
    have "lp_size (map entry_of (seq_insert whr i s ss)) < 2 ^ 32 \<and> list_all str_ok (seq_insert whr i s ss)" if "lp_fits ss (length s)"
      using add_bound [OF ok, of "take i ss" "[]" "drop i ss" s, OF _ that] add_bound [OF ok, of "take (Suc i) ss" "[]" "drop (Suc i) ss" s, OF _ that]
        add_bound [OF ok, of "take i ss" "[ss ! i]" "drop (Suc i) ss" s, OF _ that] id_take_nth_drop [OF i] i
      by (cases whr) (simp_all add: upd_conv_take_nth_drop)
    with p show ?thesis 
      by (intro guarded_step [OF rep ok, where n = "length s" and ss' = "seq_insert whr i s ss" and p = p]) (simp_all add: at_index_rep [OF rep] Some)
  qed
qed

lemma step_lookup:
  assumes rep: "lp_rep lp (map entry_of ss)" and ok: "list_all str_ok ss"
  shows "step_ok al (Lp_lookup s) lp ss"
proof -
  show ?thesis
  proof (cases "ss = []")
    case True
    then show ?thesis using rep ok first_at [OF rep] by (intro step_okI [of _ _ _ lp _ ss]) (auto simp: lp_ptr_def)
  next
    case ne: False
    then have f: "lpFirst lp = Some (Some (lp_pos (map entry_of ss) 0))" using first_at [OF rep] by (simp add: lp_ptr_def)
    show ?thesis
    proof (cases "2 ^ 32 \<le> length s")
      case True
      have "lp_search s 1 0 ss = None"
      proof (cases "lp_search s 1 0 ss")
        case (Some k)
        then have "s \<in> set ss" using lp_search_lt [OF Some] by (metis nth_mem)
        then have "str_ok s" using ok by (simp add: list_all_iff)
        then show ?thesis using True by (simp add: str_ok_def)
      qed
      then show ?thesis using True rep ok f by (intro step_okI [of _ _ _ lp _ ss]) (simp_all)
    next
      case False
      then have fd: "lpFind lp (lp_pos (map entry_of ss) 0) s (of_nat (length s)) 1 = Some (map_option (lp_pos (map entry_of ss)) (lp_search s 1 0 ss))"
        using lpFind_at [OF rep, of 0 s 1] ne unfolding map_entry_str [OF ok] by simp
      show ?thesis
      proof (cases "lp_search s 1 0 ss")
        case None
        then show ?thesis using False rep ok f fd by (intro step_okI [of _ _ _ lp _ ss]) (simp_all)
      next
        case (Some k)
        have k: "k < length (map entry_of ss)" using lp_search_lt [OF Some] by simp
        have "entry_str (entry_of (ss ! Suc k)) = ss ! Suc k" if "Suc k < length ss" using ok that by (simp add: nth_str)
        then show ?thesis
          using Some False rep ok f fd next_at [OF rep k] get_string_at [OF rep, of "Suc k"]
          by (intro step_okI [of _ _ _ lp _ ss]) (auto simp: lp_ptr_def)
      qed
    qed
  qed
qed

lemma lp_step_inv:
  assumes "lp_inv lp"
  shows "\<exists>lp' r. lp_step al x lp = Some (lp', r) \<and> lp_inv lp' \<and> lp_spec x (lp_abs lp) = (lp_abs lp', r)"
proof -
  have "step_ok al x lp (lp_abs lp)"
    using assms unfolding lp_inv_abs by (cases x) (simp_all add: step_append step_prepend step_length step_delete_range step_get step_delete step_append_integer step_insert step_lookup)
  then show ?thesis unfolding step_ok_def using lp_invI by blast
qed

interpretation lpk: refinement lp_inv lp_abs "\<lambda>_ _. True" "lp_step al" lp_spec for al
  by unfold_locales (use lp_step_inv in blast)

lemma lpNew_ok: "\<exists>lp. lpNew al capacity = Some lp \<and> lp_inv lp \<and> lp_abs lp = []"
proof -
  define M where "M = lp_malloc al (if LP_HDR_SIZE + 1 < unat capacity then unat capacity else LP_HDR_SIZE + 1)"
  have l: "7 \<le> length M" by (simp add: M_def lp_malloc_def LP_HDR_SIZE_def)
  define Z where "Z = drop 7 M"
  have "lpSetTotalBytes M (of_nat (LP_HDR_SIZE + 1)) = Some (le_enc 4 (of_nat 7 :: u64) @ drop 4 M)"
    using l by (simp add: lpSetTotalBytes_def wrn_def LP_HDR_SIZE_def)
  moreover have "lpSetNumElements (le_enc 4 (of_nat 7 :: u64) @ drop 4 M) 0 = Some (le_enc 4 (of_nat 7 :: u64) @ le_enc 2 (0 :: u64) @ drop 6 M)"
    using l by (simp add: lpSetNumElements_def wrn_def)
  moreover have "le_enc 2 (0 :: u64) = le_enc 2 (0 :: u32)" by (simp add: le_enc_def)
  moreover have "drop 6 M = M ! 6 # Z" using l Cons_nth_drop_Suc [of 6 M] by (simp add: Z_def)
  ultimately have new: "lpNew al capacity = wr (lp_hdr 7 0 @ M ! 6 # Z) (length (lp_hdr 7 0)) LP_EOF"
    unfolding lpNew_def M_def [symmetric] Let_def by (simp add: lp_hdr_def LP_HDR_SIZE_def)
  have "lp_rep (lp_hdr 7 0 @ LP_EOF # Z) (map entry_of [])"
    by (auto simp: lp_rep_def lp_size_def LP_HDR_SIZE_def)
  from lp_invI [OF this] show ?thesis unfolding new wr_mid by simp
qed

section \<open>Validation of untrusted listpacks\<close>

lemma decode_unfold:
  "rd lp p = Some b \<Longrightarrow> decode_backlen lp p val shift =
    (if b AND 128 = 0 then Some (val OR push_bit shift (ucast (b AND 127)))
     else if 28 < shift + 7 then Some UINT64_MAX
     else if p = 0 then None
     else decode_backlen lp (p - 1) (val OR push_bit shift (ucast (b AND 127))) (shift + 7))"
  by (subst decode_backlen.simps) (simp only: Option.bind.simps Let_def)

lemma decode_total:
  "p < length lp \<Longrightarrow> 28 - shift \<le> 7 * p \<Longrightarrow> \<exists>v. decode_backlen lp p val shift = Some v"
proof (induction lp p val shift rule: decode_backlen.induct)
  case (1 lp p val shift)
  have b: "rd lp p = Some (lp ! p)" using 1(2) by (simp add: rd_def)
  show ?case
  proof (cases "(lp ! p) AND 128 = 0 \<or> 28 < shift + 7")
    case True
    then show ?thesis unfolding decode_unfold [OF b] by auto
  next
    case False
    then have "0 < p" using 1(3) by auto
    with False show ?thesis
      using 1(1) [OF b refl] 1(2,3) unfolding decode_unfold [OF b] by auto
  qed
qed

lemma decode_low:
  "decode_backlen lp p val shift = Some v \<Longrightarrow> 7 \<le> shift \<Longrightarrow> v = UINT64_MAX \<or> take_bit 7 v = take_bit 7 val"
proof (induction lp p val shift rule: decode_backlen.induct)
  case (1 lp p val shift)
  obtain b where b: "rd lp p = Some b"
    using 1(2) by (cases "rd lp p") (simp_all add: decode_backlen.simps [of lp p])
  have low: "take_bit 7 (val OR push_bit shift (ucast (b AND 127))) = take_bit 7 val"
    using 1(3) by (intro bit_word_eqI) (auto simp: bit_take_bit_iff bit_or_iff bit_push_bit_iff)
  show ?case
    using 1(1) [OF b refl] 1(2,3) low unfolding decode_unfold [OF b] by (auto split: if_splits)
qed

lemma decode_first:
  assumes "lpDecodeBacklen lp p = Some v" and "rd lp p = Some b"
  shows "v = UINT64_MAX \<or> take_bit 7 v = ucast (b AND 127)"
proof -
  have t: "take_bit 7 (ucast (b AND 127) :: u64) = ucast (b AND 127)"
    by (intro bit_word_eqI) (auto simp: bit_low7)
  show ?thesis
    using assms(1) decode_low [of lp "p - 1" "ucast (b AND 127)" 7 v] t
    unfolding lpDecodeBacklen_def decode_unfold [OF assms(2)] by (auto split: if_splits)
qed

text \<open>Every byte that \<open>lpValidateNext\<close> reads is inside the block, whatever the bytes are.\<close>

lemma validate_total:
  assumes "bytes \<le> length lp" and "LP_HDR_SIZE \<le> p" and "p < bytes"
  shows "\<exists>ok q. lpValidateNext lp (Some p) bytes = Some (ok, q) \<and>
    (ok \<longrightarrow> lp ! p = LP_EOF \<and> q = None \<or> (\<exists>q'. q = Some q' \<and> p < q' \<and> q' < bytes))"
proof -
  define b where "b = lp ! p"
  have r: "rd lp p = Some b" using assms by (simp add: rd_def b_def)
  define lenbytes :: u32 where "lenbytes = [1, 1, 1, 1, 1, 1, 1, 2, 5, 1, 0] ! kind b"
  have lb: "lpCurrentEncodedSizeBytes lp p = Some lenbytes" using size_bytes_kind [OF r] by (simp add: lenbytes_def)
  show ?thesis
  proof (cases "b = LP_EOF \<or> lenbytes = 0 \<or> p + unat lenbytes < LP_HDR_SIZE \<or> bytes < p + unat lenbytes + 1")
    case True
    then show ?thesis using r lb assms by (auto simp: lpValidateNext_def b_def)
  next
    case False
    have "\<exists>n. lpCurrentEncodedSizeUnsafe lp p = Some n"
      unfolding size_kind [OF r]
      using False assms by (cases rule: kind_cases [of b]) (auto simp: lenbytes_def rd_def rdn_def)
    then obtain n where n: "lpCurrentEncodedSizeUnsafe lp p = Some n" by blast
    define bl where "bl = length (lpEncodeBacklen (ucast n))"
    have bl: "1 \<le> bl" "bl \<le> 5" using length_backlen by (auto simp: bl_def)
    have "unat (ucast n :: u64) = unat n" by (simp add: unsigned_ucast_eq take_bit_nat_eq_self order_less_trans [OF unsigned_less])
    moreover have "unat n < 2 ^ LENGTH(32)" by (rule unsigned_less)
    ultimately have el: "unat (ucast n + of_nat bl :: u64) = unat n + bl"
      using bl by (simp add: unat_word_ariths unat_of_nat take_bit_nat_eq_self)
    show ?thesis
    proof (cases "bytes < p + (unat n + bl) + 1")
      case True
      then show ?thesis using False r lb n el assms by (auto simp: lpValidateNext_def bl_def)
    next
      case inr: False
      define q where "q = p + (unat n + bl)"
      have q: "p < q" "q < bytes" using inr bl by (auto simp: q_def)
      have "7 \<le> q" using q(1) assms(2) by (simp add: LP_HDR_SIZE_def)
      then obtain v where v: "lpDecodeBacklen lp (q - 1) = Some v"
        using decode_total [of "q - 1" lp 0 0] q(2) assms(1) unfolding lpDecodeBacklen_def by fastforce
      show ?thesis
        using False inr r lb n el v q assms(2) by (auto simp: lpValidateNext_def bl_def [symmetric] q_def [symmetric])
    qed
  qed
qed


text \<open>
  An accepted entry is well formed: a 32 bit length that makes the entry size wrap around is
  rejected by the comparison with the back length.
\<close>

lemma kind_8: "kind b = 8 \<Longrightarrow> b = 0xF0"
proof -
  have "list_all (\<lambda>x. kind (of_nat x) = 8 \<longrightarrow> (of_nat x :: byte) = 0xF0) [0..<256]" by code_simp
  then have "kind (of_nat (unat b)) = 8 \<longrightarrow> (of_nat (unat b) :: byte) = 0xF0"
    by (rule list_all_upt) (use unsigned_less [of b] in simp)
  then show "kind b = 8 \<Longrightarrow> b = 0xF0" by simp
qed

lemma str12_small: "unat (push_bit 8 (ucast (b AND 0xF :: byte)) OR ucast (b1 :: byte) :: u32) < 2 ^ 16"
proof -
  let ?w = "push_bit 8 (ucast (b AND 0xF)) OR ucast b1 :: u32"
  have "take_bit 16 ?w = ?w"
    by (intro bit_word_eqI) (auto simp: bit_take_bit_iff bit_or_iff bit_push_bit_iff bit_ucast_iff dest: bit_imp_le_length)
  moreover have "unat (take_bit 16 ?w) < 2 ^ 16"
    using unat_and_mask [of ?w 16] by (simp add: take_bit_eq_mask)
  ultimately show ?thesis by simp
qed

lemma wrap_rejected:
  assumes r: "rd lp p = Some 0xF0" "rdn lp (p + 1) 4 = Some bs" and n: "5 + le_dec bs = (n :: u32)" "unat n < 5"
    and d: "lpDecodeBacklen lp (p + unat n) = Some (ucast n)"
  shows False
proof -
  have l: "length bs = 4" using r(2) by (rule rdn_length)
  have bs: "bs = le_enc 4 (n - 5)" using le_enc_dec [OF l, where 'a = 32] n(1) by auto
  have nth: "rd lp (p + Suc i) = Some (bs ! i)" if "i < 4" for i
    using r(2) that by (auto simp: rdn_def rd_def split: if_splits)
  have c: "n = 0 \<or> n = 1 \<or> n = 2 \<or> n = 3 \<or> n = 4"
  proof -
    have "unat n \<in> {0, 1, 2, 3, 4}" using n(2) by auto
    then show ?thesis by (simp add: word_unat_eq_iff)
  qed
  have e: "le_enc 4 (1 - 5 :: u32) = [0xFC, 0xFF, 0xFF, 0xFF]" "le_enc 4 (2 - 5 :: u32) = [0xFD, 0xFF, 0xFF, 0xFF]"
      "le_enc 4 (3 - 5 :: u32) = [0xFE, 0xFF, 0xFF, 0xFF]" "le_enc 4 (4 - 5 :: u32) = [0xFF, 0xFF, 0xFF, 0xFF]"
    by code_simp+
  define x where "x = (if n = 0 then 0xF0 else bs ! (unat n - 1))"
  have x: "rd lp (p + unat n) = Some x"
  proof (cases "n = 0")
    case True
    then show ?thesis using r(1) by (simp add: x_def)
  next
    case False
    then have "Suc (unat n - 1) = unat n" "unat n - 1 < 4" using n(2) by (auto simp: unat_gt_0)
    then show ?thesis using False nth [of "unat n - 1"] by (simp add: x_def)
  qed
  have m: "(ucast n :: u64) \<noteq> UINT64_MAX" "take_bit 7 (ucast n :: u64) = ucast n"
    using c by (auto simp: UINT64_MAX_def)
  have "x AND 127 = (if n = 0 then 0x70 else if n = 1 then 0x7C else 0x7F)"
    using c e by (auto simp: x_def bs)
  then show False
    using decode_first [OF d x] m c by auto
qed

lemma validate_entry:
  assumes v: "lpValidateNext lp (Some p) bytes = Some (True, Some q)" and len: "bytes \<le> length lp"
  obtains n e where "lpCurrentEncodedSizeUnsafe lp p = Some n" "e = take (unat n) (drop p lp)" "entry_ok e" "length e = unat n"
    "q = p + unat (ucast n + backlen_size (ucast n) :: u64)" "p + unat n < q" "q < bytes"
proof -
  have p: "LP_HDR_SIZE \<le> p" "p < bytes" using v by (auto simp: lpValidateNext_def split: if_splits)
  define b where "b = lp ! p"
  have r: "rd lp p = Some b" using p len by (simp add: rd_def b_def)
  have eof: "b \<noteq> LP_EOF" using v r p by (auto simp: lpValidateNext_def split: if_splits)
  define lenbytes :: u32 where "lenbytes = [1, 1, 1, 1, 1, 1, 1, 2, 5, 1, 0] ! kind b"
  have lb: "lpCurrentEncodedSizeBytes lp p = Some lenbytes" using size_bytes_kind [OF r] by (simp add: lenbytes_def)
  have lenb: "lenbytes \<noteq> 0" "p + unat lenbytes < bytes"
    using v r p eof lb by (auto simp: lpValidateNext_def split: if_splits)
  obtain n where n: "lpCurrentEncodedSizeUnsafe lp p = Some n"
    using v r p eof lb lenb by (cases "lpCurrentEncodedSizeUnsafe lp p") (auto simp: lpValidateNext_def)
  define bl where "bl = length (lpEncodeBacklen (ucast n))"
  have bl: "1 \<le> bl" "bl \<le> 5" using length_backlen by (auto simp: bl_def)
  have un: "unat (ucast n :: u64) = unat n" by (simp add: unsigned_ucast_eq take_bit_nat_eq_self order_less_trans [OF unsigned_less])
  have n32: "unat n < 2 ^ 32" using unsigned_less [of n] by simp
  have el: "unat (ucast n + of_nat bl :: u64) = unat n + bl"
    using bl un n32 by (simp add: unat_word_ariths unat_of_nat take_bit_nat_eq_self)
  obtain prev where pv: "lpDecodeBacklen lp (p + (unat n + bl) - 1) = Some prev"
    using v r p eof lb lenb n el by (cases "lpDecodeBacklen lp (p + (unat n + bl) - 1)") (auto simp: lpValidateNext_def bl_def Let_def split: if_splits)
  have qs: "q = p + (unat n + bl)" "q < bytes" "prev = ucast n"
    using v r p eof lb lenb n el pv by (auto simp: lpValidateNext_def bl_def [symmetric] Let_def split: if_splits)
  have k9: "kind b < 9"
  proof -
    have "kind b \<noteq> 9" using eof by (auto simp: kind_def split: if_splits)
    moreover have "kind b \<noteq> 10" using lenb(1) by (auto simp: lenbytes_def)
    ultimately show ?thesis using kind_le [of b] by linarith
  qed
  define e where "e = take (unat n) (drop p lp)"
  have le: "length e = unat n" using qs(1,2) len by (simp add: e_def)
  have fit: "lp = take p lp @ e @ drop (p + unat n) lp"
    unfolding e_def by (metis append_take_drop_id drop_drop add.commute)
  have tp: "length (take p lp) = p" using p len by simp
  have lb_le: "unat lenbytes \<le> unat n"
  proof (rule ccontr)
    assume short: "\<not> unat lenbytes \<le> unat n"
    have k8: "kind b = 8"
    proof (rule ccontr)
      assume "kind b \<noteq> 8"
      moreover have "unat (ucast (b AND 63 :: byte) :: u32) < 2 ^ 16"
        by (rule order_less_trans [of _ 256]) (simp_all add: unsigned_ucast_eq take_bit_nat_eq_self order_less_trans [OF unsigned_less] unsigned_less [of "b AND 63", simplified])
      then have "unat (1 + ucast (b AND 63 :: byte) :: u32) = 1 + unat (ucast (b AND 63 :: byte) :: u32)" by (simp add: unat_word_ariths)
      moreover have "unat (2 + (push_bit 8 (ucast (b AND 15)) OR ucast b1) :: u32) = 2 + unat (push_bit 8 (ucast (b AND 15)) OR ucast b1 :: u32)" for b1 :: byte
        using str12_small [of b b1] by (simp add: unat_word_ariths)
      ultimately show False
        using short n k9 unfolding size_kind [OF r]
        by (cases rule: kind_cases [of b]) (auto simp: lenbytes_def split: Option.bind_splits)
    qed
    then obtain bs where bs: "rdn lp (p + 1) 4 = Some bs" "5 + le_dec bs = n"
      using n unfolding size_kind [OF r] by (auto split: Option.bind_splits)
    have n5: "unat n < 5" using short k8 by (simp add: lenbytes_def)
    then have "(ucast n :: u64) \<le> 127" using un by (simp add: word_le_nat_alt)
    then have "bl = 1" by (simp add: bl_def lpEncodeBacklen_def)
    then have d: "lpDecodeBacklen lp (p + unat n) = Some (ucast n)" using pv qs(3) by simp
    show False using wrap_rejected [OF _ bs n5 d] r kind_8 [OF k8] by simp
  qed
  have "entry_ok e"
  proof -
    have e0: "e \<noteq> []" using le lb_le lenb(1) by (metis le_zero_eq length_0_conv unat_eq_0)
    then have hd: "hd e = b" by (simp add: e_def b_def hd_conv_nth)
    have "lpCurrentEncodedSizeUnsafe e 0 = Some n"
    proof -
      have r0: "rd e 0 = Some b" using e0 hd by (simp add: rd_def hd_conv_nth)
      have "lpCurrentEncodedSizeUnsafe e 0 \<noteq> None"
        unfolding size_kind [OF r0] using lb_le k9 by (cases rule: kind_cases [of b]) (auto simp: lenbytes_def rd_def rdn_def le)
      then obtain n' where n': "lpCurrentEncodedSizeUnsafe e 0 = Some n'" by auto
      have "lpCurrentEncodedSizeUnsafe lp p = Some n'"
        using size_app [OF n', of "take p lp" "drop (p + unat n) lp"] fit tp by simp
      with n n' show ?thesis by simp
    qed
    then show ?thesis using e0 hd eof le n32 by (simp add: entry_ok_def)
  qed
  moreover have "q = p + unat (ucast n + backlen_size (ucast n) :: u64)" using qs(1) el by (simp add: bl_def)
  moreover have "p + unat n < q" using qs(1) bl by simp
  ultimately show thesis using that [OF n e_def] le qs(2) by blast
qed

lemma get_string_app:
  assumes "entry_ok e"
  shows "get_string (A @ e @ B) (length A) = Some (entry_str e)"
proof -
  note l = lifts_get [of A e B, unfolded lifts_def]
  show ?thesis
    using assms
  proof (cases rule: entry_get)
    case (istr off n)
    then have "lpGetWithSize (A @ e @ B) (length A) None = Some (LV_str (length A + off) n, Some (of_nat (length (block e))))"
      using l by simp
    moreover have "rdn (A @ e @ B) (length A + off) (unat n) = Some (entry_str e)"
      using istr(2,3) by (simp add: rdn_def)
    ultimately show ?thesis by (simp add: get_string_def lpGet_def get_intbuf)
  next
    case (iint v)
    have l': "length (dec_int (sint v)) < LP_INTBUF_SIZE" using length_dec_int [of v] by (simp add: LP_INTBUF_SIZE_def LONG_STR_SIZE_def)
    have u: "unat (ucast (of_nat (length (dec_int (sint v))) :: u32) :: u64) = length (dec_int (sint v))"
      using l' by (simp add: LP_INTBUF_SIZE_def unsigned_of_nat take_bit_nat_eq_self)
    show ?thesis
      using iint l l' u ll2string_ok [of "replicate LP_INTBUF_SIZE 0" LP_INTBUF_SIZE v]
      by (simp add: get_string_def lpGet_def get_intbuf rdn_def)
  qed
qed

lemma validated_step:
  assumes v: "lpValidateNext lp (Some p) bytes = Some (True, Some q)" and len: "bytes \<le> length lp"
  shows "\<exists>x. get_string lp p = Some x" and "lpSkip lp p = Some q" and "p < q" and "q < bytes"
proof -
  obtain n e where n: "lpCurrentEncodedSizeUnsafe lp p = Some n" "e = take (unat n) (drop p lp)" "entry_ok e" "length e = unat n"
      "q = p + unat (ucast n + backlen_size (ucast n) :: u64)" "p + unat n < q" "q < bytes"
    using validate_entry [OF v len] by blast
  have "lp = take p lp @ e @ drop (p + unat n) lp"
    unfolding n(2) by (metis append_take_drop_id drop_drop add.commute)
  moreover have "length (take p lp) = p" using n(6,7) len by simp
  ultimately show "\<exists>x. get_string lp p = Some x" using get_string_app [OF n(3), of "take p lp" "drop (p + unat n) lp"] by metis
  show "lpSkip lp p = Some q" using n(1,5) by (simp add: lpSkip_def Let_def)
  show "p < q" "q < bytes" using n(6,7) by simp_all
qed

lemma validate_loop_sound:
  assumes "validate_loop cb lp bytes numele (Some p) c u = Some (True, r, c', u')"
    and "LP_HDR_SIZE \<le> p" and "p < bytes" and "bytes \<le> length lp" and "lpBytes lp = Some (of_nat bytes)" and "bytes < 2 ^ 32"
  shows "\<exists>xs. lp_walk lp (if lp ! p = LP_EOF then None else Some p) = Some xs \<and> c' = c + of_nat (length xs) \<and>
    (lp ! p \<noteq> LP_EOF \<longrightarrow> lpAssertValidEntry lp bytes p = Some ())"
  using assms
proof (induction "bytes - p" arbitrary: p c u rule: less_induct)
  case less
  have r: "rd lp p = Some (lp ! p)" using less.prems by (simp add: rd_def)
  show ?case
  proof (cases "lp ! p = LP_EOF")
    case True
    then have "c' = c" using less.prems(1) r by (subst (asm) validate_loop.simps) simp
    then show ?thesis using True by (subst lp_walk.simps) simp
  next
    case False
    obtain ok q0 where v0: "lpValidateNext lp (Some p) bytes = Some (ok, q0)"
        "ok \<longrightarrow> lp ! p = LP_EOF \<and> q0 = None \<or> (\<exists>q'. q0 = Some q' \<and> p < q' \<and> q' < bytes)"
      using validate_total [OF less.prems(4,2,3)] by blast
    then have ok: "ok" using less.prems(1) r False by (subst (asm) validate_loop.simps) (auto split: if_splits)
    then obtain q where q: "q0 = Some q" using v0(2) False by auto
    note v = v0(1) [unfolded q, simplified ok]
    note st = validated_step [OF v less.prems(4)]
    have loop: "\<exists>u1. validate_loop cb lp bytes numele (Some q) (c + 1) u1 = Some (True, r, c', u')"
      using less.prems(1) r False v by (subst (asm) validate_loop.simps) (auto split: if_splits prod.splits option.splits)
    then obtain u1 where "validate_loop cb lp bytes numele (Some q) (c + 1) u1 = Some (True, r, c', u')" by blast
    moreover have "LP_HDR_SIZE \<le> q" using st(3) less.prems(2) by simp
    moreover have "bytes - q < bytes - p" using st(3,4) by simp
    ultimately obtain xs where xs: "lp_walk lp (if lp ! q = LP_EOF then None else Some q) = Some xs" "c' = c + 1 + of_nat (length xs)"
        "lp ! q \<noteq> LP_EOF \<longrightarrow> lpAssertValidEntry lp bytes q = Some ()"
      using less.hyps [of q "c + 1" u1] st(4) less.prems(4-6) by auto
    have ub: "unat (of_nat bytes :: u64) = bytes" using less.prems(6) by (simp add: unat_of_nat take_bit_nat_eq_self)
    have rq: "rd lp q = Some (lp ! q)" using st(4) less.prems(4) by (simp add: rd_def)
    have nx: "lpNext lp p = Some (if lp ! q = LP_EOF then None else Some q)"
      using st(2) rq xs(3) less.prems(5) ub by (simp add: lpNext_def)
    obtain x where x: "get_string lp p = Some x" using st(1) by blast
    have "lp_walk lp (Some p) = Some (x # xs)"
      using x nx xs(1) by (subst lp_walk.simps) (simp del: if_split)
    moreover have "lpAssertValidEntry lp bytes p = Some ()" using v by (simp add: lpAssertValidEntry_def)
    ultimately show ?thesis using False xs(2) by simp
  qed
qed

lemma validate_loop_total:
  assumes "LP_HDR_SIZE \<le> p" and "p < bytes" and "bytes \<le> length lp"
  shows "\<exists>r. validate_loop cb lp bytes numele (Some p) c u = Some r"
  using assms
proof (induction "bytes - p" arbitrary: p c u rule: less_induct)
  case less
  have r: "rd lp p = Some (lp ! p)" using less.prems by (simp add: rd_def)
  obtain ok q0 where v0: "lpValidateNext lp (Some p) bytes = Some (ok, q0)"
      "ok \<longrightarrow> lp ! p = LP_EOF \<and> q0 = None \<or> (\<exists>q'. q0 = Some q' \<and> p < q' \<and> q' < bytes)"
    using validate_total [OF less.prems(3,1,2)] by blast
  show ?case
  proof (cases "lp ! p = LP_EOF \<or> \<not> ok")
    case True
    then show ?thesis using r v0(1) by (subst validate_loop.simps) auto
  next
    case False
    then obtain q where q: "q0 = Some q" "p < q" "q < bytes" using v0(2) by auto
    obtain ok' u1 where cb: "(case cb of None \<Rightarrow> (True, u) | Some f \<Rightarrow> f p numele u) = (ok', u1)" by fastforce
    have "\<exists>r. validate_loop cb lp bytes numele (Some q) (c + 1) u1 = Some r"
      using less.hyps [of q "c + 1" u1] less.prems q by auto
    moreover have "validate_loop cb lp bytes numele (Some p) c u =
        (if \<not> ok' then Some (False, Some q, c, u1) else validate_loop cb lp bytes numele (Some q) (c + 1) u1)"
      using r v0(1) False q(1) cb by (subst validate_loop.simps) simp
    ultimately show ?thesis by (cases ok') auto
  qed
qed

lemma validate_loop_at:
  assumes "lp_rep lp es" and "i \<le> length es"
  shows "validate_loop None lp (lp_size es) numele (Some (lp_pos es i)) c u =
    Some (True, Some (lp_pos es (length es)), c + of_nat (length es - i), u)"
  using assms(2)
proof (induction "length es - i" arbitrary: i c)
  case 0
  then show ?case using rd_end [OF assms(1)] by (subst validate_loop.simps) simp
next
  case (Suc n)
  then have i: "i < length es" by simp
  have "length es - i = Suc (length es - Suc i)" using i by simp
  then show ?case
    using Suc.hyps i rd_entry [OF assms(1) i] validate_at [OF assms(1) i]
    by (subst validate_loop.simps) (simp add: add.assoc)
qed


lemma lpBytes_total: "4 \<le> length lp \<Longrightarrow> \<exists>n :: u32. lpGetTotalBytes lp = Some n \<and> lpBytes lp = Some (ucast n)"
  by (simp add: lpGetTotalBytes_def lpBytes_def rdn_def)

lemma validate_rep:
  assumes "lp_rep lp es"
  shows "lpValidateIntegrity None lp (of_nat (lp_size es)) True u = Some (True, u)"
proof -
  obtain num rest where num: "lp = lp_hdr (lp_size es) num @ rest" "num = LP_HDR_NUMELE_UNKNOWN \<or> unat num = length es \<and> length es < 65535"
    using assms by (auto simp: lp_rep_def)
  have n: "lpGetNumElements lp = Some num" by (rule lp_num [OF num])
  have "num = LP_HDR_NUMELE_UNKNOWN \<or> num = of_nat (length es)" using num(2) by (metis of_nat_unat ucast_id)
  moreover have "lp_pos es (length es) = lp_size es - 1" "lp_pos es 0 = LP_HDR_SIZE" "LP_HDR_SIZE + 1 \<le> lp_size es"
    by (simp_all add: lp_pos_def lp_size_def)
  ultimately show ?thesis
    using validate_loop_at [OF assms, of 0 num 0 u] rd_end [OF assms] lp_total(3,4) [OF assms] n
    by (auto simp: lpValidateIntegrity_def)
qed

section \<open>Properties\<close>

text \<open>
  C31: A listpack answers every sequence of insertions, replacements, deletions, range deletions and
  reads as a list of strings does: appending, prepending, inserting before and after an index, negative
  indexes, lookups of the value after a field. No operation reads or writes outside its block, no
  assertion fails and none of the elements is lost in the integer encodings; an addition is refused
  exactly when the listpack would grow beyond 1 GB. Walking the final listpack from its first entry
  yields the final list.
\<close>

theorem listpack_refines_list:
  "\<exists>lp0 lp. lpNew al capacity = Some lp0 \<and>
     run_ops (lp_step al) ops lp0 = Some (lp, snd (run_spec lp_spec ops [])) \<and>
     lp_list lp = Some (fst (run_spec lp_spec ops []))"
proof -
  obtain lp0 where n: "lpNew al capacity = Some lp0" "lp_inv lp0" "lp_abs lp0 = []" using lpNew_ok by blast
  obtain lp where l: "run_ops (lp_step al) ops lp0 = Some (lp, snd (run_spec lp_spec ops []))" "lp_inv lp"
      "lp_abs lp = fst (run_spec lp_spec ops [])"
    using lpk.run_refines [OF n(2), of al ops] n(3) by auto
  have "lp_list lp = Some (lp_abs lp)"
    using l(2) lp_list_rep map_entry_str unfolding lp_inv_abs by fastforce
  then show ?thesis using n(1) l by auto
qed

text \<open>
  C36: An integer stored in a listpack is read back unchanged, whichever of the six widths its value
  selects and wherever in the block it lies.
\<close>

theorem lpEncodeInteger_roundtrip:
  "\<exists>entry_size. lpGetWithSize (A @ lpEncodeIntegerGetType v @ B) (length A) None = Some (LV_int v, Some entry_size) \<and>
     unat entry_size = length (lpEncodeIntegerGetType v) + 1"
proof -
  let ?e = "lpEncodeIntegerGetType v"
  have ok: "entry_ok ?e" by (rule int_entry_ok)
  have sz: "length (block ?e) = length ?e + 1" using int_size [of ?e] length_int_entry [of v] by simp
  have "lpGetWithSize ?e 0 None = Some (LV_int v, Some (of_nat (length (block ?e))))"
    using ok int_entry [of v] by (cases rule: entry_get) auto
  then have "lpGetWithSize (A @ ?e @ B) (length A) None = Some (LV_int v, Some (of_nat (length (block ?e))))"
    using lifts_get [of A ?e B] by (simp add: lifts_def)
  moreover have "unat (of_nat (length (block ?e)) :: u64) = length ?e + 1"
    using sz length_int_entry [of v] by (simp add: unat_of_nat take_bit_nat_eq_self del: of_nat_Suc)
  ultimately show ?thesis by blast
qed

text \<open>
  C35: \<open>lpMerge\<close> concatenates two listpacks, into the block of the larger one.
\<close>

theorem lpMerge_concat:
  assumes "lp_inv first" and "lp_inv second" and "lp_size (map entry_of (lp_abs first @ lp_abs second)) < 2 ^ 32 - 1"
  shows "\<exists>lp append. lpMerge al first second = Some (lp, append) \<and> lp_inv lp \<and> lp_abs lp = lp_abs first @ lp_abs second \<and>
    (append \<longleftrightarrow> lp_size (map entry_of (lp_abs second)) \<le> lp_size (map entry_of (lp_abs first)))"
proof -
  have r: "lp_rep first (map entry_of (lp_abs first))" "lp_rep second (map entry_of (lp_abs second))"
      "list_all str_ok (lp_abs first @ lp_abs second)"
    using assms(1,2) unfolding lp_inv_abs by auto
  obtain lp where m: "lpMerge al first second = Some (lp, lp_size (map entry_of (lp_abs second)) \<le> lp_size (map entry_of (lp_abs first)))"
      "lp_rep lp (map entry_of (lp_abs first @ lp_abs second))"
    using lpMerge_ok [OF r(1,2), of al] assms(3) by auto
  then show ?thesis using lp_invI [OF m(2) r(3)] by auto
qed

theorem lpMerge_concat_witness:
  "\<exists>a lp. lpNew \<lparr>lp_slack = (\<lambda>_. 0), lp_junk = (\<lambda>_. 0)\<rparr> 0 = Some a \<and>
    lpMerge \<lparr>lp_slack = (\<lambda>_. 0), lp_junk = (\<lambda>_. 0)\<rparr> a a = Some (lp, True) \<and> lp_abs lp = []"
proof -
  obtain a where a: "lpNew \<lparr>lp_slack = (\<lambda>_. 0), lp_junk = (\<lambda>_. 0)\<rparr> 0 = Some a" "lp_inv a" "lp_abs a = []"
    using lpNew_ok by blast
  then show ?thesis
    using lpMerge_concat [OF a(2,2), of "\<lparr>lp_slack = (\<lambda>_. 0), lp_junk = (\<lambda>_. 0)\<rparr>"] by (auto simp: lp_size_def LP_HDR_SIZE_def)
qed

text \<open>
  C33: \<open>lpValidateIntegrity\<close> never reads outside the block, for any bytes, size and callback, and
  it terminates.
\<close>

theorem lpValidateIntegrity_safe:
  assumes "unat sz \<le> length lp"
  shows "\<exists>ok u'. lpValidateIntegrity cb lp sz deep u = Some (ok, u')"
proof (cases "unat sz < LP_HDR_SIZE + 1")
  case True
  then have "lpValidateIntegrity cb lp sz deep u = Some (False, u)" by (simp add: lpValidateIntegrity_def)
  then show ?thesis by blast
next
  case False
  then have l: "7 \<le> unat sz" "7 \<le> length lp" using assms by (auto simp: LP_HDR_SIZE_def)
  obtain n where n: "lpBytes lp = Some (ucast (n :: u32))" using lpBytes_total [of lp] l(2) by auto
  obtain num where num: "lpGetNumElements lp = Some num" using l(2) by (simp add: lpGetNumElements_def rdn_def)
  have "\<exists>ok p c u'. validate_loop cb lp (unat sz) num (Some LP_HDR_SIZE) 0 u = Some (ok, p, c, u')"
    using validate_loop_total [of LP_HDR_SIZE "unat sz" lp cb num 0 u] l assms by (auto simp: LP_HDR_SIZE_def)
  then show ?thesis using False n num l assms by (auto simp: lpValidateIntegrity_def rd_def)
qed

theorem lpValidateIntegrity_safe_witness:
  "\<exists>ok u'. lpValidateIntegrity None [7, 0, 0, 0, 1, 0, 0xF0] 7 True () = Some (ok, u')"
  using lpValidateIntegrity_safe [of 7 "[7, 0, 0, 0, 1, 0, 0xF0]" None True "()"] by simp

text \<open>
  C32: A block that \<open>lpValidateIntegrity\<close> accepts can be walked: \<open>lpFirst\<close> and \<open>lpNext\<close> visit the
  entries to the end, no assertion fails, every element is read inside the block, and a known
  element count in the header is the number of entries. In particular a crafted 32 bit length whose
  entry size wraps around is never accepted.
\<close>

theorem lpValidateIntegrity_sound:
  assumes "lpValidateIntegrity cb lp sz True u = Some (True, u')" and "unat sz \<le> length lp"
  shows "\<exists>xs num. lp_list lp = Some xs \<and> lpGetNumElements lp = Some num \<and>
    (num = LP_HDR_NUMELE_UNKNOWN \<or> num = of_nat (length xs))"
proof -
  have l: "7 \<le> unat sz" using assms(1) by (auto simp: lpValidateIntegrity_def LP_HDR_SIZE_def split: if_splits)
  obtain n where n: "lpBytes lp = Some (ucast (n :: u32))" using lpBytes_total [of lp] l assms(2) by auto
  obtain num where num: "lpGetNumElements lp = Some num" using l assms(2) by (simp add: lpGetNumElements_def rdn_def)
  have sz: "ucast n = sz" using assms(1) n l by (auto simp: lpValidateIntegrity_def LP_HDR_SIZE_def split: if_splits)
  then have b32: "unat sz < 2 ^ 32"
    using unsigned_less [of n] by (auto simp: unsigned_ucast_eq take_bit_nat_eq_self order_less_trans [OF unsigned_less])
  obtain p c u1 where loop: "validate_loop cb lp (unat sz) num (Some LP_HDR_SIZE) 0 u = Some (True, p, c, u1)"
      and c: "num = LP_HDR_NUMELE_UNKNOWN \<or> num = c"
    using assms(1) n l num sz by (auto simp: lpValidateIntegrity_def LP_HDR_SIZE_def split: if_splits Option.bind_splits)
  have lb: "lpBytes lp = Some (of_nat (unat sz))" using n sz by simp
  obtain xs where xs: "lp_walk lp (if lp ! LP_HDR_SIZE = LP_EOF then None else Some LP_HDR_SIZE) = Some xs" "c = of_nat (length xs)"
      "lp ! LP_HDR_SIZE \<noteq> LP_EOF \<longrightarrow> lpAssertValidEntry lp (unat sz) LP_HDR_SIZE = Some ()"
    using validate_loop_sound [OF loop _ _ assms(2) lb b32] l by (auto simp: LP_HDR_SIZE_def)
  have "rd lp LP_HDR_SIZE = Some (lp ! LP_HDR_SIZE)" using l assms(2) by (simp add: rd_def LP_HDR_SIZE_def)
  then have "lpFirst lp = Some (if lp ! LP_HDR_SIZE = LP_EOF then None else Some LP_HDR_SIZE)"
    using xs(3) lb by (simp add: lpFirst_def)
  then have "lp_list lp = Some xs" using xs(1) by (simp add: lp_list_def del: if_split)
  then show ?thesis using num c xs(2) by auto
qed

theorem lpValidateIntegrity_sound_witness:
  "lpValidateIntegrity None [9, 0, 0, 0, 1, 0, 5, 1, 0xFF] 9 True () = Some (True, ()) \<and>
   (\<exists>xs num. lp_list [9, 0, 0, 0, 1, 0, 5, 1, 0xFF] = Some xs \<and>
     lpGetNumElements [9, 0, 0, 0, 1, 0, 5, 1, 0xFF] = Some num \<and> (num = LP_HDR_NUMELE_UNKNOWN \<or> num = of_nat (length xs)))"
proof -
  have v: "lpValidateIntegrity None [9, 0, 0, 0, 1, 0, 5, 1, 0xFF] 9 True () = Some (True, ())" by code_simp
  show ?thesis using lpValidateIntegrity_sound [OF v] v by simp
qed

text \<open>
  C34: Every listpack the operations build is accepted by \<open>lpValidateIntegrity\<close>.
\<close>

theorem lpValidateIntegrity_complete:
  "\<exists>lp0 lp out. lpNew al capacity = Some lp0 \<and> run_ops (lp_step al) ops lp0 = Some (lp, out) \<and>
    (\<exists>sz. lpBytes lp = Some sz \<and> lpValidateIntegrity None lp sz True u = Some (True, u))"
proof -
  obtain lp0 where n: "lpNew al capacity = Some lp0" "lp_inv lp0" using lpNew_ok by blast
  obtain lp where l: "run_ops (lp_step al) ops lp0 = Some (lp, snd (run_spec lp_spec ops (lp_abs lp0)))" "lp_inv lp"
    using lpk.run_refines [OF n(2), of al ops] by auto
  define es where "es = map entry_of (lp_abs lp)"
  have rep: "lp_rep lp es" using l(2) by (simp add: lp_inv_abs es_def)
  have v: "lpValidateIntegrity None lp (of_nat (lp_size es)) True u = Some (True, u)" by (rule validate_rep [OF rep])
  then show ?thesis using n l lp_total(3) [OF rep] by blast
qed

end
