(* ===== verification/Redis_Resp.thy ===== *)
theory Redis_Resp
  imports Redis_Sds_Text
begin

text \<open>
  The request parser of \<open>networking.c\<close>: the query buffer of a client, the two request formats (inline
  lines and RESP arrays of bulk strings), the loop that parses and runs the commands in the
  buffer, and the part of the replication stream that a replica passes on to its own replicas.
  The buffer is given by the contents of its dynamic string, which a zero byte terminates. \<open>None\<close> is a
  failed assertion or an access outside an array. The execution of a command, \<open>processCommand\<close>, is a
  parameter: it gets the client with its arguments and a state of the caller's.
\<close>

section \<open>Clients\<close>

datatype cflag = CLIENT_SLAVE | CLIENT_MASTER | CLIENT_MONITOR | CLIENT_MULTI | CLIENT_BLOCKED
  | CLIENT_CLOSE_AFTER_REPLY | CLIENT_ASKING | CLIENT_CLOSE_ASAP | CLIENT_SCRIPT | CLIENT_PUBSUB
  | CLIENT_REPLY_SKIP_NEXT | CLIENT_REPLY_SKIP | CLIENT_PENDING_COMMAND | CLIENT_TRACKING_CACHING
  | CLIENT_PROTOCOL_ERROR

datatype proto_req = PROTO_REQ_NONE | PROTO_REQ_INLINE | PROTO_REQ_MULTIBULK

datatype client_type = CLIENT_TYPE_NORMAL | CLIENT_TYPE_SLAVE | CLIENT_TYPE_PUBSUB | CLIENT_TYPE_MASTER

text \<open>The commands that \<open>resetClient\<close> tells apart.\<close>

datatype cmd_proc = askingCommand | clientCommand | otherCommand

text \<open>
  \<open>argv\<close> lists the \<open>argc\<close> arguments that are set, \<open>argv_len\<close> is the size of the array. \<open>replies\<close> are the
  errors handed to \<open>addReplyError\<close>, \<open>repl_fed\<close> the bytes handed to
  \<open>replicationFeedStreamFromMasterStream\<close>. The fields for cluster slots, scripts and deferred errors,
  which \<open>resetClient\<close> also clears, are left out.
\<close>

record client =
  querybuf :: buffer
  qb_pos :: nat
  reqtype :: proto_req
  multibulklen :: int
  bulklen :: u64
  argv :: "buffer list"
  argv_len :: int
  argv_len_sum :: u64
  cmd :: "cmd_proc option"
  flags :: "cflag set"
  replies :: "string list"
  reploff :: int
  read_reploff :: int
  repl_applied :: nat
  repl_fed :: buffer
  repl_ack_time :: int
  lastinteraction :: int

text \<open>\<open>auth_needed\<close> is what \<open>authRequired\<close> says of the client.\<close>

record server =
  proto_max_bulk_len :: u64
  client_max_querybuf_len :: nat
  auth_needed :: bool
  unixtime :: int
  io_threads_idle :: bool
  yielding_command :: bool

abbreviation INT_MAX :: int where "INT_MAX \<equiv> 2147483647"

definition PROTO_INLINE_MAX_SIZE :: nat where "PROTO_INLINE_MAX_SIZE = 1024 * 64"
definition PROTO_MBULK_BIG_ARG :: nat where "PROTO_MBULK_BIG_ARG = 1024 * 32"

definition createClient :: "int \<Rightarrow> client" where
  "createClient now =
     \<lparr>querybuf = [], qb_pos = 0, reqtype = PROTO_REQ_NONE, multibulklen = 0, bulklen = - 1, argv = [], argv_len = 0,
      argv_len_sum = 0, cmd = None, flags = {}, replies = [], reploff = 0, read_reploff = 0, repl_applied = 0,
      repl_fed = [], repl_ack_time = 0, lastinteraction = now\<rparr>"

definition getClientType :: "client \<Rightarrow> client_type" where
  "getClientType c =
     (if CLIENT_MASTER \<in> flags c then CLIENT_TYPE_MASTER
      else if CLIENT_SLAVE \<in> flags c \<and> CLIENT_MONITOR \<notin> flags c then CLIENT_TYPE_SLAVE
      else if CLIENT_PUBSUB \<in> flags c then CLIENT_TYPE_PUBSUB
      else CLIENT_TYPE_NORMAL)"

definition freeClientArgv :: "client \<Rightarrow> client" where
  "freeClientArgv c = c\<lparr>argv := [], cmd := None, argv_len_sum := 0, argv_len := 0\<rparr>"

definition freeClientAsync :: "client \<Rightarrow> client" where
  "freeClientAsync c =
     (if CLIENT_CLOSE_ASAP \<in> flags c \<or> CLIENT_SCRIPT \<in> flags c then c
      else c\<lparr>flags := insert CLIENT_CLOSE_ASAP (flags c)\<rparr>)"

definition resetClient :: "client \<Rightarrow> client" where
  "resetClient c =
     (let prevcmd = cmd c;
          c = freeClientArgv c;
          c = c\<lparr>reqtype := PROTO_REQ_NONE, multibulklen := 0, bulklen := - 1\<rparr>;
          c = (if CLIENT_MULTI \<notin> flags c \<and> prevcmd \<noteq> Some askingCommand
               then c\<lparr>flags := flags c - {CLIENT_ASKING}\<rparr> else c);
          c = (if CLIENT_MULTI \<notin> flags c \<and> prevcmd \<noteq> Some clientCommand
               then c\<lparr>flags := flags c - {CLIENT_TRACKING_CACHING}\<rparr> else c);
          c = c\<lparr>flags := flags c - {CLIENT_REPLY_SKIP}\<rparr>
      in if CLIENT_REPLY_SKIP_NEXT \<in> flags c
         then c\<lparr>flags := insert CLIENT_REPLY_SKIP (flags c) - {CLIENT_REPLY_SKIP_NEXT}\<rparr> else c)"

definition setProtocolError :: "client \<Rightarrow> client" where
  "setProtocolError c = c\<lparr>flags := flags c \<union> {CLIENT_CLOSE_AFTER_REPLY, CLIENT_PROTOCOL_ERROR}\<rparr>"

definition addReplyError :: "string \<Rightarrow> client \<Rightarrow> client" where
  "addReplyError err c = c\<lparr>replies := replies c @ [err]\<rparr>"

definition protocol_error :: "string \<Rightarrow> client \<Rightarrow> client" where
  "protocol_error err c = setProtocolError (addReplyError err c)"

section \<open>Inline requests\<close>

text \<open>The unread part of the buffer, and \<open>strchr\<close> in it, which stops at the first zero byte.\<close>

definition unread :: "client \<Rightarrow> buffer option" where
  "unread c = (if qb_pos c \<le> length (querybuf c) then Some (drop (qb_pos c) (querybuf c)) else None)"

fun strchr_pos :: "buffer \<Rightarrow> byte \<Rightarrow> nat option" where
  "strchr_pos [] x = None"
| "strchr_pos (b # bs) x = (if b = x then Some 0 else if b = 0 then None else map_option Suc (strchr_pos bs x))"

text \<open>
  The results say whether the function returns \<open>C_OK\<close>. \<open>inline_args\<close> is what is done once the line is split.
\<close>

definition inline_args :: "server \<Rightarrow> client \<Rightarrow> nat \<Rightarrow> nat \<Rightarrow> buffer list \<Rightarrow> bool \<times> client" where
  "inline_args srv c querylen linefeed_chars args =
     (let c = (if querylen = 0 \<and> getClientType c = CLIENT_TYPE_SLAVE then c\<lparr>repl_ack_time := unixtime srv\<rparr> else c) in
      if querylen \<noteq> 0 \<and> CLIENT_MASTER \<in> flags c then (False, setProtocolError c)
      else
        let c = c\<lparr>qb_pos := qb_pos c + querylen + linefeed_chars\<rparr>;
            c = (if args \<noteq> [] then c\<lparr>argv_len := int (length args), argv_len_sum := 0\<rparr> else c)
        in (True, c\<lparr>argv := args, argv_len_sum := argv_len_sum c + of_nat (sum_list (map length args))\<rparr>))"

definition processInlineBuffer :: "server \<Rightarrow> client \<Rightarrow> (bool \<times> client) option" where
  "processInlineBuffer srv c =
     do {
       u \<leftarrow> unread c;
       Some (case strchr_pos u 10 of
          None \<Rightarrow>
            (False, if PROTO_INLINE_MAX_SIZE < length (querybuf c) - qb_pos c
                    then protocol_error ''Protocol error: too big inline request'' c else c)
        | Some newline \<Rightarrow>
            let (querylen, linefeed_chars) =
                  (if newline \<noteq> 0 \<and> u ! (newline - 1) = 13 then (newline - 1, 2) else (newline, 1))
            in case sdssplitargs (take querylen u) of
                 None \<Rightarrow> (False, protocol_error ''Protocol error: unbalanced quotes in request'' c)
               | Some args \<Rightarrow> inline_args srv c querylen linefeed_chars args)
     }"

section \<open>Multi bulk requests\<close>

text \<open>
  A length line: nothing yet, a line that is too long, or the offset of the carriage return, with the
  line feed after it also in the buffer.
\<close>

datatype len_line = LINE_WAIT | LINE_TOO_BIG | LINE_AT nat

definition find_line :: "client \<Rightarrow> len_line option" where
  "find_line c =
     do {
       u \<leftarrow> unread c;
       Some (case strchr_pos u 13 of
          None \<Rightarrow> if PROTO_INLINE_MAX_SIZE < length (querybuf c) - qb_pos c then LINE_TOO_BIG else LINE_WAIT
        | Some newline \<Rightarrow> if int (length (querybuf c)) - int (qb_pos c) - 2 < int newline then LINE_WAIT else LINE_AT newline)
     }"

text \<open>
  The array header. \<open>Inl\<close> is a return, with whether it is \<open>C_OK\<close>; \<open>Inr\<close> goes on to the arguments.
\<close>

definition multibulk_header :: "server \<Rightarrow> client \<Rightarrow> ((bool \<times> client) + client) option" where
  "multibulk_header srv c =
     (if argv c \<noteq> [] then None
      else do {
        l \<leftarrow> find_line c;
        case l of
          LINE_WAIT \<Rightarrow> Some (Inl (False, c))
        | LINE_TOO_BIG \<Rightarrow> Some (Inl (False, protocol_error ''Protocol error: too big mbulk count string'' c))
        | LINE_AT newline \<Rightarrow> do {
            u \<leftarrow> unread c;
            b \<leftarrow> rd u 0;
            if b \<noteq> ch (CHR ''*'') then None
            else case string2ll (take (newline - 1) (drop 1 u)) of
              None \<Rightarrow> Some (Inl (False, protocol_error ''Protocol error: invalid multibulk length'' c))
            | Some ll \<Rightarrow>
                if INT_MAX < sint ll then Some (Inl (False, protocol_error ''Protocol error: invalid multibulk length'' c))
                else if 10 < sint ll \<and> auth_needed srv then
                  Some (Inl (False, protocol_error ''Protocol error: unauthenticated multibulk length'' c))
                else
                  let c = c\<lparr>qb_pos := qb_pos c + newline + 2\<rparr>
                  in Some (if sint ll \<le> 0 then Inl (True, c)
                           else Inr (c\<lparr>multibulklen := sint ll, argv_len := min (sint ll) 1024, argv_len_sum := 0\<rparr>))
          }
      })"

text \<open>
  Reading the length of one argument: \<open>BULK_WAIT\<close> leaves the loop, \<open>BULK_FAIL\<close> returns \<open>C_ERR\<close>.
\<close>

datatype bulk_result = BULK_WAIT client | BULK_FAIL client | BULK_GO client

definition bulk_header :: "server \<Rightarrow> client \<Rightarrow> bulk_result option" where
  "bulk_header srv c =
     do {
       l \<leftarrow> find_line c;
       case l of
         LINE_WAIT \<Rightarrow> Some (BULK_WAIT c)
       | LINE_TOO_BIG \<Rightarrow> Some (BULK_FAIL (protocol_error ''Protocol error: too big bulk count string'' c))
       | LINE_AT newline \<Rightarrow> do {
           u \<leftarrow> unread c;
           b \<leftarrow> rd u 0;
           if b \<noteq> ch (CHR ''$'') then
             Some (BULK_FAIL (protocol_error (''Protocol error: expected '' @ [CHR 0x27] @ ''$'' @ [CHR 0x27] @ '', got '' @ [CHR 0x27, char_of (unat b), CHR 0x27]) c))
           else case string2ll (take (newline - 1) (drop 1 u)) of
             None \<Rightarrow> Some (BULK_FAIL (protocol_error ''Protocol error: invalid bulk length'' c))
           | Some ll \<Rightarrow>
               if ll <s 0 \<or> CLIENT_MASTER \<notin> flags c \<and> proto_max_bulk_len srv <s ll then
                 Some (BULK_FAIL (protocol_error ''Protocol error: invalid bulk length'' c))
               else if 16384 <s ll \<and> auth_needed srv then
                 Some (BULK_FAIL (protocol_error ''Protocol error: unauthenticated bulk length'' c))
               else
                 let c = c\<lparr>qb_pos := qb_pos c + newline + 2\<rparr>;
                     c = (if CLIENT_MASTER \<notin> flags c \<and> PROTO_MBULK_BIG_ARG \<le> unat ll \<and>
                             length (querybuf c) - qb_pos c \<le> unat (ll + 2)
                          then c\<lparr>querybuf := drop (qb_pos c) (querybuf c), qb_pos := 0\<rparr> else c)
                 in Some (BULK_GO (c\<lparr>bulklen := ll\<rparr>))
         }
     }"

text \<open>
  Reading the bytes of one argument. The array must have a slot for it; the large argument that
  fills the whole buffer takes the buffer itself.
\<close>

definition grow_argv :: "client \<Rightarrow> client" where
  "grow_argv c =
     (if argv_len c \<le> int (length (argv c)) then
        c\<lparr>argv_len := min (if argv_len c < INT_MAX div 2 then argv_len c * 2 else INT_MAX) (int (length (argv c)) + multibulklen c)\<rparr>
      else c)"

definition bulk_body :: "client \<Rightarrow> bulk_result option" where
  "bulk_body c =
     (if length (querybuf c) - qb_pos c < unat (bulklen c + 2) then Some (BULK_WAIT c)
      else
        let c = grow_argv c in
        if argv_len c \<le> int (length (argv c)) then None
        else if CLIENT_MASTER \<notin> flags c \<and> qb_pos c = 0 \<and> PROTO_MBULK_BIG_ARG \<le> unat (bulklen c) \<and>
                length (querybuf c) = unat (bulklen c + 2) then
          Some (BULK_GO (c\<lparr>argv := argv c @ [take (length (querybuf c) - 2) (querybuf c)],
            argv_len_sum := argv_len_sum c + bulklen c, querybuf := [], bulklen := - 1, multibulklen := multibulklen c - 1\<rparr>))
        else do {
          u \<leftarrow> unread c;
          a \<leftarrow> rdn u 0 (unat (bulklen c));
          Some (BULK_GO (c\<lparr>argv := argv c @ [a], argv_len_sum := argv_len_sum c + bulklen c,
            qb_pos := qb_pos c + unat (bulklen c + 2), bulklen := - 1, multibulklen := multibulklen c - 1\<rparr>))
        })"

definition bulk_argument :: "server \<Rightarrow> client \<Rightarrow> bulk_result option" where
  "bulk_argument srv c =
     do {
       r \<leftarrow> (if bulklen c = - 1 then bulk_header srv c else Some (BULK_GO c));
       case r of BULK_GO c \<Rightarrow> bulk_body c | _ \<Rightarrow> Some r
     }"

text \<open>The loop runs while \<open>multibulklen\<close> is not 0; the first argument is this count.\<close>

fun bulk_loop :: "nat \<Rightarrow> server \<Rightarrow> client \<Rightarrow> (bool \<times> client) option" where
  "bulk_loop 0 srv c = Some (True, c)"
| "bulk_loop (Suc n) srv c =
     do {
       r \<leftarrow> bulk_argument srv c;
       case r of
         BULK_WAIT c \<Rightarrow> Some (False, c)
       | BULK_FAIL c \<Rightarrow> Some (False, c)
       | BULK_GO c \<Rightarrow> bulk_loop n srv c
     }"

definition processMultibulkBuffer :: "server \<Rightarrow> client \<Rightarrow> (bool \<times> client) option" where
  "processMultibulkBuffer srv c =
     do {
       h \<leftarrow> (if multibulklen c = 0 then multibulk_header srv c else Some (Inr c));
       case h of
         Inl r \<Rightarrow> Some r
       | Inr c \<Rightarrow> if multibulklen c \<le> 0 then None else bulk_loop (nat (multibulklen c)) srv c
     }"

section \<open>The input loop\<close>

text \<open>
  The bytes that a replica applied from its master go to its own replicas.
\<close>

definition commandProcessed :: "client \<Rightarrow> client option" where
  "commandProcessed c =
     (if CLIENT_BLOCKED \<in> flags c then Some c
      else
        let c = resetClient c;
            prev_offset = reploff c;
            c = (if CLIENT_MASTER \<in> flags c \<and> CLIENT_MULTI \<notin> flags c
                 then c\<lparr>reploff := read_reploff c - int (length (querybuf c)) + int (qb_pos c)\<rparr> else c);
            applied = reploff c - prev_offset
        in if CLIENT_MASTER \<in> flags c \<and> applied \<noteq> 0 then
             if applied < 0 then None
             else do {
               xs \<leftarrow> rdn (querybuf c) (repl_applied c) (nat applied);
               Some (c\<lparr>repl_fed := repl_fed c @ xs, repl_applied := repl_applied c + nat applied\<rparr>)
             }
           else Some c)"

text \<open>
  \<open>processCommand\<close> returns whether it returned \<open>C_OK\<close> and whether the client was freed. The
  second result is \<open>C_OK\<close>.
\<close>

type_synonym 's processor = "'s \<Rightarrow> client \<Rightarrow> 's \<times> client \<times> bool \<times> bool"

definition processCommandAndResetClient :: "'s processor \<Rightarrow> 's \<Rightarrow> client \<Rightarrow> ('s \<times> client \<times> bool) option" where
  "processCommandAndResetClient processCommand s c =
     do {
       let (s, c, ok, deadclient) = processCommand s c;
       c \<leftarrow> (if ok then commandProcessed c else Some c);
       Some (s, c, \<not> deadclient)
     }"

definition request_type :: "client \<Rightarrow> client option" where
  "request_type c =
     (if reqtype c = PROTO_REQ_NONE then do {
        b \<leftarrow> rd (querybuf c) (qb_pos c);
        Some (c\<lparr>reqtype := if b = ch (CHR ''*'') then PROTO_REQ_MULTIBULK else PROTO_REQ_INLINE\<rparr>)
      }
      else Some c)"

text \<open>The loop of \<open>processInputBuffer\<close>; the last result is \<open>False\<close> when the client was freed.\<close>

partial_function (option) input_loop :: "server \<Rightarrow> 's processor \<Rightarrow> 's \<Rightarrow> client \<Rightarrow> ('s \<times> client \<times> bool) option" where
  "input_loop srv processCommand s c =
     (if \<not> qb_pos c < length (querybuf c) then Some (s, c, True)
      else if CLIENT_BLOCKED \<in> flags c then Some (s, c, True)
      else if CLIENT_PENDING_COMMAND \<in> flags c then Some (s, c, True)
      else if yielding_command srv \<and> CLIENT_MASTER \<in> flags c then Some (s, c, True)
      else if CLIENT_CLOSE_AFTER_REPLY \<in> flags c \<or> CLIENT_CLOSE_ASAP \<in> flags c then Some (s, c, True)
      else do {
        c \<leftarrow> request_type c;
        (ok, c) \<leftarrow>
          (case reqtype c of
             PROTO_REQ_INLINE \<Rightarrow> processInlineBuffer srv c
           | PROTO_REQ_MULTIBULK \<Rightarrow> processMultibulkBuffer srv c
           | PROTO_REQ_NONE \<Rightarrow> None);
        if \<not> ok then Some (s, c, True)
        else if argv c = [] then input_loop srv processCommand s (resetClient c)
        else if \<not> io_threads_idle srv then Some (s, c\<lparr>flags := insert CLIENT_PENDING_COMMAND (flags c)\<rparr>, True)
        else do {
          (s, c, alive) \<leftarrow> processCommandAndResetClient processCommand s c;
          if \<not> alive then Some (s, c, False) else input_loop srv processCommand s c
        }
      })"

definition trim_querybuf :: "client \<Rightarrow> client option" where
  "trim_querybuf c =
     (if CLIENT_MASTER \<in> flags c then
        if repl_applied c \<noteq> 0 then
          if qb_pos c < repl_applied c then None
          else Some (c\<lparr>querybuf := drop (repl_applied c) (querybuf c), qb_pos := qb_pos c - repl_applied c, repl_applied := 0\<rparr>)
        else Some c
      else if qb_pos c \<noteq> 0 then Some (c\<lparr>querybuf := drop (qb_pos c) (querybuf c), qb_pos := 0\<rparr>)
      else Some c)"

definition processInputBuffer :: "server \<Rightarrow> 's processor \<Rightarrow> 's \<Rightarrow> client \<Rightarrow> ('s \<times> client \<times> bool) option" where
  "processInputBuffer srv processCommand s c =
     do {
       (s, c, alive) \<leftarrow> input_loop srv processCommand s c;
       if \<not> alive then Some (s, c, False)
       else do { c \<leftarrow> trim_querybuf c; Some (s, c, True) }
     }"

text \<open>
  What the socket delivers. How many bytes are asked for is left open: the reads may be of any
  size.
\<close>

datatype conn_read = READ_AGAIN | READ_FAILED | READ_EOF | READ_DATA buffer

fun readQueryFromClient :: "server \<Rightarrow> 's processor \<Rightarrow> conn_read \<Rightarrow> 's \<Rightarrow> client \<Rightarrow> ('s \<times> client \<times> bool) option" where
  "readQueryFromClient srv processCommand READ_AGAIN s c = Some (s, c, True)"
| "readQueryFromClient srv processCommand READ_FAILED s c = Some (s, freeClientAsync c, True)"
| "readQueryFromClient srv processCommand READ_EOF s c = Some (s, freeClientAsync c, True)"
| "readQueryFromClient srv processCommand (READ_DATA data) s c =
     (let c = c\<lparr>querybuf := querybuf c @ data, lastinteraction := unixtime srv\<rparr>;
          c = (if CLIENT_MASTER \<in> flags c then c\<lparr>read_reploff := read_reploff c + int (length data)\<rparr> else c)
      in if CLIENT_MASTER \<notin> flags c \<and> client_max_querybuf_len srv < length (querybuf c)
         then Some (s, freeClientAsync c, True)
         else processInputBuffer srv processCommand s c)"

end
