(* ===== verification/Redis_Resp_Proofs.thy ===== *)
theory Redis_Resp_Proofs
  imports Redis_Resp
begin

text \<open>
  The request parser on two kinds of input: encoded requests, which are run exactly once, in order and
  as soon as they are complete, however they are cut into reads; and arbitrary bytes, on which every
  access stays within its array and no assertion fails.
\<close>

section \<open>Requests and their encodings\<close>

datatype request = RESP "buffer list" | INLINE "buffer list"

fun args :: "request \<Rightarrow> buffer list" where
  "args (RESP as) = as"
| "args (INLINE as) = as"

definition bulk :: "buffer \<Rightarrow> buffer" where
  "bulk a = ch (CHR ''$'') # dec (length a) @ [13, 10] @ a @ [13, 10]"

fun encode :: "request \<Rightarrow> buffer" where
  "encode (RESP as) = ch (CHR ''*'') # dec (length as) @ [13, 10] @ concat (map bulk as)"
| "encode (INLINE as) = repr_line as @ [13, 10]"

definition encode_all :: "request list \<Rightarrow> buffer" where
  "encode_all rs = concat (map encode rs)"

definition valid_bulk :: "server \<Rightarrow> bool \<Rightarrow> buffer \<Rightarrow> bool" where
  "valid_bulk srv master a \<longleftrightarrow> length a + 2 < 2 ^ 63 \<and> (\<not> master \<longrightarrow> int (length a) \<le> sint (proto_max_bulk_len srv)) \<and>
     (auth_needed srv \<longrightarrow> length a \<le> 16384)"

fun valid_request :: "server \<Rightarrow> bool \<Rightarrow> request \<Rightarrow> bool" where
  "valid_request srv master (RESP as) \<longleftrightarrow> as \<noteq> [] \<and> int (length as) \<le> INT_MAX \<and> (auth_needed srv \<longrightarrow> length as \<le> 10) \<and>
     list_all (valid_bulk srv master) as"
| "valid_request srv master (INLINE as) \<longleftrightarrow> \<not> master \<and> as \<noteq> [] \<and> length (repr_line as) < PROTO_INLINE_MAX_SIZE"

lemma encode_all_simps [simp]: "encode_all [] = []" "encode_all (r # rs) = encode r @ encode_all rs" "encode_all (rs @ ts) = encode_all rs @ encode_all ts"
  by (simp_all add: encode_all_def)

lemma encode_nonempty: "0 < length (encode r)" by (cases r) simp_all

section \<open>Lines\<close>

lemma strchr_None: "0 \<notin> set xs \<Longrightarrow> x \<notin> set xs \<Longrightarrow> strchr_pos xs x = None"
  by (induction xs) auto

lemma strchr_Some: "0 \<notin> set xs \<Longrightarrow> x \<notin> set xs \<Longrightarrow> strchr_pos (xs @ x # ys) x = Some (length xs)"
  by (induction xs) auto

lemma line_split:
  assumes "u @ fut = line @ [13, 10] @ X"
  shows "(\<exists>ys. line = u @ ys) \<or> u = line @ [13] \<and> fut = 10 # X \<or> (\<exists>u'. u = line @ [13, 10] @ u' \<and> u' @ fut = X)"
  using assms by (auto simp: append_eq_append_conv2 append_eq_Cons_conv Cons_eq_append_conv)

lemma dec_set: "0 \<notin> set (dec n)" "13 \<notin> set (dec n)" "10 \<notin> set (dec n)"
  using dec_digits [of n] by (auto simp: list_all_iff isdigit_def)

lemma of_nat_sint: "n < 2 ^ 63 \<Longrightarrow> sint (of_nat n :: u64) = int n"
  by (simp add: sint_uint uint_nat unat_of_nat take_bit_nat_eq_self signed_take_bit_eq_if_positive bit_iff_odd take_bit_int_eq_self)

lemma string2ll_dec: "n < 2 ^ 63 \<Longrightarrow> string2ll (dec n) = Some (of_nat n)"
  by (simp add: string2ll_dec_int of_nat_sint dec_int_def)

lemma length_dec_less: "n < 2 ^ 63 \<Longrightarrow> length (dec n) \<le> 20"
  using length_dec_u64 [of "of_nat n"] by (simp add: unat_of_nat take_bit_nat_eq_self)

lemma repr_byte_set: "0 \<notin> set (repr_byte c) \<and> 10 \<notin> set (repr_byte c)"
proof -
  have "\<not> is_hex_digit 0" "\<not> is_hex_digit 10" by (simp_all add: is_hex_digit_def)
  then have "hexdigit (c div 16) \<noteq> 0" "hexdigit (c mod 16) \<noteq> 0" "hexdigit (c div 16) \<noteq> 10" "hexdigit (c mod 16) \<noteq> 10"
    using hex_byte(2,3) [of c] by metis+
  then show ?thesis by (auto simp: repr_byte_def isprint_def)
qed

lemma repr_line_set: "0 \<notin> set (repr_line as)" "10 \<notin> set (repr_line as)"
  using repr_byte_set by (auto simp: repr_line_def sdscatrepr_def)

lemma repr_line_head: "as \<noteq> [] \<Longrightarrow> \<exists>xs. repr_line as = 34 # xs"
  by (cases as) (auto simp: repr_line_def sdscatrepr_def)

section \<open>Reading one multi bulk request\<close>

definition rest :: "client \<Rightarrow> buffer" where
  "rest c = drop (qb_pos c) (querybuf c)"

lemma unread_rest: "qb_pos c \<le> length (querybuf c) \<Longrightarrow> unread c = Some (rest c)"
  by (simp add: unread_def rest_def)

lemma length_rest: "length (rest c) = length (querybuf c) - qb_pos c" by (simp add: rest_def)

lemma find_line_ok:
  assumes "qb_pos c \<le> length (querybuf c)" and "rest c @ fut = line @ [13, 10] @ X"
    and "0 \<notin> set line" and "13 \<notin> set line" and "length line \<le> PROTO_INLINE_MAX_SIZE"
  obtains (wait) "find_line c = Some LINE_WAIT" "length X < length fut"
  | (got) u' where "find_line c = Some (LINE_AT (length line))" "rest c = line @ [13, 10] @ u'" "u' @ fut = X"
  using line_split [OF assms(2)]
proof (elim disjE exE conjE)
  fix ys assume l: "line = rest c @ ys"
  then have "strchr_pos (rest c) 13 = None" using assms(3,4) by (auto intro: strchr_None)
  moreover have "length (rest c) \<le> PROTO_INLINE_MAX_SIZE" using l assms(5) by simp
  ultimately have "find_line c = Some LINE_WAIT"
    using assms(1) by (simp add: find_line_def unread_rest length_rest)
  moreover have "fut = ys @ [13, 10] @ X" using assms(2) l by simp
  ultimately show ?thesis using wait by simp
next
  assume l: "rest c = line @ [13]" "fut = 10 # X"
  then have "strchr_pos (rest c) 13 = Some (length line)" using strchr_Some [of line 13 "[]"] assms(3,4) by simp
  then have "find_line c = Some LINE_WAIT"
    using assms(1) l length_rest [of c] by (simp add: find_line_def unread_rest)
  then show ?thesis using l wait by simp
next
  fix u' assume l: "rest c = line @ [13, 10] @ u'" "u' @ fut = X"
  then have "strchr_pos (rest c) 13 = Some (length line)" using strchr_Some [of line 13 "10 # u'"] assms(3,4) by simp
  then have "find_line c = Some (LINE_AT (length line))"
    using assms(1) l length_rest [of c] by (simp add: find_line_def unread_rest)
  then show ?thesis using l got by blast
qed

text \<open>What parsing leaves alone, and what it does not do to the buffer of a master.\<close>

definition same :: "client \<Rightarrow> client \<Rightarrow> bool" where
  "same c c' \<longleftrightarrow> flags c' = flags c \<and> replies c' = replies c \<and> reploff c' = reploff c \<and> read_reploff c' = read_reploff c \<and>
     repl_applied c' = repl_applied c \<and> repl_fed c' = repl_fed c \<and> cmd c' = cmd c \<and> length (querybuf c') \<le> length (querybuf c) \<and>
     (CLIENT_MASTER \<in> flags c \<longrightarrow> querybuf c' = querybuf c \<and> qb_pos c \<le> qb_pos c')"

lemma same_refl [simp]: "same c c" by (simp add: same_def)

lemma same_trans: "same c c' \<Longrightarrow> same c' c'' \<Longrightarrow> same c c''" by (auto simp: same_def)

lemma bulk_header_ok:
  assumes "qb_pos c \<le> length (querybuf c)" and "rest c @ fut = bulk a @ X" and v: "valid_bulk srv (CLIENT_MASTER \<in> flags c) a"
  obtains (wait) "bulk_header srv c = Some (BULK_WAIT c)" "length X < length fut"
  | (got) c' where "bulk_header srv c = Some (BULK_GO c')" "same c c'" "qb_pos c' \<le> length (querybuf c')"
      "rest c' @ fut = a @ [13, 10] @ X" "bulklen c' = of_nat (length a)" "argv c' = argv c" "argv_len c' = argv_len c"
      "multibulklen c' = multibulklen c" "reqtype c' = reqtype c"
proof -
  let ?line = "ch (CHR ''$'') # dec (length a)"
  have l: "length a < 2 ^ 63" using v by (simp add: valid_bulk_def)
  have eq: "rest c @ fut = ?line @ [13, 10] @ a @ [13, 10] @ X" using assms(2) by (simp add: bulk_def)
  have set: "0 \<notin> set ?line" "13 \<notin> set ?line" using dec_set [of "length a"] by auto
  have len: "length ?line \<le> PROTO_INLINE_MAX_SIZE" using length_dec_less [OF l] by (simp add: PROTO_INLINE_MAX_SIZE_def)
  show ?thesis
    using assms(1) eq set len
  proof (cases rule: find_line_ok)
    case wait: wait
    then show ?thesis using that(1) by (simp add: bulk_header_def)
  next
    case (got u')
    let ?n = "of_nat (length a) :: u64"
    have n: "sint ?n = int (length a)" "unat ?n = length a" using l by (simp_all add: of_nat_sint unat_of_nat take_bit_nat_eq_self)
    define c1 where "c1 = c\<lparr>qb_pos := qb_pos c + length ?line + 2\<rparr>"
    define c2 where "c2 = (if CLIENT_MASTER \<notin> flags c1 \<and> PROTO_MBULK_BIG_ARG \<le> unat ?n \<and>
      length (querybuf c1) - qb_pos c1 \<le> unat (?n + 2) then c1\<lparr>querybuf := drop (qb_pos c1) (querybuf c1), qb_pos := 0\<rparr> else c1)"
    have u: "string2ll (take (length (dec (length a))) (drop 1 (rest c))) = Some ?n"
      using got(2) l by (simp add: string2ll_dec)
    have fl: "\<not> ?n <s 0" "\<not> (CLIENT_MASTER \<notin> flags c \<and> proto_max_bulk_len srv <s ?n)" "\<not> (16384 <s ?n \<and> auth_needed srv)"
      using v n(1) by (auto simp: word_sless_alt valid_bulk_def not_less)
    have "bulk_header srv c = Some (BULK_GO (c2\<lparr>bulklen := ?n\<rparr>))"
      using got(1,2) u fl unfolding bulk_header_def unread_rest [OF assms(1)] c2_def c1_def Let_def
      by (simp add: rd_def)
    moreover have "length (rest c) = length ?line + 2 + length u'" using got(2) by simp
    then have q: "qb_pos c1 \<le> length (querybuf c1)" using assms(1) by (simp add: c1_def length_rest)
    moreover have "rest c1 = u'"
    proof -
      have "rest c1 = drop (length ?line + 2) (rest c)" by (simp add: c1_def rest_def add.commute)
      then show ?thesis using got(2) by simp
    qed
    then have "rest c2 = u'" "qb_pos c2 \<le> length (querybuf c2)" "same c c2" "argv c2 = argv c" "argv_len c2 = argv_len c"
        "multibulklen c2 = multibulklen c" "reqtype c2 = reqtype c"
      using q by (auto simp: c2_def rest_def same_def c1_def)
    ultimately show ?thesis using that(2) [of "c2\<lparr>bulklen := ?n\<rparr>"] got(3) by (auto simp: rest_def same_def)
  qed
qed

text \<open>The argument array has room for what it holds, and the rest of the request can be counted.\<close>

definition slots :: "client \<Rightarrow> nat \<Rightarrow> bool" where
  "slots c n \<longleftrightarrow> multibulklen c = int n \<and> int (length (argv c)) \<le> argv_len c \<and> 0 < argv_len c \<and> int (length (argv c) + n) \<le> INT_MAX"

lemma grow_argv_ok:
  assumes "slots c (Suc n)"
  shows "\<exists>k. grow_argv c = c\<lparr>argv_len := k\<rparr> \<and> int (length (argv c)) < k"
proof (cases "argv_len c \<le> int (length (argv c))")
  case True
  then show ?thesis using assms by (intro exI [of _ "argv_len (grow_argv c)"]) (auto simp: grow_argv_def slots_def)
next
  case False
  then show ?thesis by (intro exI [of _ "argv_len c"]) (auto simp: grow_argv_def)
qed

lemma bulk_body_ok:
  assumes q: "qb_pos c \<le> length (querybuf c)" and eq: "rest c @ fut = a @ [13, 10] @ X" and b: "bulklen c = of_nat (length a)"
    and l: "length a + 2 < 2 ^ 63" and s: "slots c (Suc n)"
  obtains (wait) "bulk_body c = Some (BULK_WAIT c)" "length X < length fut"
  | (got) c' where "bulk_body c = Some (BULK_GO c')" "same c c'" "qb_pos c' \<le> length (querybuf c')"
      "rest c' @ fut = X" "bulklen c' = - 1" "argv c' = argv c @ [a]" "slots c' n" "reqtype c' = reqtype c"
proof -
  have un: "unat (bulklen c) = length a" "unat (bulklen c + 2) = length a + 2"
  proof -
    have "bulklen c + 2 = of_nat (length a + 2)" by (simp add: b)
    then show "unat (bulklen c) = length a" "unat (bulklen c + 2) = length a + 2"
      using l by (simp_all only: b unat_of_nat) (simp_all add: take_bit_nat_eq_self)
  qed
  show ?thesis
  proof (cases "length (rest c) < length a + 2")
    case True
    moreover from this have "length X < length fut" using arg_cong [OF eq, of length] by simp
    ultimately show ?thesis using that(1) un by (simp add: bulk_body_def length_rest)
  next
    case False
    define u' where "u' = drop (length a + 2) (rest c)"
    have "take (length a + 2) (rest c) = take (length a + 2) (rest c @ fut)" using False by simp
    also have "\<dots> = a @ [13, 10]" by (simp add: eq)
    finally have r: "rest c = a @ [13, 10] @ u'" unfolding u'_def by (metis append.assoc append_take_drop_id)
    have X: "u' @ fut = X" using eq r by simp
    obtain k where k: "grow_argv c = c\<lparr>argv_len := k\<rparr>" "int (length (argv c)) < k" using grow_argv_ok [OF s] by blast
    have len: "length (querybuf c) = qb_pos c + length a + 2 + length u'"
      using arg_cong [OF r, of length] q by (simp add: length_rest)
    show ?thesis
    proof (cases "CLIENT_MASTER \<notin> flags c \<and> qb_pos c = 0 \<and> PROTO_MBULK_BIG_ARG \<le> length a \<and> length (querybuf c) = length a + 2")
      case True
      define c' where "c' = c\<lparr>argv_len := k, argv := argv c @ [take (length (querybuf c) - 2) (querybuf c)],
            argv_len_sum := argv_len_sum c + bulklen c, querybuf := [], bulklen := - 1, multibulklen := multibulklen c - 1\<rparr>"
      have "bulk_body c = Some (BULK_GO c')"
        using True False k un by (simp add: bulk_body_def length_rest Let_def c'_def)
      moreover have "u' = []" "take (length (querybuf c) - 2) (querybuf c) = a" using len True r by (auto simp: rest_def)
      ultimately show ?thesis
        using that(2) [of c'] True s k(2) X by (auto simp: c'_def same_def rest_def slots_def)
    next
      case nb: False
      define c' where "c' = c\<lparr>argv_len := k, argv := argv c @ [a], argv_len_sum := argv_len_sum c + bulklen c,
            qb_pos := qb_pos c + (length a + 2), bulklen := - 1, multibulklen := multibulklen c - 1\<rparr>"
      have "rest (c\<lparr>argv_len := k\<rparr>) = rest c" "qb_pos (c\<lparr>argv_len := k\<rparr>) \<le> length (querybuf (c\<lparr>argv_len := k\<rparr>))" using q by (simp_all add: rest_def)
      then have "unread (c\<lparr>argv_len := k\<rparr>) = Some (a @ [13, 10] @ u')" using r by (metis unread_rest)
      then have "bulk_body c = Some (BULK_GO c')"
        using nb False k un by (auto simp: bulk_body_def length_rest Let_def c'_def rdn_def)
      moreover have "rest c' = u'"
      proof -
        have "rest c' = drop (length a + 2) (rest c)" by (simp add: c'_def rest_def add.commute)
        then show ?thesis using r by simp
      qed
      ultimately show ?thesis
        using that(2) [of c'] s k(2) X len by (auto simp: c'_def same_def slots_def)
    qed
  qed
qed

text \<open>A client in the middle of a request: \<open>as\<close> are the arguments still to read.\<close>

definition reading :: "server \<Rightarrow> client \<Rightarrow> buffer list \<Rightarrow> buffer \<Rightarrow> buffer \<Rightarrow> bool" where
  "reading srv c as X fut \<longleftrightarrow> qb_pos c \<le> length (querybuf c) \<and> reqtype c = PROTO_REQ_MULTIBULK \<and> slots c (length as) \<and>
     list_all (valid_bulk srv (CLIENT_MASTER \<in> flags c)) as \<and>
     (bulklen c = - 1 \<and> rest c @ fut = concat (map bulk as) @ X \<or>
      (\<exists>a as'. as = a # as' \<and> bulklen c = of_nat (length a) \<and> rest c @ fut = a @ [13, 10] @ concat (map bulk as') @ X))"

lemma bulk_argument_ok:
  assumes "reading srv c (a # as) X fut"
  obtains (wait) c' where "bulk_argument srv c = Some (BULK_WAIT c')" "same c c'" "reading srv c' (a # as) X fut" "argv c' = argv c" "length X < length fut"
  | (got) c' where "bulk_argument srv c = Some (BULK_GO c')" "same c c'" "reading srv c' as X fut" "argv c' = argv c @ [a]" "bulklen c' = - 1"
proof -
  note stop = that(1) and go = that(2)
  have q: "qb_pos c \<le> length (querybuf c)" "reqtype c = PROTO_REQ_MULTIBULK" "slots c (Suc (length as))"
      "valid_bulk srv (CLIENT_MASTER \<in> flags c) a" "list_all (valid_bulk srv (CLIENT_MASTER \<in> flags c)) as"
    using assms by (auto simp: reading_def)
  let ?Y = "concat (map bulk as) @ X"
  have l: "length a + 2 < 2 ^ 63" using q(4) by (simp add: valid_bulk_def)
  have body: thesis
    if h: "bulk_argument srv c = bulk_body c1" "same c c1" "qb_pos c1 \<le> length (querybuf c1)" "rest c1 @ fut = a @ [13, 10] @ ?Y"
      "bulklen c1 = of_nat (length a)" "argv c1 = argv c" "slots c1 (Suc (length as))" "reqtype c1 = PROTO_REQ_MULTIBULK" for c1
    using h(3-5) l h(7)
  proof (cases rule: bulk_body_ok)
    case ok: wait
    have "reading srv c1 (a # as) X fut" using h q by (auto simp: reading_def same_def)
    then show ?thesis using stop [of c1] h(1,2,6) ok by auto
  next
    case (got c')
    then have "same c c'" using h(2) same_trans by blast
    moreover have "reading srv c' as X fut" using got h q by (auto simp: reading_def same_def)
    ultimately show ?thesis using go [of c'] h(1,6) got by simp
  qed
  have "sint (of_nat (length a) :: u64) = int (length a)" using l by (simp add: of_nat_sint)
  moreover have "sint (- 1 :: u64) = - 1" by simp
  ultimately have nz: "(of_nat (length a) :: u64) \<noteq> - 1" by (metis int_eq_iff int_one_le_iff_zero_less neg_0_le_iff_le not_one_le_zero)
  show ?thesis
  proof (cases "bulklen c = - 1")
    case True
    then have eq: "rest c @ fut = bulk a @ ?Y" using assms nz by (auto simp: reading_def)
    show ?thesis
      using q(1) eq q(4)
    proof (cases rule: bulk_header_ok)
      case ok: wait
      then show ?thesis using stop [of c] True assms by (simp add: bulk_argument_def)
    next
      case (got c1)
      have "slots c1 (Suc (length as))" using got q(3) by (simp add: slots_def)
      then show ?thesis using body [of c1] True got q(2) by (simp add: bulk_argument_def)
    qed
  next
    case False
    then have "bulklen c = of_nat (length a)" "rest c @ fut = a @ [13, 10] @ ?Y" using assms by (auto simp: reading_def)
    then show ?thesis using body [of c] False q by (simp add: bulk_argument_def)
  qed
qed

lemma bulk_loop_ok:
  assumes "reading srv c as X fut"
  shows "(\<exists>c' bs cs. bulk_loop (length as) srv c = Some (False, c') \<and> same c c' \<and> as = bs @ cs \<and> cs \<noteq> [] \<and> reading srv c' cs X fut \<and>
      argv c' = argv c @ bs \<and> length X < length fut) \<or>
    (\<exists>c'. bulk_loop (length as) srv c = Some (True, c') \<and> same c c' \<and> argv c' = argv c @ as \<and> rest c' @ fut = X \<and>
      qb_pos c' \<le> length (querybuf c'))"
  using assms
proof (induction as arbitrary: c)
  case Nil
  then show ?case by (auto simp: reading_def)
next
  case (Cons a as)
  show ?case
    using Cons.prems
  proof (cases rule: bulk_argument_ok)
    case (wait c')
    then show ?thesis by (intro disjI1 exI [of _ c'] exI [of _ "[]"] exI [of _ "a # as"]) simp
  next
    case (got c')
    from Cons.IH [OF got(3)] show ?thesis
    proof (elim disjE exE conjE)
      fix c'' bs cs
      assume "bulk_loop (length as) srv c' = Some (False, c'')" "same c' c''" "as = bs @ cs" "cs \<noteq> []" "reading srv c'' cs X fut"
        "argv c'' = argv c' @ bs" "length X < length fut"
      then show ?thesis using got same_trans [OF got(2)] by (intro disjI1 exI [of _ c''] exI [of _ "a # bs"] exI [of _ cs]) simp
    next
      fix c''
      assume "bulk_loop (length as) srv c' = Some (True, c'')" "same c' c''" "argv c'' = argv c' @ as" "rest c'' @ fut = X"
        "qb_pos c'' \<le> length (querybuf c'')"
      then show ?thesis using got same_trans [OF got(2)] by (intro disjI2 exI [of _ c'']) simp
    qed
  qed
qed

section \<open>Between and inside requests\<close>

fun req_kind :: "request \<Rightarrow> proto_req" where
  "req_kind (RESP _) = PROTO_REQ_MULTIBULK"
| "req_kind (INLINE _) = PROTO_REQ_INLINE"

text \<open>
  \<open>rs\<close> are the requests that were not completed yet, the first one partly read; \<open>fut\<close> are the bytes that
  were not received yet.
\<close>

definition idle :: "client \<Rightarrow> request list \<Rightarrow> buffer \<Rightarrow> bool" where
  "idle c rs fut \<longleftrightarrow> multibulklen c = 0 \<and> bulklen c = - 1 \<and> argv c = [] \<and> qb_pos c \<le> length (querybuf c) \<and>
     rest c @ fut = encode_all rs \<and> (reqtype c = PROTO_REQ_NONE \<or> (\<exists>r rs'. rs = r # rs' \<and> reqtype c = req_kind r))"

definition waiting :: "server \<Rightarrow> client \<Rightarrow> request list \<Rightarrow> buffer \<Rightarrow> bool" where
  "waiting srv c rs fut \<longleftrightarrow> idle c rs fut \<or>
     (\<exists>as rs'. rs = RESP (argv c @ as) # rs' \<and> as \<noteq> [] \<and> reading srv c as (encode_all rs') fut)"

text \<open>A request that cannot be completed with the bytes received.\<close>

definition starved :: "request list \<Rightarrow> buffer \<Rightarrow> bool" where
  "starved rs fut \<longleftrightarrow> (\<forall>r rs'. rs = r # rs' \<longrightarrow> length (encode_all rs') < length fut)"

lemma waiting_bounds: "waiting srv c rs fut \<Longrightarrow> qb_pos c \<le> length (querybuf c)"
  by (auto simp: waiting_def idle_def reading_def)

lemma waiting_starved:
  assumes "waiting srv c rs fut" and "rest c = []"
  shows "starved rs fut"
proof -
  have "length X < length fut" if "reading srv c as X fut" "as \<noteq> []" for as X
    using that assms(2) by (cases as) (auto simp: reading_def bulk_def)
  then show ?thesis using assms encode_nonempty by (auto simp: waiting_def idle_def starved_def)
qed

lemma multibulk_header_ok:
  assumes "idle c (RESP as # rs) fut" and "valid_request srv (CLIENT_MASTER \<in> flags c) (RESP as)"
    and t: "reqtype c = PROTO_REQ_MULTIBULK"
  obtains (wait) "multibulk_header srv c = Some (Inl (False, c))" "starved (RESP as # rs) fut"
  | (got) c' where "multibulk_header srv c = Some (Inr c')" "same c c'" "argv c' = []" "multibulklen c' = int (length as)"
     "reading srv c' as (encode_all rs) fut"
proof -
  let ?line = "ch (CHR ''*'') # dec (length as)" and ?X = "concat (map bulk as) @ encode_all rs"
  have c: "argv c = []" "qb_pos c \<le> length (querybuf c)" "rest c @ fut = ?line @ [13, 10] @ ?X" "bulklen c = - 1"
    using assms(1) by (auto simp: idle_def)
  have v: "as \<noteq> []" "int (length as) \<le> INT_MAX" "auth_needed srv \<longrightarrow> length as \<le> 10" "list_all (valid_bulk srv (CLIENT_MASTER \<in> flags c)) as"
    using assms(2) by auto
  then have l: "length as < 2 ^ 63" by simp
  have set: "0 \<notin> set ?line" "13 \<notin> set ?line" using dec_set [of "length as"] by auto
  have len: "length ?line \<le> PROTO_INLINE_MAX_SIZE" using length_dec_less [OF l] by (simp add: PROTO_INLINE_MAX_SIZE_def)
  show ?thesis
    using c(2,3) set len
  proof (cases rule: find_line_ok)
    case wait: wait
    then show ?thesis using that(1) c(1) by (simp add: multibulk_header_def starved_def)
  next
    case (got u')
    let ?n = "of_nat (length as) :: u64"
    define c' where "c' = c\<lparr>qb_pos := qb_pos c + length ?line + 2, multibulklen := int (length as), argv_len := min (int (length as)) 1024, argv_len_sum := 0\<rparr>"
    have n: "sint ?n = int (length as)" using l by (simp add: of_nat_sint)
    have u: "string2ll (take (length (dec (length as))) (drop 1 (rest c))) = Some ?n"
      using got(2) l by (simp add: string2ll_dec)
    have "multibulk_header srv c = Some (Inr c')"
      using got(1,2) u c(1) n v(1-3) unfolding multibulk_header_def unread_rest [OF c(2)] c'_def
      by (auto simp: rd_def Let_def not_less)
    moreover have "rest c' = u'"
    proof -
      have "rest c' = drop (length ?line + 2) (rest c)" by (simp add: c'_def rest_def add.commute)
      then show ?thesis using got(2) by simp
    qed
    moreover have "qb_pos c' \<le> length (querybuf c')"
      using c(2) arg_cong [OF got(2), of length] by (simp add: c'_def length_rest)
    ultimately show ?thesis
      using that(2) [of c'] c v got(3) t by (auto simp: c'_def same_def reading_def slots_def)
  qed
qed

lemma multibulk_ok:
  assumes "waiting srv c (RESP as # rs) fut" and "valid_request srv (CLIENT_MASTER \<in> flags c) (RESP as)"
    and "reqtype c = PROTO_REQ_MULTIBULK"
  obtains (wait) c' where "processMultibulkBuffer srv c = Some (False, c')" "same c c'" "waiting srv c' (RESP as # rs) fut" "starved (RESP as # rs) fut"
  | (got) c' where "processMultibulkBuffer srv c = Some (True, c')" "same c c'" "argv c' = as" "rest c' @ fut = encode_all rs" "qb_pos c' \<le> length (querybuf c')"
proof -
  note stop = that(1) and go = that(2)
  have loop: thesis
    if h: "processMultibulkBuffer srv c = bulk_loop (length bs) srv c1" "same c c1" "reading srv c1 bs (encode_all rs) fut" "as = argv c1 @ bs" for c1 bs
    using bulk_loop_ok [OF h(3)]
  proof (elim disjE exE conjE)
    fix c' cs ds
    assume r: "bulk_loop (length bs) srv c1 = Some (False, c')" "same c1 c'" "bs = cs @ ds" "ds \<noteq> []" "reading srv c' ds (encode_all rs) fut"
      "argv c' = argv c1 @ cs" "length (encode_all rs) < length fut"
    then have "waiting srv c' (RESP as # rs) fut" using h(4) by (auto simp: waiting_def)
    then show ?thesis using stop r h(1) same_trans [OF h(2) r(2)] by (simp add: starved_def)
  next
    fix c'
    assume r: "bulk_loop (length bs) srv c1 = Some (True, c')" "same c1 c'" "argv c' = argv c1 @ bs" "rest c' @ fut = encode_all rs"
      "qb_pos c' \<le> length (querybuf c')"
    then show ?thesis using go h(1,4) same_trans [OF h(2) r(2)] by simp
  qed
  show ?thesis
  proof (cases "idle c (RESP as # rs) fut")
    case True
    show ?thesis
      using True assms(2,3)
    proof (cases rule: multibulk_header_ok)
      case wait
      then show ?thesis using stop [of c] True assms(1) by (simp add: processMultibulkBuffer_def idle_def)
    next
      case (got c1)
      then show ?thesis using loop [of as c1] True assms(2) by (simp add: processMultibulkBuffer_def idle_def)
    qed
  next
    case False
    then obtain bs where bs: "as = argv c @ bs" "bs \<noteq> []" "reading srv c bs (encode_all rs) fut"
      using assms(1) by (auto simp: waiting_def)
    then have "multibulklen c = int (length bs)" by (simp add: reading_def slots_def)
    then show ?thesis using loop [of bs c] bs by (simp add: processMultibulkBuffer_def)
  qed
qed

lemma inline_ok:
  assumes "idle c (INLINE as # rs) fut" and "valid_request srv (CLIENT_MASTER \<in> flags c) (INLINE as)"
  obtains (wait) "processInlineBuffer srv c = Some (False, c)" "starved (INLINE as # rs) fut"
  | (got) c' where "processInlineBuffer srv c = Some (True, c')" "same c c'" "argv c' = as" "rest c' @ fut = encode_all rs" "qb_pos c' \<le> length (querybuf c')"
proof -
  note halt = that(1)
  let ?line = "repr_line as"
  have c: "qb_pos c \<le> length (querybuf c)" "rest c @ fut = ?line @ [13, 10] @ encode_all rs"
    using assms(1) by (auto simp: idle_def)
  have v: "CLIENT_MASTER \<notin> flags c" "as \<noteq> []" "length ?line < PROTO_INLINE_MAX_SIZE" using assms(2) by auto
  have stop: thesis if "0 \<notin> set (rest c)" "10 \<notin> set (rest c)" "length (rest c) \<le> PROTO_INLINE_MAX_SIZE" "length (encode_all rs) < length fut"
    using that(3,4) strchr_None [OF that(1,2)] halt
    by (simp add: processInlineBuffer_def unread_rest [OF c(1)] starved_def length_rest)
  from line_split [OF c(2)] show ?thesis
  proof (elim disjE exE conjE)
    fix ys assume l: "?line = rest c @ ys"
    have "fut = ys @ [13, 10] @ encode_all rs" using c(2) l by simp
    then show ?thesis using repr_line_set [of as] v(3) unfolding l by (intro stop) auto
  next
    assume l: "rest c = ?line @ [13]" "fut = 10 # encode_all rs"
    show ?thesis using repr_line_set [of as] v(3) by (intro stop) (auto simp: l)
  next
    fix u' assume l: "rest c = ?line @ [13, 10] @ u'" "u' @ fut = encode_all rs"
    have s: "strchr_pos (rest c) 10 = Some (Suc (length ?line))"
      using strchr_Some [of "?line @ [13]" 10 u'] repr_line_set [of as] by (simp add: l)
    obtain x xs where x: "?line = x # xs" using repr_line_head [OF v(2)] by blast
    have p: "sdssplitargs ?line = Some as" by (simp add: sdssplitargs_def splitargs_repr)
    define c' where "c' = c\<lparr>qb_pos := qb_pos c + length ?line + 2, argv_len := int (length as),
      argv := as, argv_len_sum := of_nat (sum_list (map length as))\<rparr>"
    have "processInlineBuffer srv c = Some (True, c')"
      using v s p l(1) x by (simp add: processInlineBuffer_def unread_rest [OF c(1)] nth_append c'_def Let_def inline_args_def)
    moreover have "rest c' = drop (length ?line + 2) (rest c)" by (simp add: c'_def rest_def add.commute)
    then have "rest c' = u'" using l by simp
    moreover have "qb_pos c' \<le> length (querybuf c')"
      using c(1) arg_cong [OF l(1), of length] by (simp add: c'_def length_rest)
    ultimately show ?thesis using that(2) [of c'] l(2) v(1) by (simp add: c'_def same_def)
  qed
qed

section \<open>The input loop\<close>

text \<open>A command that leaves the connection alone; \<open>exec\<close> is its effect on the state of the server.\<close>

definition run_cmd :: "(buffer list \<Rightarrow> 's \<Rightarrow> 's) \<Rightarrow> 's processor" where
  "run_cmd exec s c = (exec (argv c) s, c, True, False)"

text \<open>What a replica has passed on and applied of the stream of its master.\<close>

definition master_inv :: "client \<Rightarrow> request list \<Rightarrow> buffer \<Rightarrow> bool" where
  "master_inv c rs fut \<longleftrightarrow> (CLIENT_MASTER \<in> flags c \<longrightarrow> repl_applied c \<le> qb_pos c \<and>
     reploff c = read_reploff c - int (length (querybuf c)) + int (repl_applied c) \<and>
     drop (repl_applied c) (querybuf c) @ fut = encode_all rs)"

definition fed :: "client \<Rightarrow> client \<Rightarrow> request list \<Rightarrow> bool" where
  "fed c c' rs \<longleftrightarrow> flags c' = flags c \<and> replies c' = replies c \<and> length (querybuf c') \<le> length (querybuf c) \<and>
     repl_fed c' = repl_fed c @ (if CLIENT_MASTER \<in> flags c then encode_all rs else [])"

lemma fed_trans: "fed c c' rs \<Longrightarrow> fed c' c'' rs' \<Longrightarrow> fed c c'' (rs @ rs')"
  by (auto simp: fed_def)

lemma same_fed: "same c c' \<Longrightarrow> fed c c' []" by (auto simp: same_def fed_def)

lemma same_master: "same c c' \<Longrightarrow> master_inv c rs fut \<Longrightarrow> master_inv c' rs fut"
  by (auto simp: same_def master_inv_def)

lemma resetClient_eq:
  "flags c \<subseteq> {CLIENT_MASTER} \<Longrightarrow>
    resetClient c = c\<lparr>argv := [], cmd := None, argv_len_sum := 0, argv_len := 0, reqtype := PROTO_REQ_NONE, multibulklen := 0, bulklen := - 1\<rparr>"
proof -
  assume "flags c \<subseteq> {CLIENT_MASTER}"
  then have "flags c = {} \<or> flags c = {CLIENT_MASTER}" by auto
  then show ?thesis by (elim disjE) (simp_all add: resetClient_def freeClientArgv_def Let_def)
qed

lemma commandProcessed_ok:
  assumes fl: "flags c \<subseteq> {CLIENT_MASTER}" and q: "qb_pos c \<le> length (querybuf c)" and eq: "rest c @ fut = encode_all rs"
    and m: "master_inv c (r # rs) fut"
  shows "\<exists>c'. commandProcessed c = Some c' \<and> idle c' rs fut \<and> master_inv c' rs fut \<and> fed c c' [r]"
proof -
  note reset = resetClient_eq [OF fl]
  show ?thesis
  proof (cases "CLIENT_MASTER \<in> flags c")
    case True
    then have f: "flags c = {CLIENT_MASTER}" using fl by auto
    let ?ra = "repl_applied c"
    have ra: "?ra \<le> qb_pos c" "reploff c = read_reploff c - int (length (querybuf c)) + int ?ra"
        "drop ?ra (querybuf c) @ fut = encode r @ encode_all rs"
      using m True by (auto simp: master_inv_def)
    define xs where "xs = take (qb_pos c - ?ra) (drop ?ra (querybuf c))"
    have split: "drop ?ra (querybuf c) = xs @ rest c"
      unfolding xs_def rest_def using ra(1) by (metis append_take_drop_id drop_drop le_add_diff_inverse2)
    then have xs: "xs = encode r" using ra(3) eq by simp
    then have "0 < length xs" using encode_nonempty [of r] by simp
    then have pos: "?ra < qb_pos c" by (simp add: xs_def)
    have rdx: "rdn (querybuf c) ?ra (qb_pos c - ?ra) = Some xs" using q ra(1) by (simp add: rdn_def xs_def)
    define c' where "c' = (resetClient c)\<lparr>reploff := read_reploff c - int (length (querybuf c)) + int (qb_pos c),
      repl_fed := repl_fed c @ xs, repl_applied := qb_pos c\<rparr>"
    let ?d = "read_reploff c - int (length (querybuf c)) + int (qb_pos c) - reploff c"
    have diff: "?d = int (qb_pos c - ?ra)" "?d \<noteq> 0" "0 \<le> ?d" using ra(1,2) pos by simp_all
    have nd: "nat ?d = qb_pos c - ?ra" using diff(1) by (simp only: nat_int)
    have "commandProcessed c = Some c'"
      using f pos rdx ra(1) nd diff(2,3) by (simp add: commandProcessed_def reset c'_def Let_def not_less)
    moreover have "idle c' rs fut" "master_inv c' rs fut" "fed c c' [r]"
      using q eq xs by (simp_all add: c'_def reset idle_def master_inv_def fed_def rest_def f)
    ultimately show ?thesis by blast
  next
    case False
    then have f: "flags c = {}" using fl by auto
    then have "commandProcessed c = Some (resetClient c)" by (simp add: commandProcessed_def reset Let_def)
    moreover have "idle (resetClient c) rs fut" "master_inv (resetClient c) rs fut" "fed c (resetClient c) [r]"
      using q eq f by (simp_all add: reset idle_def master_inv_def fed_def rest_def)
    ultimately show ?thesis by blast
  qed
qed

lemma request_type_ok:
  assumes "waiting srv c (r # rs) fut" and "rest c \<noteq> []" and "valid_request srv m r"
  shows "\<exists>c'. request_type c = Some c' \<and> same c c' \<and> waiting srv c' (r # rs) fut \<and> reqtype c' = req_kind r"
proof (cases "reqtype c = PROTO_REQ_NONE")
  case False
  then have "reqtype c = req_kind r" using assms(1) by (auto simp: waiting_def idle_def reading_def)
  then show ?thesis using False assms(1) by (auto simp: request_type_def)
next
  case True
  then have i: "idle c (r # rs) fut" using assms(1) by (auto simp: waiting_def reading_def)
  then have q: "qb_pos c < length (querybuf c)" using assms(2) by (auto simp: idle_def rest_def)
  obtain y ys where y: "encode r = y # ys" "y = ch (CHR ''*'') \<longleftrightarrow> req_kind r = PROTO_REQ_MULTIBULK" "req_kind r \<noteq> PROTO_REQ_NONE"
    using assms(3) repr_line_head by (cases r) fastforce+
  have "hd (rest c @ fut) = y" using i y(1) by (simp add: idle_def)
  then have "querybuf c ! qb_pos c = y" using assms(2) q by (simp add: rest_def hd_drop_conv_nth)
  then have b: "rd (querybuf c) (qb_pos c) = Some y" using q by (simp add: rd_def)
  define c' where "c' = c\<lparr>reqtype := req_kind r\<rparr>"
  have "request_type c = Some c'" using True b y(2,3) by (cases "req_kind r") (auto simp: request_type_def c'_def)
  moreover have "same c c'" by (simp add: c'_def same_def)
  moreover have "idle c' (r # rs) fut" using i by (auto simp: c'_def idle_def rest_def)
  ultimately show ?thesis by (auto simp: waiting_def c'_def)
qed

lemma parse_ok:
  assumes "waiting srv c (r # rs) fut" and "valid_request srv (CLIENT_MASTER \<in> flags c) r" and "reqtype c = req_kind r"
  obtains (wait) c' where "(case reqtype c of PROTO_REQ_INLINE \<Rightarrow> processInlineBuffer srv c
      | PROTO_REQ_MULTIBULK \<Rightarrow> processMultibulkBuffer srv c | PROTO_REQ_NONE \<Rightarrow> None) = Some (False, c')"
      "same c c'" "waiting srv c' (r # rs) fut" "starved (r # rs) fut"
  | (got) c' where "(case reqtype c of PROTO_REQ_INLINE \<Rightarrow> processInlineBuffer srv c
      | PROTO_REQ_MULTIBULK \<Rightarrow> processMultibulkBuffer srv c | PROTO_REQ_NONE \<Rightarrow> None) = Some (True, c')"
      "same c c'" "argv c' = args r" "rest c' @ fut = encode_all rs" "qb_pos c' \<le> length (querybuf c')"
proof (cases r)
  case (RESP as)
  show ?thesis
    using assms(1,2,3) unfolding RESP req_kind.simps
  proof (cases rule: multibulk_ok)
    case (wait c')
    then show ?thesis using that(1) [of c'] assms(3) RESP by simp
  next
    case (got c')
    then show ?thesis using that(2) [of c'] assms(3) RESP by simp
  qed
next
  case (INLINE as)
  then have "idle c (INLINE as # rs) fut" using assms(1) by (auto simp: waiting_def)
  then show ?thesis
    using assms(2) unfolding INLINE
  proof (cases rule: inline_ok)
    case wait
    then show ?thesis using that(1) [of c] assms(1,3) INLINE by simp
  next
    case (got c')
    then show ?thesis using that(2) [of c'] assms(3) INLINE by simp
  qed
qed

text \<open>The settings under which commands are run as they come.\<close>

definition ready :: "server \<Rightarrow> client \<Rightarrow> bool" where
  "ready srv c \<longleftrightarrow> flags c \<subseteq> {CLIENT_MASTER} \<and> io_threads_idle srv \<and> \<not> yielding_command srv"

lemma valid_args: "valid_request srv m r \<Longrightarrow> args r \<noteq> []" by (cases r) auto

lemma input_loop_ok:
  assumes "waiting srv c rs fut" and "list_all (valid_request srv (CLIENT_MASTER \<in> flags c)) rs" and "ready srv c" and "master_inv c rs fut"
  shows "\<exists>c' n. input_loop srv (run_cmd exec) s c = Some (fold exec (map args (take n rs)) s, c', True) \<and> n \<le> length rs \<and>
    waiting srv c' (drop n rs) fut \<and> starved (drop n rs) fut \<and> master_inv c' (drop n rs) fut \<and> fed c c' (take n rs)"
  using assms
proof (induction rs arbitrary: s c)
  case Nil
  then have "rest c = []" by (auto simp: waiting_def idle_def)
  then have "input_loop srv (run_cmd exec) s c = Some (s, c, True)"
    by (subst input_loop.simps) (simp add: rest_def)
  then show ?case using Nil same_fed [of c c] by (auto simp: starved_def)
next
  case (Cons r rs)
  have fl: "flags c \<subseteq> {CLIENT_MASTER}" "io_threads_idle srv" "\<not> yielding_command srv" using Cons.prems(3) by (auto simp: ready_def)
  have v: "valid_request srv (CLIENT_MASTER \<in> flags c) r" using Cons.prems(2) by simp
  show ?case
  proof (cases "rest c = []")
    case True
    then have "input_loop srv (run_cmd exec) s c = Some (s, c, True)"
      by (subst input_loop.simps) (simp add: rest_def)
    then show ?thesis using Cons.prems waiting_starved [OF Cons.prems(1) True] same_fed [of c c]
      by (intro exI [of _ c] exI [of _ "0"]) simp
  next
    case False
    obtain c1 where c1: "request_type c = Some c1" "same c c1" "waiting srv c1 (r # rs) fut" "reqtype c1 = req_kind r"
      using request_type_ok [OF Cons.prems(1) False v] by blast
    have q: "qb_pos c < length (querybuf c)" using False by (simp add: rest_def)
    have fl1: "flags c1 = flags c" using c1(2) by (simp add: same_def)
    show ?thesis
      using c1(3) v [folded fl1] c1(4)
    proof (cases rule: parse_ok)
      case (wait c2)
      have "input_loop srv (run_cmd exec) s c = Some (s, c2, True)"
        using q fl c1(1) wait(1) by (subst input_loop.simps) auto
      moreover have "same c c2" using same_trans [OF c1(2) wait(2)] .
      ultimately show ?thesis using wait(3,4) same_master [OF _ Cons.prems(4)] same_fed
        by (intro exI [of _ c2] exI [of _ "0"]) simp
    next
      case (got c2)
      have s2: "same c c2" using same_trans [OF c1(2) got(2)] .
      then have f2: "flags c2 = flags c" by (simp add: same_def)
      have m2: "master_inv c2 (r # rs) fut" using same_master [OF s2 Cons.prems(4)] .
      obtain c3 where c3: "commandProcessed c2 = Some c3" "idle c3 rs fut" "master_inv c3 rs fut" "fed c2 c3 [r]"
        using commandProcessed_ok [OF _ got(5,4) m2] fl(1) f2 by auto
      have f3: "fed c c3 [r]" using fed_trans [OF same_fed [OF s2] c3(4)] by simp
      then have "flags c3 = flags c" by (simp add: fed_def)
      then obtain c' n where n: "input_loop srv (run_cmd exec) (exec (args r) s) c3 = Some (fold exec (map args (take n rs)) (exec (args r) s), c', True)"
          "n \<le> length rs" "waiting srv c' (drop n rs) fut" "starved (drop n rs) fut" "master_inv c' (drop n rs) fut" "fed c3 c' (take n rs)"
        using Cons.IH [of c3 "exec (args r) s"] c3(2,3) Cons.prems(2,3) by (auto simp: waiting_def ready_def)
      have "input_loop srv (run_cmd exec) s c = input_loop srv (run_cmd exec) (exec (args r) s) c3"
        using q fl c1(1) got(1,3) c3(1) valid_args [OF v]
        by (subst input_loop.simps) (auto simp: processCommandAndResetClient_def run_cmd_def)
      then show ?thesis using n fed_trans [OF f3 n(6)]
        by (intro exI [of _ c'] exI [of _ "Suc n"]) simp
    qed
  qed
qed

section \<open>Reading from the connection\<close>

text \<open>The reads of one connection, as long as the client is not freed.\<close>

fun read_all :: "server \<Rightarrow> 's processor \<Rightarrow> conn_read list \<Rightarrow> 's \<Rightarrow> client \<Rightarrow> ('s \<times> client) option" where
  "read_all srv processCommand [] s c = Some (s, c)"
| "read_all srv processCommand (d # ds) s c =
     do {
       (s, c, alive) \<leftarrow> readQueryFromClient srv processCommand d s c;
       if alive then read_all srv processCommand ds s c else Some (s, c)
     }"

lemma trim_ok:
  assumes "waiting srv c rs fut" and "master_inv c rs fut"
  shows "\<exists>c'. trim_querybuf c = Some c' \<and> waiting srv c' rs fut \<and> master_inv c' rs fut \<and> fed c c' []"
proof -
  have w: "waiting srv (c\<lparr>querybuf := drop k (querybuf c), qb_pos := qb_pos c - k, repl_applied := ra\<rparr>) rs fut" if "k \<le> qb_pos c" for k ra
  proof -
    have "rest (c\<lparr>querybuf := drop k (querybuf c), qb_pos := qb_pos c - k, repl_applied := ra\<rparr>) = rest c"
      using that by (simp add: rest_def)
    moreover have "qb_pos c - k \<le> length (drop k (querybuf c))" using waiting_bounds [OF assms(1)] by simp
    ultimately show ?thesis using assms(1) by (auto simp: waiting_def idle_def reading_def slots_def)
  qed
  show ?thesis
  proof (cases "CLIENT_MASTER \<in> flags c")
    case True
    then have m: "repl_applied c \<le> qb_pos c" "reploff c = read_reploff c - int (length (querybuf c)) + int (repl_applied c)"
        "drop (repl_applied c) (querybuf c) @ fut = encode_all rs"
      using assms(2) by (auto simp: master_inv_def)
    show ?thesis
    proof (cases "repl_applied c = 0")
      case True
      then show ?thesis using \<open>CLIENT_MASTER \<in> flags c\<close> assms by (simp add: trim_querybuf_def fed_def)
    next
      case False
      then show ?thesis
        using w [OF m(1), of 0] m \<open>CLIENT_MASTER \<in> flags c\<close> waiting_bounds [OF assms(1)]
        by (auto simp: trim_querybuf_def fed_def master_inv_def)
    qed
  next
    case False
    then show ?thesis
      using w [of "qb_pos c" "repl_applied c"] assms by (simp add: trim_querybuf_def fed_def master_inv_def)
  qed
qed

lemma waiting_length:
  assumes "waiting srv c rs fut"
  shows "length fut \<le> length (encode_all rs)"
proof -
  have "length fut \<le> length (concat (map bulk as)) + length X" if r: "reading srv c as X fut" for as X
  proof -
    consider "rest c @ fut = concat (map bulk as) @ X"
      | a as' where "as = a # as'" "rest c @ fut = a @ [13, 10] @ concat (map bulk as') @ X"
      using r by (auto simp: reading_def)
    then show ?thesis
    proof cases
      case 1
      from arg_cong [OF 1, of length] show ?thesis by simp
    next
      case 2
      from arg_cong [OF 2(2), of length] show ?thesis by (simp add: 2(1) bulk_def)
    qed
  qed
  note reading = this
  from assms show ?thesis unfolding waiting_def
  proof (elim disjE exE conjE)
    assume "idle c rs fut"
    then have "rest c @ fut = encode_all rs" by (simp add: idle_def)
    from arg_cong [OF this, of length] show ?thesis by simp
  next
    fix as rs' assume "rs = RESP (argv c @ as) # rs'" "reading srv c as (encode_all rs') fut"
    then show ?thesis using reading by fastforce
  qed
qed

lemma receive_ok:
  assumes "waiting srv c rs (d @ fut)"
  shows "waiting srv (c\<lparr>querybuf := querybuf c @ d, lastinteraction := t, read_reploff := ro\<rparr>) rs fut"
proof -
  have "rest (c\<lparr>querybuf := querybuf c @ d, lastinteraction := t, read_reploff := ro\<rparr>) = rest c @ d"
    using waiting_bounds [OF assms] by (simp add: rest_def)
  then show ?thesis using assms by (auto simp: waiting_def idle_def reading_def slots_def)
qed

lemma read_ok:
  assumes w: "waiting srv c rs (d @ fut)" and v: "list_all (valid_request srv (CLIENT_MASTER \<in> flags c)) rs" and r: "ready srv c"
    and m: "master_inv c rs (d @ fut)" and l: "length (querybuf c) + length d \<le> client_max_querybuf_len srv"
  shows "\<exists>c' n. readQueryFromClient srv (run_cmd exec) (READ_DATA d) s c = Some (fold exec (map args (take n rs)) s, c', True) \<and> n \<le> length rs \<and>
    waiting srv c' (drop n rs) fut \<and> starved (drop n rs) fut \<and> master_inv c' (drop n rs) fut \<and> flags c' = flags c \<and> replies c' = replies c \<and>
    length (querybuf c') \<le> length (querybuf c) + length d \<and>
    repl_fed c' = repl_fed c @ (if CLIENT_MASTER \<in> flags c then encode_all (take n rs) else [])"
proof -
  define c1 where "c1 = c\<lparr>querybuf := querybuf c @ d, lastinteraction := unixtime srv,
    read_reploff := (if CLIENT_MASTER \<in> flags c then read_reploff c + int (length d) else read_reploff c)\<rparr>"
  have w1: "waiting srv c1 rs fut" unfolding c1_def by (rule receive_ok [OF w])
  have m1: "master_inv c1 rs fut"
    using m waiting_bounds [OF w] by (auto simp: c1_def master_inv_def)
  have r1: "ready srv c1" using r by (simp add: c1_def ready_def)
  have v1: "list_all (valid_request srv (CLIENT_MASTER \<in> flags c1)) rs" using v by (simp add: c1_def)
  obtain c2 n where n: "input_loop srv (run_cmd exec) s c1 = Some (fold exec (map args (take n rs)) s, c2, True)" "n \<le> length rs"
      "waiting srv c2 (drop n rs) fut" "starved (drop n rs) fut" "master_inv c2 (drop n rs) fut" "fed c1 c2 (take n rs)"
    using input_loop_ok [OF w1 v1 r1 m1, of exec s] by (elim exE conjE)
  obtain c' where c': "trim_querybuf c2 = Some c'" "waiting srv c' (drop n rs) fut" "master_inv c' (drop n rs) fut" "fed c2 c' []"
    using trim_ok [OF n(3,5)] by blast
  have "fed c1 c' (take n rs)" using fed_trans [OF n(6) c'(4)] by simp
  moreover have "readQueryFromClient srv (run_cmd exec) (READ_DATA d) s c = processInputBuffer srv (run_cmd exec) s c1"
    using l by (cases "CLIENT_MASTER \<in> flags c") (simp_all add: c1_def)
  ultimately show ?thesis
    using n(1,2,4) c' by (intro exI [of _ c'] exI [of _ n]) (simp add: processInputBuffer_def fed_def c1_def)
qed

lemma read_all_ok:
  assumes "waiting srv c rs (concat ds @ fut)" and "list_all (valid_request srv (CLIENT_MASTER \<in> flags c)) rs" and "ready srv c"
    and "master_inv c rs (concat ds @ fut)" and "length (querybuf c) + length (concat ds) \<le> client_max_querybuf_len srv"
    and "starved rs (concat ds @ fut)"
  shows "\<exists>c' n. read_all srv (run_cmd exec) (map READ_DATA ds) s c = Some (fold exec (map args (take n rs)) s, c') \<and> n \<le> length rs \<and>
    waiting srv c' (drop n rs) fut \<and> starved (drop n rs) fut \<and> flags c' = flags c \<and> replies c' = replies c \<and>
    repl_fed c' = repl_fed c @ (if CLIENT_MASTER \<in> flags c then encode_all (take n rs) else [])"
  using assms
proof (induction ds arbitrary: s c rs)
  case Nil
  then show ?case by (intro exI [of _ c] exI [of _ 0]) simp
next
  case (Cons d ds)
  obtain c1 n where n: "readQueryFromClient srv (run_cmd exec) (READ_DATA d) s c = Some (fold exec (map args (take n rs)) s, c1, True)" "n \<le> length rs"
      "waiting srv c1 (drop n rs) (concat ds @ fut)" "starved (drop n rs) (concat ds @ fut)" "master_inv c1 (drop n rs) (concat ds @ fut)"
      "flags c1 = flags c" "replies c1 = replies c" "length (querybuf c1) \<le> length (querybuf c) + length d"
      "repl_fed c1 = repl_fed c @ (if CLIENT_MASTER \<in> flags c then encode_all (take n rs) else [])"
    using read_ok [of srv c rs d "concat ds @ fut" exec s] Cons.prems(1-5) by auto
  have "list_all (valid_request srv (CLIENT_MASTER \<in> flags c1)) (drop n rs)"
    using Cons.prems(2) n(6) by (auto simp: list_all_iff dest: in_set_dropD)
  moreover have "ready srv c1" using Cons.prems(3) n(6) by (simp add: ready_def)
  moreover have "length (querybuf c1) + length (concat ds) \<le> client_max_querybuf_len srv" using Cons.prems(5) n(8) by simp
  ultimately obtain c' m where m: "read_all srv (run_cmd exec) (map READ_DATA ds) (fold exec (map args (take n rs)) s) c1 =
        Some (fold exec (map args (take m (drop n rs))) (fold exec (map args (take n rs)) s), c')" "m \<le> length (drop n rs)"
      "waiting srv c' (drop m (drop n rs)) fut" "starved (drop m (drop n rs)) fut" "flags c' = flags c1" "replies c' = replies c1"
      "repl_fed c' = repl_fed c1 @ (if CLIENT_MASTER \<in> flags c1 then encode_all (take m (drop n rs)) else [])"
    using Cons.IH [OF n(3) _ _ n(5) _ n(4)] by blast
  have t: "take (m + n) rs = take n rs @ take m (drop n rs)" "m + n \<le> length rs"
    using take_add [of n m rs] n(2) m(2) by (simp_all add: add.commute)
  show ?case
    using n m t by (intro exI [of _ c'] exI [of _ "m + n"]) (simp del: readQueryFromClient.simps)
qed

section \<open>Properties\<close>



section \<open>Untrusted input\<close>

text \<open>Invariants of a connection on which arbitrary bytes arrive.\<close>

definition base :: "client \<Rightarrow> bool" where
  "base c \<longleftrightarrow> qb_pos c \<le> length (querybuf c) \<and> CLIENT_BLOCKED \<notin> flags c \<and> CLIENT_MULTI \<notin> flags c \<and>
     (CLIENT_MASTER \<in> flags c \<longrightarrow> repl_applied c \<le> qb_pos c \<and> reploff c = read_reploff c - int (length (querybuf c)) + int (repl_applied c))"

definition mid :: "client \<Rightarrow> nat \<Rightarrow> bool" where
  "mid c n \<longleftrightarrow> base c \<and> reqtype c = PROTO_REQ_MULTIBULK \<and> slots c n \<and>
     (bulklen c = - 1 \<or> 0 < n \<and> unat (bulklen c + 2) = unat (bulklen c) + 2)"

definition sane :: "client \<Rightarrow> bool" where
  "sane c \<longleftrightarrow> (\<exists>n. mid c (Suc n)) \<or>
     base c \<and> multibulklen c = 0 \<and> bulklen c = - 1 \<and>
     (CLIENT_PENDING_COMMAND \<in> flags c \<or> argv c = [] \<and> (reqtype c = PROTO_REQ_MULTIBULK \<longrightarrow> rest c \<noteq> [] \<and> hd (rest c) = ch (CHR ''*'')))"

lemma protocol_error_simps [simp]:
  "querybuf (protocol_error e c) = querybuf c" "qb_pos (protocol_error e c) = qb_pos c" "reqtype (protocol_error e c) = reqtype c"
  "multibulklen (protocol_error e c) = multibulklen c" "bulklen (protocol_error e c) = bulklen c" "argv (protocol_error e c) = argv c"
  "argv_len (protocol_error e c) = argv_len c" "reploff (protocol_error e c) = reploff c" "read_reploff (protocol_error e c) = read_reploff c"
  "repl_applied (protocol_error e c) = repl_applied c" "rest (protocol_error e c) = rest c"
  "flags (protocol_error e c) = flags c \<union> {CLIENT_CLOSE_AFTER_REPLY, CLIENT_PROTOCOL_ERROR}"
  by (simp_all add: protocol_error_def setProtocolError_def addReplyError_def rest_def)

lemma base_error [simp]: "base (protocol_error e c) = base c" and mid_error [simp]: "mid (protocol_error e c) n = mid c n"
  by (simp_all add: base_def mid_def slots_def)

lemma strchr_bound: "strchr_pos xs x = Some n \<Longrightarrow> n < length xs"
  by (induction xs arbitrary: n) (auto split: if_splits)

lemma find_line_total:
  assumes "qb_pos c \<le> length (querybuf c)"
  obtains "find_line c = Some LINE_WAIT" | "find_line c = Some LINE_TOO_BIG"
  | n where "find_line c = Some (LINE_AT n)" "n + 2 \<le> length (rest c)"
proof (cases "strchr_pos (rest c) 13")
  case None
  then show ?thesis using that(1,2) assms
    by (cases "PROTO_INLINE_MAX_SIZE < length (querybuf c) - qb_pos c") (simp_all add: find_line_def unread_rest)
next
  case (Some n)
  show ?thesis
  proof (cases "int (length (querybuf c)) - int (qb_pos c) - 2 < int n")
    case True
    then show ?thesis using that(1) assms Some by (simp add: find_line_def unread_rest)
  next
    case False
    then have "n + 2 \<le> length (rest c)" using assms by (simp add: length_rest)
    then show ?thesis using that(3) [of n] assms Some False by (simp add: find_line_def unread_rest)
  qed
qed

lemma base_forward:
  assumes "base c" and "n + 2 \<le> length (rest c)"
  shows "base (c\<lparr>qb_pos := qb_pos c + n + 2\<rparr>)" "rest (c\<lparr>qb_pos := qb_pos c + n + 2\<rparr>) = drop (n + 2) (rest c)"
  using assms by (auto simp: base_def rest_def add.commute)

lemma nonneg_add2: "\<not> (ll :: u64) <s 0 \<Longrightarrow> unat (ll + 2) = unat ll + 2"
proof -
  assume "\<not> ll <s 0"
  then have "uint ll < 2 ^ 63" by (simp add: sless_zero_iff not_le)
  then have "unat ll < 2 ^ 63" unfolding uint_nat by (metis of_nat_less_iff of_nat_numeral of_nat_power)
  then show ?thesis by (simp add: unat_word_ariths)
qed

lemma bulk_header_total:
  assumes "mid c (Suc n)" and "bulklen c = - 1"
  obtains "bulk_header srv c = Some (BULK_WAIT c)"
  | e where "bulk_header srv c = Some (BULK_FAIL (protocol_error e c))"
  | c' where "bulk_header srv c = Some (BULK_GO c')" "mid c' (Suc n)" "bulklen c' \<noteq> - 1" "length (rest c') < length (rest c)"
proof -
  have b: "base c" and q: "qb_pos c \<le> length (querybuf c)" using assms(1) by (auto simp: mid_def base_def)
  show ?thesis
    using q
  proof (cases rule: find_line_total)
    case 1
    then show ?thesis using that(1) by (simp add: bulk_header_def)
  next
    case 2
    then show ?thesis using that(2) by (simp add: bulk_header_def)
  next
    case (3 k)
    then obtain x xs where x: "rest c = x # xs" by (cases "rest c") auto
    show ?thesis
    proof (cases "x = ch (CHR ''$'')")
      case False
      then show ?thesis using that(2) 3 x by (simp add: bulk_header_def unread_rest [OF q] rd_def)
    next
      case True
      let ?s = "string2ll (take (k - 1) xs)"
      have h: "bulk_header srv c = (case ?s of
             None \<Rightarrow> Some (BULK_FAIL (protocol_error ''Protocol error: invalid bulk length'' c))
           | Some ll \<Rightarrow>
               if ll <s 0 \<or> CLIENT_MASTER \<notin> flags c \<and> proto_max_bulk_len srv <s ll then
                 Some (BULK_FAIL (protocol_error ''Protocol error: invalid bulk length'' c))
               else if 16384 <s ll \<and> auth_needed srv then
                 Some (BULK_FAIL (protocol_error ''Protocol error: unauthenticated bulk length'' c))
               else
                 let c = c\<lparr>qb_pos := qb_pos c + k + 2\<rparr>;
                     c = (if CLIENT_MASTER \<notin> flags c \<and> PROTO_MBULK_BIG_ARG \<le> unat ll \<and>
                             length (querybuf c) - qb_pos c \<le> unat (ll + 2)
                          then c\<lparr>querybuf := drop (qb_pos c) (querybuf c), qb_pos := 0\<rparr> else c)
                 in Some (BULK_GO (c\<lparr>bulklen := ll\<rparr>)))"
        using 3 x True by (simp add: bulk_header_def unread_rest [OF q] rd_def)
      show ?thesis
      proof (cases ?s)
        case None
        then show ?thesis using that(2) h by simp
      next
        case (Some ll)
        show ?thesis
        proof (cases "ll <s 0 \<or> CLIENT_MASTER \<notin> flags c \<and> proto_max_bulk_len srv <s ll \<or> 16384 <s ll \<and> auth_needed srv")
          case True
          then have "\<exists>e. bulk_header srv c = Some (BULK_FAIL (protocol_error e c))" unfolding h Some option.case by (auto simp del: protocol_error_simps)
          then show ?thesis using that(2) by blast
        next
          case False
          define c1 where "c1 = c\<lparr>qb_pos := qb_pos c + k + 2\<rparr>"
          define c2 where "c2 = (if CLIENT_MASTER \<notin> flags c1 \<and> PROTO_MBULK_BIG_ARG \<le> unat ll \<and> length (querybuf c1) - qb_pos c1 \<le> unat (ll + 2)
            then c1\<lparr>querybuf := drop (qb_pos c1) (querybuf c1), qb_pos := 0\<rparr> else c1)"
          have "bulk_header srv c = Some (BULK_GO (c2\<lparr>bulklen := ll\<rparr>))"
            unfolding h Some c2_def c1_def using False by (simp add: Let_def)
          moreover have b1: "base c1" "rest c1 = drop (k + 2) (rest c)" using base_forward [OF b 3(2)] by (simp_all add: c1_def)
          then have "base c2" "rest c2 = rest c1" by (auto simp: c2_def base_def rest_def)
          then have "mid (c2\<lparr>bulklen := ll\<rparr>) (Suc n)" "rest (c2\<lparr>bulklen := ll\<rparr>) = rest c1"
            using assms(1) nonneg_add2 [of ll] False by (auto simp: mid_def base_def slots_def c2_def c1_def rest_def)
          moreover have "ll \<noteq> - 1" using False by (auto simp: word_sless_alt)
          ultimately show ?thesis using that(3) [of "c2\<lparr>bulklen := ll\<rparr>"] b1(2) 3(2) by simp
        qed
      qed
    qed
  qed
qed

lemma bulk_body_total:
  assumes "mid c (Suc n)" and "bulklen c \<noteq> - 1"
  obtains "bulk_body c = Some (BULK_WAIT c)"
  | c' where "bulk_body c = Some (BULK_GO c')" "mid c' n" "bulklen c' = - 1" "length (rest c') < length (rest c)" "argv c' \<noteq> []"
      "CLIENT_PENDING_COMMAND \<in> flags c' \<longleftrightarrow> CLIENT_PENDING_COMMAND \<in> flags c"
proof (cases "length (rest c) < unat (bulklen c) + 2")
  have u: "unat (bulklen c + 2) = unat (bulklen c) + 2" using assms by (simp add: mid_def)
  case True
  then show ?thesis using that(1) u by (simp add: bulk_body_def length_rest)
next
  case False
  have u: "unat (bulklen c + 2) = unat (bulklen c) + 2" using assms by (simp add: mid_def)
  have b: "base c" and q: "qb_pos c \<le> length (querybuf c)" and s: "slots c (Suc n)" using assms(1) by (auto simp: mid_def base_def)
  obtain k where k: "grow_argv c = c\<lparr>argv_len := k\<rparr>" "int (length (argv c)) < k" using grow_argv_ok [OF s] by blast
  show ?thesis
  proof (cases "CLIENT_MASTER \<notin> flags c \<and> qb_pos c = 0 \<and> PROTO_MBULK_BIG_ARG \<le> unat (bulklen c) \<and> length (querybuf c) = unat (bulklen c) + 2")
    case True
    define c' where "c' = c\<lparr>argv_len := k, argv := argv c @ [take (length (querybuf c) - 2) (querybuf c)],
            argv_len_sum := argv_len_sum c + bulklen c, querybuf := [], bulklen := - 1, multibulklen := multibulklen c - 1\<rparr>"
    have "bulk_body c = Some (BULK_GO c')" using True False k u by (simp add: bulk_body_def length_rest Let_def c'_def)
    then show ?thesis using that(2) [of c'] True s k(2) assms(1) by (auto simp: c'_def mid_def base_def slots_def rest_def)
  next
    case nb: False
    define c' where "c' = c\<lparr>argv_len := k, argv := argv c @ [take (unat (bulklen c)) (rest c)], argv_len_sum := argv_len_sum c + bulklen c,
            qb_pos := qb_pos c + (unat (bulklen c) + 2), bulklen := - 1, multibulklen := multibulklen c - 1\<rparr>"
    have "rest (c\<lparr>argv_len := k\<rparr>) = rest c" "qb_pos (c\<lparr>argv_len := k\<rparr>) \<le> length (querybuf (c\<lparr>argv_len := k\<rparr>))" using q by (simp_all add: rest_def)
    then have "unread (c\<lparr>argv_len := k\<rparr>) = Some (rest c)" by (metis unread_rest)
    moreover have "rdn (rest c) 0 (unat (bulklen c)) = Some (take (unat (bulklen c)) (rest c))" using False by (simp add: rdn_def)
    ultimately have "bulk_body c = Some (BULK_GO c')"
      using nb False k u by (auto simp: bulk_body_def length_rest Let_def c'_def)
    moreover have "base c'" using b False by (auto simp: c'_def base_def length_rest)
    moreover have "length (rest c') < length (rest c)" using False q by (simp add: c'_def length_rest)
    ultimately show ?thesis using that(2) [of c'] s k(2) assms(1) by (auto simp: c'_def mid_def slots_def)
  qed
qed

lemma bulk_loop_total:
  assumes "mid c (Suc n)"
  shows "\<exists>ok c'. bulk_loop (Suc n) srv c = Some (ok, c') \<and> (\<not> ok \<longrightarrow> (\<exists>m. mid c' (Suc m))) \<and>
    (ok \<longrightarrow> mid c' 0 \<and> argv c' \<noteq> [] \<and> length (rest c') < length (rest c))"
  using assms
proof (induction n arbitrary: c)
  have step: "\<exists>r. bulk_argument srv c = Some r \<and> (case r of BULK_GO c' \<Rightarrow> mid c' n \<and> argv c' \<noteq> [] \<and> length (rest c') < length (rest c)
      | BULK_WAIT c' \<Rightarrow> mid c' (Suc n) | BULK_FAIL c' \<Rightarrow> mid c' (Suc n))" if m: "mid c (Suc n)" for c n
  proof -
    have body: ?thesis if h: "bulk_argument srv c = bulk_body c1" "mid c1 (Suc n)" "bulklen c1 \<noteq> - 1" "length (rest c1) \<le> length (rest c)" for c1
      using h(2,3) by (cases rule: bulk_body_total) (use h in auto)
    show ?thesis
    proof (cases "bulklen c = - 1")
      case True
      show ?thesis
        using m True by (cases rule: bulk_header_total [of _ _ srv]) (use True m body in \<open>auto simp: bulk_argument_def\<close>)
    next
      case False
      then show ?thesis using body [of c] m by (simp add: bulk_argument_def)
    qed
  qed
  {
    case 0
    obtain r where "bulk_argument srv c = Some r" "case r of BULK_GO c' \<Rightarrow> mid c' 0 \<and> argv c' \<noteq> [] \<and> length (rest c') < length (rest c)
      | BULK_WAIT c' \<Rightarrow> mid c' (Suc 0) | BULK_FAIL c' \<Rightarrow> mid c' (Suc 0)" using step [OF 0] by blast
    then show ?case by (cases r) auto
  next
    case (Suc n)
    obtain r where r: "bulk_argument srv c = Some r" "case r of BULK_GO c' \<Rightarrow> mid c' (Suc n) \<and> argv c' \<noteq> [] \<and> length (rest c') < length (rest c)
      | BULK_WAIT c' \<Rightarrow> mid c' (Suc (Suc n)) | BULK_FAIL c' \<Rightarrow> mid c' (Suc (Suc n))" using step [OF Suc.prems] by blast
    show ?case
    proof (cases r)
      case (BULK_GO c')
      then obtain ok c'' where "bulk_loop (Suc n) srv c' = Some (ok, c'')" "\<not> ok \<longrightarrow> (\<exists>m. mid c'' (Suc m))"
          "ok \<longrightarrow> mid c'' 0 \<and> argv c'' \<noteq> [] \<and> length (rest c'') < length (rest c')"
        using Suc.IH [of c'] r(2) by auto
      then show ?thesis using BULK_GO r by auto
    qed (use r in auto)
  }
qed

lemma multibulk_header_total:
  assumes "base c" and "argv c = []" and "rest c \<noteq> []" and "hd (rest c) = ch (CHR ''*'')" and "reqtype c = PROTO_REQ_MULTIBULK" and "bulklen c = - 1" and "multibulklen c = 0"
  obtains "multibulk_header srv c = Some (Inl (False, c))"
  | e where "multibulk_header srv c = Some (Inl (False, protocol_error e c))"
  | c' where "multibulk_header srv c = Some (Inl (True, c'))" "base c'" "multibulklen c' = 0" "bulklen c' = - 1" "length (rest c') < length (rest c)"
  | c' n where "multibulk_header srv c = Some (Inr c')" "mid c' (Suc n)" "length (rest c') < length (rest c)"
proof -
  have q: "qb_pos c \<le> length (querybuf c)" using assms(1) by (simp add: base_def)
  obtain xs where x: "rest c = ch (CHR ''*'') # xs" using assms(3,4) by (cases "rest c") auto
  show ?thesis
    using q
  proof (cases rule: find_line_total)
    case 1
    then show ?thesis using that(1) assms(2) by (simp add: multibulk_header_def)
  next
    case 2
    then show ?thesis using that(2) assms(2) by (simp add: multibulk_header_def)
  next
    case (3 k)
    let ?s = "string2ll (take (k - 1) xs)"
    have h: "multibulk_header srv c = (case ?s of
              None \<Rightarrow> Some (Inl (False, protocol_error ''Protocol error: invalid multibulk length'' c))
            | Some ll \<Rightarrow>
                if INT_MAX < sint ll then Some (Inl (False, protocol_error ''Protocol error: invalid multibulk length'' c))
                else if 10 < sint ll \<and> auth_needed srv then
                  Some (Inl (False, protocol_error ''Protocol error: unauthenticated multibulk length'' c))
                else
                  let c = c\<lparr>qb_pos := qb_pos c + k + 2\<rparr>
                  in Some (if sint ll \<le> 0 then Inl (True, c)
                           else Inr (c\<lparr>multibulklen := sint ll, argv_len := min (sint ll) 1024, argv_len_sum := 0\<rparr>)))"
      using 3 x assms(2) by (simp add: multibulk_header_def unread_rest [OF q] rd_def)
    define c1 where "c1 = c\<lparr>qb_pos := qb_pos c + k + 2\<rparr>"
    have c1: "base c1" "length (rest c1) < length (rest c)" "argv c1 = []" "multibulklen c1 = 0" "bulklen c1 = - 1"
      using base_forward [OF assms(1) 3(2)] 3(2) assms(2,6,7) by (simp_all add: c1_def)
    show ?thesis
    proof (cases ?s)
      case None
      then show ?thesis using that(2) h by simp
    next
      case (Some ll)
      consider "INT_MAX < sint ll \<or> 10 < sint ll \<and> auth_needed srv" | "\<not> INT_MAX < sint ll" "\<not> (10 < sint ll \<and> auth_needed srv)" "sint ll \<le> 0"
        | "\<not> INT_MAX < sint ll" "\<not> (10 < sint ll \<and> auth_needed srv)" "0 < sint ll" by linarith
      then show ?thesis
      proof cases
        case 1
        then have "\<exists>e. multibulk_header srv c = Some (Inl (False, protocol_error e c))" unfolding h Some option.case by (auto simp del: protocol_error_simps)
        then show ?thesis using that(2) by blast
      next
        case 2
        then have "multibulk_header srv c = Some (Inl (True, c1))" unfolding h Some option.case by (auto simp: Let_def c1_def)
        then show ?thesis using that(3) c1 by blast
      next
        case 3
        define c2 where "c2 = c1\<lparr>multibulklen := sint ll, argv_len := min (sint ll) 1024, argv_len_sum := 0\<rparr>"
        have "multibulk_header srv c = Some (Inr c2)" unfolding h Some option.case using 3 by (auto simp: Let_def c1_def c2_def)
        moreover have "mid c2 (Suc (nat (sint ll) - 1))" using c1 3 assms(5,6) by (auto simp: c2_def mid_def base_def slots_def c1_def)
        moreover have "rest c2 = rest c1" by (simp add: c2_def rest_def)
        ultimately show ?thesis using that(4) c1(2) by simp
      qed
    qed
  qed
qed

text \<open>What is left after a call of one of the two parsers.\<close>

definition parsed :: "client \<Rightarrow> bool \<times> client \<Rightarrow> bool" where
  "parsed c r \<longleftrightarrow> (case r of
     (True, c') \<Rightarrow> base c' \<and> length (rest c') < length (rest c) \<and> multibulklen c' = 0 \<and> bulklen c' = - 1
   | (False, c') \<Rightarrow> sane c')"

lemma multibulk_total:
  assumes "sane c" and "CLIENT_PENDING_COMMAND \<notin> flags c" and "reqtype c = PROTO_REQ_MULTIBULK"
  shows "\<exists>r. processMultibulkBuffer srv c = Some r \<and> parsed c r"
proof -
  have loop: ?thesis if h: "processMultibulkBuffer srv c = bulk_loop (nat (multibulklen c1)) srv c1" "mid c1 (Suc n)" "length (rest c1) \<le> length (rest c)" for c1 n
  proof -
    have "nat (multibulklen c1) = Suc n" using h(2) by (simp add: mid_def slots_def)
    then show ?thesis using bulk_loop_total [OF h(2), of srv] h(1,3) by (fastforce simp: parsed_def sane_def mid_def slots_def simp del: bulk_loop.simps split: bool.split)
  qed
  from assms(1) consider n where "mid c (Suc n)" | "base c" "multibulklen c = 0" "bulklen c = - 1" "argv c = []" "rest c \<noteq> []" "hd (rest c) = ch (CHR ''*'')"
    using assms(2,3) by (auto simp: sane_def)
  then show ?thesis
  proof cases
    case 1
    then have "multibulklen c = int (Suc n)" by (simp add: mid_def slots_def)
    then show ?thesis using loop [of c n] 1 by (simp add: processMultibulkBuffer_def)
  next
    case 2
    have sane: "sane (protocol_error e c)" for e using 2 by (simp add: sane_def)
    show ?thesis
      using 2(1,4,5,6) assms(3) 2(3,2)
    proof (cases rule: multibulk_header_total [of _ srv])
      case 1
      then show ?thesis using 2 assms(1) by (simp add: processMultibulkBuffer_def parsed_def)
    next
      case (2 e)
      then show ?thesis using sane [of e] \<open>multibulklen c = 0\<close> by (simp add: processMultibulkBuffer_def parsed_def)
    next
      case (3 c')
      then show ?thesis using \<open>multibulklen c = 0\<close> by (simp add: processMultibulkBuffer_def parsed_def)
    next
      case (4 c' n)
      then have "0 < multibulklen c'" by (simp add: mid_def slots_def)
      then show ?thesis using 4 2 loop [of c' n] by (simp add: processMultibulkBuffer_def)
    qed
  qed
qed

lemma inline_args_parsed:
  assumes "sane c" and "multibulklen c = 0" and "CLIENT_PENDING_COMMAND \<notin> flags c" and "reqtype c = PROTO_REQ_INLINE"
    and le: "k + l \<le> length (rest c)" "0 < l"
  shows "parsed c (inline_args srv c k l as)"
proof -
  have b: "base c" "bulklen c = - 1" "argv c = []" using assms(1-4) by (auto simp: sane_def mid_def)
  define c1 where "c1 = (if k = 0 \<and> getClientType c = CLIENT_TYPE_SLAVE then c\<lparr>repl_ack_time := unixtime srv\<rparr> else c)"
  have c1: "base c1" "multibulklen c1 = 0" "bulklen c1 = - 1" "argv c1 = []" "reqtype c1 = PROTO_REQ_INLINE" "querybuf c1 = querybuf c" "qb_pos c1 = qb_pos c"
    using b assms(2,4) by (simp_all add: c1_def base_def rest_def)
  define c2 where "c2 = c1\<lparr>qb_pos := qb_pos c1 + k + l\<rparr>"
  define c3 where "c3 = (if as \<noteq> [] then c2\<lparr>argv_len := int (length as), argv_len_sum := 0\<rparr> else c2)"
  define c4 where "c4 = c3\<lparr>argv := as, argv_len_sum := argv_len_sum c3 + of_nat (sum_list (map length as))\<rparr>"
  have "inline_args srv c k l as = (if k \<noteq> 0 \<and> CLIENT_MASTER \<in> flags c1 then (False, setProtocolError c1) else (True, c4))"
    unfolding inline_args_def Let_def c4_def c3_def c2_def c1_def by (rule refl)
  moreover have "sane (setProtocolError c1)" using c1 by (simp add: sane_def setProtocolError_def base_def)
  moreover have "base c4" "multibulklen c4 = 0" "bulklen c4 = - 1" "length (rest c4) < length (rest c)"
    using c1 le by (auto simp: c4_def c3_def c2_def base_def length_rest)
  ultimately show ?thesis by (simp add: parsed_def)
qed

lemma inline_total:
  assumes "sane c" and "multibulklen c = 0" and "CLIENT_PENDING_COMMAND \<notin> flags c" and "reqtype c = PROTO_REQ_INLINE"
  shows "\<exists>r. processInlineBuffer srv c = Some r \<and> parsed c r"
proof -
  have b: "base c" "bulklen c = - 1" "argv c = []" using assms by (auto simp: sane_def mid_def)
  then have q: "qb_pos c \<le> length (querybuf c)" by (simp add: base_def)
  have sane: "sane (protocol_error e c)" for e using b assms(2,4) by (simp add: sane_def)
  show ?thesis
  proof (cases "strchr_pos (rest c) 10")
    case None
    then show ?thesis using sane assms(1) by (auto simp: processInlineBuffer_def unread_rest [OF q] parsed_def)
  next
    case (Some n)
    note n = strchr_bound [OF Some]
    define k l where "k = (if n \<noteq> 0 \<and> rest c ! (n - 1) = 13 then n - 1 else n)"
      and "l = (if n \<noteq> 0 \<and> rest c ! (n - 1) = 13 then 2 else 1 :: nat)"
    have kl: "(if n \<noteq> 0 \<and> rest c ! (n - 1) = 13 then (n - 1, 2) else (n, 1)) = (k, l)" by (simp add: k_def l_def)
    have le: "k + l \<le> length (rest c)" "0 < l" using n by (auto simp: k_def l_def)
    show ?thesis
    proof (cases "sdssplitargs (take k (rest c))")
      case None
      then show ?thesis using Some sane kl by (simp add: processInlineBuffer_def unread_rest [OF q] parsed_def Let_def)
    next
      case args: (Some as)
      have "processInlineBuffer srv c = Some (inline_args srv c k l as)"
        using Some args kl by (simp add: processInlineBuffer_def unread_rest [OF q])
      then show ?thesis using inline_args_parsed [OF assms le] by blast
    qed
  qed
qed

lemma resetClient_sane:
  assumes "base c"
  shows "sane (resetClient c)" "rest (resetClient c) = rest c"
proof -
  have f: "querybuf (resetClient c) = querybuf c" "qb_pos (resetClient c) = qb_pos c" "multibulklen (resetClient c) = 0" "bulklen (resetClient c) = - 1"
      "argv (resetClient c) = []" "reqtype (resetClient c) = PROTO_REQ_NONE" "repl_applied (resetClient c) = repl_applied c"
      "reploff (resetClient c) = reploff c" "read_reploff (resetClient c) = read_reploff c"
      "x \<in> {CLIENT_BLOCKED, CLIENT_MULTI, CLIENT_MASTER} \<Longrightarrow> x \<in> flags (resetClient c) \<longleftrightarrow> x \<in> flags c" for x
    by (auto simp: resetClient_def freeClientArgv_def Let_def)
  then show "rest (resetClient c) = rest c" by (simp add: rest_def)
  show "sane (resetClient c)" using assms f by (simp add: sane_def base_def)
qed

lemma commandProcessed_total:
  assumes "base c"
  shows "\<exists>c'. commandProcessed c = Some c' \<and> sane c' \<and> rest c' = rest c"
proof -
  let ?r = "resetClient c"
  note r = resetClient_sane [OF assms]
  have b: "base ?r" and e: "multibulklen ?r = 0" "bulklen ?r = - 1" "argv ?r = []" "reqtype ?r = PROTO_REQ_NONE"
    using r(1) by (auto simp: sane_def mid_def resetClient_def freeClientArgv_def Let_def)
  show ?thesis
  proof (cases "CLIENT_MASTER \<in> flags ?r")
    case False
    then show ?thesis using assms r by (simp add: commandProcessed_def base_def Let_def)
  next
    case True
    let ?d = "read_reploff ?r - int (length (querybuf ?r)) + int (qb_pos ?r) - reploff ?r"
    have m: "repl_applied ?r \<le> qb_pos ?r" "qb_pos ?r \<le> length (querybuf ?r)" "?d = int (qb_pos ?r - repl_applied ?r)"
      using b True by (auto simp: base_def)
    have nd: "0 \<le> ?d" "nat ?d = qb_pos ?r - repl_applied ?r" unfolding m(3) by simp_all
    define c1 where "c1 = ?r\<lparr>reploff := read_reploff ?r - int (length (querybuf ?r)) + int (qb_pos ?r)\<rparr>"
    define xs where "xs = take (nat ?d) (drop (repl_applied ?r) (querybuf ?r))"
    have x: "rdn (querybuf ?r) (repl_applied ?r) (nat ?d) = Some xs" unfolding nd(2) xs_def using m by (simp add: rdn_def nd)
    define c2 where "c2 = (if ?d = 0 then c1 else c1\<lparr>repl_fed := repl_fed ?r @ xs, repl_applied := repl_applied ?r + nat ?d\<rparr>)"
    have "commandProcessed c = Some c2"
      using True b assms nd(1) x by (simp add: commandProcessed_def base_def Let_def c2_def c1_def not_less)
    moreover have "base c2" using b True m nd by (auto simp: c2_def c1_def base_def)
    moreover have "multibulklen c2 = 0" "bulklen c2 = - 1" "argv c2 = []" "reqtype c2 = PROTO_REQ_NONE" "rest c2 = rest c"
      using e r(2) by (simp_all add: c2_def c1_def rest_def)
    ultimately show ?thesis by (simp add: sane_def)
  qed
qed

lemma request_type_total:
  assumes "sane c" and "rest c \<noteq> []" and "CLIENT_PENDING_COMMAND \<notin> flags c"
  shows "\<exists>c'. request_type c = Some c' \<and> sane c' \<and> rest c' = rest c \<and> flags c' = flags c \<and>
    (reqtype c' = PROTO_REQ_INLINE \<and> multibulklen c' = 0 \<or> reqtype c' = PROTO_REQ_MULTIBULK)"
proof -
  have q: "qb_pos c < length (querybuf c)" using assms(2) by (simp add: rest_def)
  show ?thesis
  proof (cases "reqtype c = PROTO_REQ_NONE")
    case True
    then have c: "base c" "multibulklen c = 0" "bulklen c = - 1" "argv c = []" using assms(1,3) by (auto simp: sane_def mid_def)
    define c' where "c' = c\<lparr>reqtype := if querybuf c ! qb_pos c = ch (CHR ''*'') then PROTO_REQ_MULTIBULK else PROTO_REQ_INLINE\<rparr>"
    have "request_type c = Some c'" using True q by (simp add: request_type_def rd_def c'_def)
    moreover have "hd (rest c) = querybuf c ! qb_pos c" using q by (simp add: rest_def hd_drop_conv_nth)
    moreover have "rest c' = rest c" by (simp add: c'_def rest_def)
    ultimately show ?thesis using c assms(2) by (auto simp: c'_def sane_def base_def)
  next
    case False
    then have "reqtype c = PROTO_REQ_INLINE \<and> multibulklen c = 0 \<or> reqtype c = PROTO_REQ_MULTIBULK"
      using assms(1) by (cases "reqtype c") (auto simp: sane_def mid_def)
    then show ?thesis using False assms(1) by (simp add: request_type_def)
  qed
qed

lemma input_loop_total:
  assumes "sane c"
  shows "\<exists>s' c'. input_loop srv (run_cmd exec) s c = Some (s', c', True) \<and> sane c'"
  using assms
proof (induction "length (rest c)" arbitrary: s c rule: less_induct)
  case less
  let ?stop = "\<not> qb_pos c < length (querybuf c) \<or> CLIENT_BLOCKED \<in> flags c \<or> CLIENT_PENDING_COMMAND \<in> flags c \<or>
    yielding_command srv \<and> CLIENT_MASTER \<in> flags c \<or> CLIENT_CLOSE_AFTER_REPLY \<in> flags c \<or> CLIENT_CLOSE_ASAP \<in> flags c"
  show ?case
  proof (cases ?stop)
    case True
    then have "input_loop srv (run_cmd exec) s c = Some (s, c, True)" by (subst input_loop.simps) auto
    then show ?thesis using less.prems by blast
  next
    case False
    then have ne: "rest c \<noteq> []" by (simp add: rest_def)
    obtain c1 where c1: "request_type c = Some c1" "sane c1" "rest c1 = rest c" "flags c1 = flags c"
        "reqtype c1 = PROTO_REQ_INLINE \<and> multibulklen c1 = 0 \<or> reqtype c1 = PROTO_REQ_MULTIBULK"
      using request_type_total [OF less.prems ne] False by blast
    let ?p = "case reqtype c1 of PROTO_REQ_INLINE \<Rightarrow> processInlineBuffer srv c1 | PROTO_REQ_MULTIBULK \<Rightarrow> processMultibulkBuffer srv c1 | PROTO_REQ_NONE \<Rightarrow> None"
    obtain ok c2 where p: "?p = Some (ok, c2)" "parsed c1 (ok, c2)"
      using inline_total [OF c1(2)] multibulk_total [OF c1(2)] c1(4,5) False by (metis (no_types, lifting) proto_req.case(2,3) surj_pair)
    have unfold: "input_loop srv (run_cmd exec) s c = (if \<not> ok then Some (s, c2, True)
        else if argv c2 = [] then input_loop srv (run_cmd exec) s (resetClient c2)
        else if \<not> io_threads_idle srv then Some (s, c2\<lparr>flags := insert CLIENT_PENDING_COMMAND (flags c2)\<rparr>, True)
        else do {
          (s, c, alive) \<leftarrow> processCommandAndResetClient (run_cmd exec) s c2;
          if \<not> alive then Some (s, c, False) else input_loop srv (run_cmd exec) s c
        })"
      using False c1(1) p(1) by (subst input_loop.simps) auto
    show ?thesis
    proof (cases ok)
      case False
      then show ?thesis using unfold p(2) by (simp add: parsed_def)
    next
      case True
      then have b: "base c2" "length (rest c2) < length (rest c)" "multibulklen c2 = 0" "bulklen c2 = - 1" using p(2) c1(3) by (simp_all add: parsed_def)
      obtain c3 where c3: "commandProcessed c2 = Some c3" "sane c3" "rest c3 = rest c2" using commandProcessed_total [OF b(1)] by blast
      have run: "processCommandAndResetClient (run_cmd exec) s c2 = Some (exec (argv c2) s, c3, True)"
        using c3(1) by (simp add: processCommandAndResetClient_def run_cmd_def)
      have "sane (c2\<lparr>flags := insert CLIENT_PENDING_COMMAND (flags c2)\<rparr>)" using b by (simp add: sane_def base_def)
      moreover have "\<exists>s' c'. input_loop srv (run_cmd exec) s (resetClient c2) = Some (s', c', True) \<and> sane c'"
        using less.hyps [of "resetClient c2" s] resetClient_sane [OF b(1)] b(2) by simp
      moreover have "\<exists>s' c'. input_loop srv (run_cmd exec) (exec (argv c2) s) c3 = Some (s', c', True) \<and> sane c'"
        using less.hyps [of c3 "exec (argv c2) s"] c3(2,3) b(2) by simp
      ultimately show ?thesis unfolding unfold run using True by auto
    qed
  qed
qed

lemma trim_total:
  assumes "sane c"
  shows "\<exists>c'. trim_querybuf c = Some c' \<and> sane c'"
proof -
  have b: "base c" using assms by (auto simp: sane_def mid_def)
  have t: "sane (c\<lparr>querybuf := drop k (querybuf c), qb_pos := qb_pos c - k, repl_applied := ra\<rparr>)"
    if "k \<le> qb_pos c" "CLIENT_MASTER \<in> flags c \<longrightarrow> k = repl_applied c \<and> ra = 0" for k ra
  proof -
    let ?c = "c\<lparr>querybuf := drop k (querybuf c), qb_pos := qb_pos c - k, repl_applied := ra\<rparr>"
    have "base ?c" using b that by (auto simp: base_def)
    moreover have "rest ?c = rest c" using that(1) by (simp add: rest_def)
    ultimately show ?thesis using assms by (auto simp: sane_def mid_def slots_def)
  qed
  show ?thesis
  proof (cases "CLIENT_MASTER \<in> flags c")
    case True
    then have "repl_applied c \<le> qb_pos c" using b by (simp add: base_def)
    then show ?thesis using True t [of "repl_applied c" 0] assms by (auto simp: trim_querybuf_def)
  next
    case False
    then show ?thesis using t [of "qb_pos c" "repl_applied c"] assms by (simp add: trim_querybuf_def)
  qed
qed

lemma freeClientAsync_sane: "sane c \<Longrightarrow> sane (freeClientAsync c)"
  by (auto simp: freeClientAsync_def sane_def mid_def base_def slots_def rest_def)

lemma receive_sane:
  assumes "sane c"
  shows "sane (if CLIENT_MASTER \<in> flags c then c\<lparr>querybuf := querybuf c @ d, lastinteraction := t, read_reploff := read_reploff c + int (length d)\<rparr>
    else c\<lparr>querybuf := querybuf c @ d, lastinteraction := t\<rparr>)" (is "sane ?c")
proof -
  have b: "base c" using assms by (auto simp: sane_def mid_def)
  then have "base ?c" by (auto simp: base_def)
  moreover have "rest ?c = rest c @ d" using b by (simp add: rest_def base_def)
  ultimately show ?thesis using assms by (auto simp: sane_def mid_def slots_def)
qed

lemma read_total:
  assumes "sane c"
  shows "\<exists>s' c'. readQueryFromClient srv (run_cmd exec) d s c = Some (s', c', True) \<and> sane c'"
proof (cases d)
  case (READ_DATA data)
  define c1 where "c1 = (if CLIENT_MASTER \<in> flags c then c\<lparr>querybuf := querybuf c @ data, lastinteraction := unixtime srv, read_reploff := read_reploff c + int (length data)\<rparr>
    else c\<lparr>querybuf := querybuf c @ data, lastinteraction := unixtime srv\<rparr>)"
  have c1: "sane c1" unfolding c1_def by (rule receive_sane [OF assms])
  have "readQueryFromClient srv (run_cmd exec) d s c =
      (if CLIENT_MASTER \<notin> flags c1 \<and> client_max_querybuf_len srv < length (querybuf c1) then Some (s, freeClientAsync c1, True)
       else processInputBuffer srv (run_cmd exec) s c1)"
    by (simp add: READ_DATA c1_def)
  moreover have "\<exists>s' c'. processInputBuffer srv (run_cmd exec) s c1 = Some (s', c', True) \<and> sane c'"
  proof -
    obtain s' c2 where "input_loop srv (run_cmd exec) s c1 = Some (s', c2, True)" "sane c2" using input_loop_total [OF c1, of srv exec s] by blast
    moreover obtain c' where "trim_querybuf c2 = Some c'" "sane c'" using trim_total [OF \<open>sane c2\<close>] by blast
    ultimately show ?thesis by (simp add: processInputBuffer_def)
  qed
  ultimately show ?thesis using freeClientAsync_sane [OF c1] by auto
qed (use assms freeClientAsync_sane in auto)

lemma read_all_total:
  assumes "sane c"
  shows "\<exists>s' c'. read_all srv (run_cmd exec) reads s c = Some (s', c') \<and> sane c'"
  using assms
proof (induction reads arbitrary: s c)
  case Nil
  then show ?case by simp
next
  case (Cons d reads)
  obtain s1 c1 where "readQueryFromClient srv (run_cmd exec) d s c = Some (s1, c1, True)" "sane c1" using read_total [OF Cons.prems, of srv exec d s] by blast
  then show ?case using Cons.IH [of c1 s1] by simp
qed


end
