(* ===== verification/Spec2Isabelle.thy ===== *)
theory Spec2Isabelle
  imports Redis_Prelude Redis_Util Redis_Glob Redis_Crc Redis_Intset Redis_Dict Redis_Dict_Scan Redis_Siphash Redis_Sds Redis_Sds_Text Redis_Tset Redis_Listpack Redis_Listpack_Entry Redis_Listpack_Walk Redis_Listpack_Update Redis_Listpack_Spec Redis_Resp Redis_Resp_Proofs
begin

text \<open>
  A verification development for the C part of the repository: the Redis 7.0.15 server whose
  sources are under \<open>src/redis-7.0.15/src\<close>.
\<close>

end
